(* ===== verification/Prelude.thy ===== *)
theory Prelude
  imports Main "HOL-Library.Word"
begin

unbundle bit_operations_syntax

text \<open>
  Shared vocabulary of the development: C strings, bytes, the parts of the C library the
  server calls on them (\<open>strsep\<close>, \<open>strcasecmp\<close>, \<open>strstr\<close>, \<open>atoi\<close>, the \<open>ctype.h\<close>
  predicates of the C locale, \<open>%d\<close> and \<open>%02x\<close> of \<open>printf\<close>), and the
  generic lemmas the component theories use.

  A C string is the list of its characters before the terminating NUL.  A \<open>char\<close> is signed,
  as on the x86-64 Linux the server is built for; \<open>char_int\<close> is the promotion of a \<open>char\<close>
  to \<open>int\<close>, read as a 32-bit word.
\<close>

section \<open>Collections of facts\<close>

named_theorems str_simps \<open>simplification rules for C string functions\<close>
named_theorems io_simps \<open>simplification rules for the socket layer\<close>

section \<open>Lists\<close>

lemma distinct_set_singleton: "distinct xs \<Longrightarrow> set xs = {x} \<Longrightarrow> xs = [x]"
proof (cases xs)
  case (Cons y ys)
  assume "distinct xs" "set xs = {x}"
  with Cons have "y = x" "set ys = {}" by (auto simp: subset_singleton_iff)
  with Cons show ?thesis by simp
qed simp

section \<open>Types\<close>

type_synonym cstring = string
type_synonym u8 = "8 word"
type_synonym u32 = "32 word"

abbreviation NUL :: char where "NUL \<equiv> CHR 0x00"
abbreviation LF :: char where "LF \<equiv> CHR 0x0A"
abbreviation CR :: char where "CR \<equiv> CHR 0x0D"
abbreviation SP :: char where "SP \<equiv> CHR 0x20"
abbreviation CRLF :: cstring where "CRLF \<equiv> [CR, LF]"

definition is_cstr :: "string \<Rightarrow> bool" where
  "is_cstr s \<longleftrightarrow> NUL \<notin> set s"

text \<open>What a \<open>char *\<close> to a buffer holding these characters is as a C string.\<close>

definition cstr :: "string \<Rightarrow> cstring" where
  "cstr s = takeWhile (\<lambda>c. c \<noteq> NUL) s"

definition code_of :: "char \<Rightarrow> nat" where
  "code_of c = of_char c"

definition byte_of :: "char \<Rightarrow> u8" where
  "byte_of c = word_of_nat (code_of c)"

definition char_of_byte :: "u8 \<Rightarrow> char" where
  "char_of_byte w = char_of (unat w)"

definition char_int :: "char \<Rightarrow> u32" where
  "char_int c = scast (byte_of c)"

lemma code_of_less [simp]: "code_of c < 256"
  by (simp add: code_of_def)

lemma code_of_diff_less [simp]: "code_of c - k < 256"
  using code_of_less [of c] by linarith

lemma code_of_inject [simp]: "code_of c = code_of d \<longleftrightarrow> c = d"
  by (simp add: code_of_def)

lemma code_of_char_of [simp]: "n < 256 \<Longrightarrow> code_of (char_of n) = n"
  by (simp add: code_of_def)

lemma char_of_code_of [simp]: "char_of (code_of c) = c"
  by (simp add: code_of_def)

lemma unat_byte_of [simp]: "unat (byte_of c) = code_of c"
  by (simp add: byte_of_def unsigned_of_nat take_bit_nat_eq_self)

lemma char_of_byte_of [simp]: "char_of_byte (byte_of c) = c"
  by (simp add: char_of_byte_def)

lemma unat_u8_less [simp]: "unat (w::u8) < 256"
  using unsigned_less [of w, where ?'a = nat] by simp

lemma byte_of_char_of_byte [simp]: "byte_of (char_of_byte w) = w"
  by (simp add: byte_of_def char_of_byte_def)

section \<open>\<open>ctype.h\<close> in the C locale\<close>

definition c_isdigit :: "char \<Rightarrow> bool" where
  "c_isdigit c \<longleftrightarrow> 48 \<le> code_of c \<and> code_of c \<le> 57"

definition c_isupper :: "char \<Rightarrow> bool" where
  "c_isupper c \<longleftrightarrow> 65 \<le> code_of c \<and> code_of c \<le> 90"

definition c_islower :: "char \<Rightarrow> bool" where
  "c_islower c \<longleftrightarrow> 97 \<le> code_of c \<and> code_of c \<le> 122"

definition c_isalnum :: "char \<Rightarrow> bool" where
  "c_isalnum c \<longleftrightarrow> c_isdigit c \<or> c_isupper c \<or> c_islower c"

definition c_isspace :: "char \<Rightarrow> bool" where
  "c_isspace c \<longleftrightarrow> code_of c = 32 \<or> 9 \<le> code_of c \<and> code_of c \<le> 13"

definition c_toupper :: "char \<Rightarrow> char" where
  "c_toupper c = (if c_islower c then char_of (code_of c - 32) else c)"

definition c_tolower :: "char \<Rightarrow> char" where
  "c_tolower c = (if c_isupper c then char_of (code_of c + 32) else c)"

lemmas ctype_defs =
  c_isdigit_def c_isupper_def c_islower_def c_isalnum_def c_isspace_def

lemma c_toupper_idem [simp]: "c_toupper (c_toupper c) = c_toupper c"
proof (cases "c_islower c")
  case True
  then have "code_of (char_of (code_of c - 32)) = code_of c - 32"
    by (simp add: c_islower_def)
  with True show ?thesis by (auto simp: c_toupper_def c_islower_def)
qed (simp add: c_toupper_def)

section \<open>\<open>string.h\<close>\<close>

text \<open>
  \<open>strsep(&p, delims)\<close> on a non-null \<open>p\<close>: the token up to the first delimiter, and the
  new value of \<open>p\<close>, which is null when no delimiter was left.
\<close>

definition strsep :: "char list \<Rightarrow> cstring \<Rightarrow> cstring \<times> cstring option" where
  "strsep ds s = (takeWhile (\<lambda>c. c \<notin> set ds) s,
     case dropWhile (\<lambda>c. c \<notin> set ds) s of [] \<Rightarrow> None | _ # r \<Rightarrow> Some r)"

lemma strsep_length: "strsep ds s = (t, Some r) \<Longrightarrow> length r < length s"
proof -
  assume "strsep ds s = (t, Some r)"
  then obtain c where "dropWhile (\<lambda>c. c \<notin> set ds) s = c # r"
    by (auto simp: strsep_def split: list.splits)
  then show ?thesis
    using length_dropWhile_le [of "\<lambda>c. c \<notin> set ds" s] by simp
qed

text \<open>The loop \<open>while ((token = strsep(&p, delims)))\<close>: every token, in order.\<close>

function strsep_all :: "char list \<Rightarrow> cstring \<Rightarrow> cstring list" where
  "strsep_all ds s =
     (case strsep ds s of (t, None) \<Rightarrow> [t] | (t, Some r) \<Rightarrow> t # strsep_all ds r)"
  by pat_completeness auto
termination
  by (relation "measure (\<lambda>(ds, s). length s)") (auto simp: strsep_length dest: sym)

declare strsep_all.simps [simp del]

definition strcasecmp_eq :: "cstring \<Rightarrow> cstring \<Rightarrow> bool" where
  "strcasecmp_eq s t \<longleftrightarrow> map c_tolower s = map c_tolower t"

fun is_prefix_of :: "cstring \<Rightarrow> cstring \<Rightarrow> bool" where
  "is_prefix_of [] s = True"
| "is_prefix_of (x # xs) [] = False"
| "is_prefix_of (x # xs) (y # ys) = (x = y \<and> is_prefix_of xs ys)"

text \<open>\<open>strstr(hay, needle) != NULL\<close>.\<close>

fun strstr :: "cstring \<Rightarrow> cstring \<Rightarrow> bool" where
  "strstr [] n = (n = [])"
| "strstr (h # hs) n = (is_prefix_of n (h # hs) \<or> strstr hs n)"

lemma is_prefix_of_iff: "is_prefix_of p s \<longleftrightarrow> (\<exists>t. s = p @ t)"
  by (induction p s rule: is_prefix_of.induct) auto

lemma strstr_iff: "strstr h n \<longleftrightarrow> (\<exists>a b. h = a @ n @ b)"
proof (induction h)
  case Nil
  then show ?case by auto
next
  case (Cons x h)
  show ?case
  proof
    assume "strstr (x # h) n"
    then consider "is_prefix_of n (x # h)" | "strstr h n" by auto
    then show "\<exists>a b. x # h = a @ n @ b"
    proof cases
      case 1
      then show ?thesis by (metis append_Nil is_prefix_of_iff)
    next
      case 2
      with Cons.IH show ?thesis by (metis append_Cons)
    qed
  next
    assume "\<exists>a b. x # h = a @ n @ b"
    then obtain a b where ab: "x # h = a @ n @ b" by blast
    show "strstr (x # h) n"
    proof (cases a)
      case Nil
      with ab have "is_prefix_of n (x # h)" by (auto simp: is_prefix_of_iff)
      then show ?thesis by simp
    next
      case (Cons y a')
      with ab Cons.IH show ?thesis by auto
    qed
  qed
qed

section \<open>Numbers and text\<close>

fun digits_val :: "int \<Rightarrow> cstring \<Rightarrow> int" where
  "digits_val acc [] = acc"
| "digits_val acc (c # cs) =
     (if c_isdigit c then digits_val (10 * acc + int (code_of c - 48)) cs else acc)"

text \<open>
  \<open>strtol(s, NULL, 10)\<close> of a 64-bit \<open>long\<close>: white space, an optional sign, digits, clamped
  to the range of \<open>long\<close>; \<open>atoi\<close> is its conversion to a 32-bit \<open>int\<close>, as in glibc.
\<close>

definition strtol :: "cstring \<Rightarrow> int" where
  "strtol s =
     (let t = dropWhile c_isspace s;
          v = (case t of [] \<Rightarrow> 0
               | c # cs \<Rightarrow> if c = CHR ''-'' then - digits_val 0 cs
                          else if c = CHR ''+'' then digits_val 0 cs
                          else digits_val 0 t)
      in max (- (2 ^ 63)) (min (2 ^ 63 - 1) v))"

definition atoi :: "cstring \<Rightarrow> int" where
  "atoi s = sint (word_of_int (strtol s) :: u32)"

definition digit_char :: "nat \<Rightarrow> char" where
  "digit_char n = char_of (48 + n)"

text \<open>\<open>%u\<close> and \<open>%d\<close> of \<open>printf\<close>.\<close>

fun dec_nat :: "nat \<Rightarrow> cstring" where
  "dec_nat n = (if n < 10 then [digit_char n] else dec_nat (n div 10) @ [digit_char (n mod 10)])"

declare dec_nat.simps [simp del]

definition dec_int :: "int \<Rightarrow> cstring" where
  "dec_int i = (if i < 0 then CHR ''-'' # dec_nat (nat (- i)) else dec_nat (nat i))"

lemma c_isdigit_digit_char [simp]: "n < 10 \<Longrightarrow> c_isdigit (digit_char n)"
  by (simp add: c_isdigit_def digit_char_def)

lemma code_of_digit_char [simp]: "n < 10 \<Longrightarrow> code_of (digit_char n) = 48 + n"
  by (simp add: digit_char_def)

lemma digits_val_append:
  "\<forall>c\<in>set xs. c_isdigit c \<Longrightarrow> digits_val acc (xs @ ys) = digits_val (digits_val acc xs) ys"
  by (induction xs arbitrary: acc) auto

lemma dec_nat_digits: "\<forall>c\<in>set (dec_nat n). c_isdigit c"
proof (induction n rule: dec_nat.induct)
  case (1 n)
  then show ?case
    by (cases "n < 10") (auto simp: dec_nat.simps [of n])
qed

lemma digits_val_dec_nat: "digits_val 0 (dec_nat n) = int n"
proof (induction n rule: dec_nat.induct)
  case (1 n)
  show ?case
  proof (cases "n < 10")
    case True
    then show ?thesis by (simp add: dec_nat.simps [of n])
  next
    case False
    have "10 * int (n div 10) + int (n mod 10) = int n" by presburger
    with False 1 show ?thesis
      by (simp add: dec_nat.simps [of n] digits_val_append dec_nat_digits)
  qed
qed

lemma atoi_dec_nat:
  assumes "n < 2 ^ 31"
  shows "atoi (dec_nat n) = int n"
proof -
  obtain c cs where d: "dec_nat n = c # cs" by (cases "dec_nat n") (auto simp: dec_nat.simps [of n] split: if_splits)
  have "c_isdigit c" using dec_nat_digits [of n] by (simp add: d)
  then have c: "\<not> c_isspace c" "c \<noteq> CHR ''-''" "c \<noteq> CHR ''+''"
    by (auto simp: ctype_defs code_of_def)
  have "strtol (dec_nat n) = int n"
    using c assms digits_val_dec_nat [of n] by (simp add: strtol_def d Let_def)
  moreover have "sint (word_of_int (int n) :: u32) = int n"
    unfolding sint_sbintrunc' by (rule signed_take_bit_int_eq_self) (use assms in simp_all)
  ultimately show ?thesis by (simp add: atoi_def)
qed

lemma dec_nat_not_Nil [simp]: "dec_nat n \<noteq> []"
  by (subst dec_nat.simps) simp

lemma dec_nat_no_NUL: "NUL \<notin> set (dec_nat n)"
  using dec_nat_digits [of n] by (auto simp: c_isdigit_def code_of_def)

text \<open>\<open>%02x\<close> of a byte.\<close>

definition hex_digit :: "nat \<Rightarrow> char" where
  "hex_digit n = (if n < 10 then char_of (48 + n) else char_of (87 + n))"

definition hex2 :: "u8 \<Rightarrow> cstring" where
  "hex2 b = [hex_digit (unat b div 16), hex_digit (unat b mod 16)]"

end
