(* ===== verification/Stores.thy ===== *)
theory Stores
  imports Prelude
begin

text \<open>
  The interfaces of the two containers of the server.  \<open>finite_store\<close> is what the callers of the
  hash table and of the search tree rely on: a store that acts as a finite map and can be
  walked entry by entry.  \<open>ordered_store\<close> adds that the walk is in ascending key order, which
  the scheduler's tree promises and the hash table does not.  \<open>byte_sink\<close> is what the code
  that writes answers relies on.
\<close>

section \<open>Stores that act as finite maps\<close>

locale finite_store =
  fixes ok :: "'d \<Rightarrow> bool"
    and lookup :: "'d \<Rightarrow> 'k \<rightharpoonup> 'v"
    and put :: "'d \<Rightarrow> 'k \<Rightarrow> 'v \<Rightarrow> 'd"
    and del :: "'d \<Rightarrow> 'k \<Rightarrow> 'd"
    and entries :: "'d \<Rightarrow> ('k \<times> 'v) list"
  assumes ok_put: "ok d \<Longrightarrow> ok (put d k v)"
    and ok_del: "ok d \<Longrightarrow> ok (del d k)"
    and lookup_put: "ok d \<Longrightarrow> lookup (put d k v) = (lookup d)(k \<mapsto> v)"
    and lookup_del: "ok d \<Longrightarrow> lookup (del d k) = (lookup d)(k := None)"
    and entries_distinct: "ok d \<Longrightarrow> distinct (map fst (entries d))"
    and entries_lookup: "ok d \<Longrightarrow> map_of (entries d) = lookup d"
begin

lemma ok_put_all: "ok d \<Longrightarrow> ok (foldl (\<lambda>d (k, v). put d k v) d kvs)"
  by (induction kvs arbitrary: d) (auto simp: ok_put)

text \<open>Storing a list of pairs in turn: the last pair of a key wins.\<close>

lemma lookup_put_all:
  "ok d \<Longrightarrow> lookup (foldl (\<lambda>d (k, v). put d k v) d kvs) = lookup d ++ map_of (rev kvs)"
proof (induction kvs arbitrary: d)
  case (Cons kv kvs)
  then show ?case
    by (cases kv) (auto simp: ok_put lookup_put map_add_def fun_eq_iff split: option.splits)
qed simp

lemma put_other: "ok d \<Longrightarrow> k' \<noteq> k \<Longrightarrow> lookup (put d k v) k' = lookup d k'"
  by (simp add: lookup_put)

lemma put_del: "ok d \<Longrightarrow> lookup (del (put d k v) k) = (lookup d)(k := None)"
  by (simp add: lookup_put lookup_del ok_put)

lemma finite_dom: "ok d \<Longrightarrow> finite (dom (lookup d))"
  by (metis entries_lookup finite_dom_map_of)

lemma length_entries: "ok d \<Longrightarrow> length (entries d) = card (dom (lookup d))"
  by (metis distinct_card dom_map_of_conv_image_fst entries_distinct entries_lookup
      length_map set_map)

end

section \<open>Stores walked in key order\<close>

locale ordered_store = finite_store ok lookup put del entries
  for ok :: "'d \<Rightarrow> bool" and lookup :: "'d \<Rightarrow> 'k::linorder \<rightharpoonup> 'v"
    and put :: "'d \<Rightarrow> 'k \<Rightarrow> 'v \<Rightarrow> 'd" and del :: "'d \<Rightarrow> 'k \<Rightarrow> 'd"
    and entries :: "'d \<Rightarrow> ('k \<times> 'v) list" +
  assumes entries_sorted: "ok d \<Longrightarrow> sorted_wrt (<) (map fst (entries d))"
begin

lemma entries_unique:
  assumes "ok d" "ok d'" "lookup d = lookup d'"
  shows "entries d = entries d'"
proof -
  have keys: "map fst (entries e) = sorted_list_of_set (dom (lookup e))" if "ok e" for e
  proof -
    have "set (map fst (entries e)) = dom (lookup e)"
      using entries_lookup [OF that] by (metis dom_map_of_conv_image_fst set_map)
    then show ?thesis
      using entries_sorted [OF that] finite_dom [OF that]
      by (metis sorted_list_of_set.idem_if_sorted_distinct strict_sorted_iff)
  qed
  have vals: "entries e = map (\<lambda>k. (k, the (lookup e k))) (map fst (entries e))" if "ok e" for e
  proof -
    have "lookup e (fst kv) = Some (snd kv)" if "kv \<in> set (entries e)" for kv
      using that entries_lookup [OF \<open>ok e\<close>] entries_distinct [OF \<open>ok e\<close>]
      by (metis map_of_eq_Some_iff prod.collapse)
    then show ?thesis by (simp add: map_idI)
  qed
  from keys [OF assms(1)] keys [OF assms(2)] vals [OF assms(1)] vals [OF assms(2)] assms(3)
  show ?thesis by metis
qed

end

section \<open>Sinks\<close>

text \<open>What the code that answers a request relies on: a sink takes an item and appends its
  rendering to what left already, as long as it is in order.\<close>

locale byte_sink =
  fixes ready :: "'c \<Rightarrow> bool"
    and out :: "'c \<Rightarrow> 'b list"
    and emit :: "'c \<Rightarrow> 'i \<Rightarrow> 'c"
    and render :: "'i \<Rightarrow> 'b list"
  assumes ready_emit: "ready c \<Longrightarrow> ready (emit c i)"
    and out_emit: "ready c \<Longrightarrow> out (emit c i) = out c @ render i"
begin

lemma ready_emit_all: "ready c \<Longrightarrow> ready (foldl emit c is)"
  by (induction "is" arbitrary: c) (auto simp: ready_emit)

lemma out_emit_all: "ready c \<Longrightarrow> out (foldl emit c is) = out c @ concat (map render is)"
  by (induction "is" arbitrary: c) (auto simp: ready_emit out_emit)

end

end
