(* ===== verification/Dict.thy ===== *)
theory Dict
  imports Stores "HOL-Library.Multiset"
begin

text \<open>
  The chained hash table of \<open>lib/dictionary.c\<close> with the hash function of \<open>lib/utils.c\<close>.

  A \<open>chain_t\<close> is an association list, the head first; a value is \<open>None\<close> where the C pointer
  is NULL.  A dictionary with zero buckets makes \<open>hash\<close> divide by zero; the server only
  creates dictionaries with \<open>dict()\<close> (16 buckets) and \<open>dict_n(1)\<close>, and \<open>dict_ok\<close> asks
  for at least one.  Allocation does not fail in the model, so the branches that return NULL
  after a failed \<open>malloc\<close> are left out.

  The callers rely on the laws of the locale \<open>finite_store\<close>, which is interpreted on the model
  below.
\<close>

section \<open>Data\<close>

type_synonym 'v assoc = "cstring \<times> 'v option"
type_synonym 'v chain = "'v assoc list"

record 'v dictionary =
  dict_cap :: u32
  dict_map :: "'v chain list"
  dict_size :: u32

section \<open>Hashing\<close>

fun simple_hash_from :: "u32 \<Rightarrow> cstring \<Rightarrow> u32" where
  "simple_hash_from h [] = h"
| "simple_hash_from h (c # cs) = simple_hash_from (char_int c + 31 * h) cs"

definition simple_hash :: "cstring \<Rightarrow> u32" where
  "simple_hash key = simple_hash_from 0 key"

definition hash :: "cstring \<Rightarrow> u32 \<Rightarrow> u32" where
  "hash key hash_size = simple_hash key mod hash_size"

section \<open>Operations\<close>

definition dict_n :: "u32 \<Rightarrow> 'v dictionary" where
  "dict_n n = \<lparr>dict_cap = n, dict_map = replicate (unat n) [], dict_size = 0\<rparr>"

definition dict :: "'v dictionary" where
  "dict = dict_n 16"

definition bucket :: "'v dictionary \<Rightarrow> cstring \<Rightarrow> nat" where
  "bucket d key = unat (hash key (dict_cap d))"

fun chain_find :: "cstring \<Rightarrow> 'v chain \<Rightarrow> 'v assoc option" where
  "chain_find key [] = None"
| "chain_find key (np # rest) = (if key = fst np then Some np else chain_find key rest)"

definition dlookup :: "'v dictionary \<Rightarrow> cstring \<Rightarrow> 'v assoc option" where
  "dlookup d key = chain_find key (dict_map d ! bucket d key)"

text \<open>\<open>__put_el_with_key\<close>: a missing key is appended to its chain with a NULL value.\<close>

definition put_el_with_key :: "'v dictionary \<Rightarrow> cstring \<Rightarrow> 'v dictionary" where
  "put_el_with_key d key =
     (case dlookup d key of
        Some np \<Rightarrow> d
      | None \<Rightarrow>
          let hashval = bucket d key in
          d\<lparr>dict_map := (dict_map d)[hashval := dict_map d ! hashval @ [(key, None)]],
            dict_size := dict_size d + 1\<rparr>)"

fun chain_set :: "cstring \<Rightarrow> 'v option \<Rightarrow> 'v chain \<Rightarrow> 'v chain" where
  "chain_set key v [] = []"
| "chain_set key v (np # rest) =
     (if key = fst np then (fst np, v) # rest else np # chain_set key v rest)"

definition dput :: "'v dictionary \<Rightarrow> cstring \<Rightarrow> 'v option \<Rightarrow> 'v dictionary" where
  "dput d key value =
     (let d' = put_el_with_key d key; hashval = bucket d' key
      in d'\<lparr>dict_map := (dict_map d')[hashval := chain_set key value (dict_map d' ! hashval)]\<rparr>)"

definition dvalue :: "'v dictionary \<Rightarrow> cstring \<Rightarrow> 'v option" where
  "dvalue d key = (case dlookup d key of None \<Rightarrow> None | Some np \<Rightarrow> snd np)"

text \<open>The value \<open>dput\<close> frees: the old one, when both the old and the new are not NULL.\<close>

definition dput_frees :: "'v dictionary \<Rightarrow> cstring \<Rightarrow> 'v option \<Rightarrow> 'v list" where
  "dput_frees d key value =
     (case (dvalue (put_el_with_key d key) key, value) of
        (Some old, Some new) \<Rightarrow> [old]
      | _ \<Rightarrow> [])"

fun chain_unlink :: "cstring \<Rightarrow> 'v chain \<Rightarrow> 'v assoc option \<times> 'v chain" where
  "chain_unlink key [] = (None, [])"
| "chain_unlink key (np # rest) =
     (if key = fst np then (Some np, rest)
      else let (r, rest') = chain_unlink key rest in (r, np # rest'))"

definition dremove :: "'v dictionary \<Rightarrow> cstring \<Rightarrow> 'v assoc option \<times> 'v dictionary" where
  "dremove d key =
     (let hashval = bucket d key in
      case chain_unlink key (dict_map d ! hashval) of
        (Some np, ch) \<Rightarrow>
          (Some np, d\<lparr>dict_map := (dict_map d)[hashval := ch], dict_size := dict_size d - 1\<rparr>)
      | (None, ch) \<Rightarrow> (None, d))"

text \<open>\<open>for_each_assoc\<close>: the buckets in order, each chain from its head.\<close>

definition dict_items :: "'v dictionary \<Rightarrow> 'v assoc list" where
  "dict_items d = concat (dict_map d)"

text \<open>\<open>freedict\<close>: the values freed, in the order \<open>free_association\<close> reaches them.\<close>

fun free_association :: "'v chain \<Rightarrow> 'v list" where
  "free_association [] = []"
| "free_association (a # rest) =
     (case snd a of None \<Rightarrow> free_association rest | Some v \<Rightarrow> v # free_association rest)"

definition freedict :: "'v dictionary \<Rightarrow> 'v list" where
  "freedict d = concat (map free_association (dict_map d))"

section \<open>Abstraction and invariant\<close>

definition dict_abs :: "'v dictionary \<Rightarrow> cstring \<rightharpoonup> 'v option" where
  "dict_abs d key = map_option snd (dlookup d key)"

definition dict_ok :: "'v dictionary \<Rightarrow> bool" where
  "dict_ok d \<longleftrightarrow>
     dict_cap d \<noteq> 0 \<and> length (dict_map d) = unat (dict_cap d) \<and>
     (\<forall>i < length (dict_map d).
        distinct (map fst (dict_map d ! i)) \<and>
        (\<forall>np \<in> set (dict_map d ! i). bucket d (fst np) = i)) \<and>
     dict_size d = of_nat (length (dict_items d))"

section \<open>Chains\<close>

lemma chain_find_map_of: "map_option snd (chain_find k ch) = map_of ch k"
  by (induction ch) auto

lemma chain_find_Some: "chain_find k ch = Some np \<Longrightarrow> np \<in> set ch \<and> fst np = k"
  by (induction ch) (auto split: if_splits)

lemma chain_find_None: "chain_find k ch = None \<longleftrightarrow> k \<notin> fst ` set ch"
  by (induction ch) auto

lemma chain_set_keys [simp]: "map fst (chain_set k v ch) = map fst ch"
  by (induction ch) auto

lemma chain_set_key_set [simp]: "fst ` set (chain_set k v ch) = fst ` set ch"
  by (metis chain_set_keys set_map)

lemma chain_set_length [simp]: "length (chain_set k v ch) = length ch"
  by (induction ch) auto

lemma chain_set_map_of:
  "map_of (chain_set k v ch) = (if k \<in> fst ` set ch then (map_of ch)(k \<mapsto> v) else map_of ch)"
  by (induction ch) (auto simp: fun_eq_iff)

lemma chain_set_absent: "k \<notin> fst ` set ch \<Longrightarrow> chain_set k v ch = ch"
  by (induction ch) auto

lemma chain_set_append:
  "k \<notin> fst ` set ch \<Longrightarrow> chain_set k v (ch @ np # rest) = ch @ chain_set k v (np # rest)"
  by (induction ch) auto

lemma chain_unlink_find: "fst (chain_unlink k ch) = chain_find k ch"
  by (induction ch) (auto split: prod.splits)

lemma chain_unlink_map_of:
  "distinct (map fst ch) \<Longrightarrow> map_of (snd (chain_unlink k ch)) = (map_of ch)(k := None)"
proof (induction ch)
  case (Cons np ch)
  then have "map_of ch (fst np) = None" by (simp add: map_of_eq_None_iff)
  with Cons show ?case by (auto simp: fun_eq_iff split: prod.splits)
qed simp

lemma chain_unlink_sub: "set (snd (chain_unlink k ch)) \<subseteq> set ch"
  by (induction ch) (auto split: prod.splits)

lemma chain_unlink_distinct:
  "distinct (map fst ch) \<Longrightarrow> distinct (map fst (snd (chain_unlink k ch)))"
proof (induction ch)
  case (Cons np ch)
  then show ?case
    using chain_unlink_sub [of k ch] by (auto split: prod.splits)
qed simp

lemma chain_unlink_length:
  "chain_find k ch \<noteq> None \<Longrightarrow> length ch = Suc (length (snd (chain_unlink k ch)))"
  by (induction ch) (auto split: prod.splits if_splits)

lemma chain_unlink_None: "chain_find k ch = None \<Longrightarrow> chain_unlink k ch = (None, ch)"
  by (induction ch) (auto split: if_splits)

section \<open>Buckets\<close>

lemma bucket_update [simp]:
  "bucket (d\<lparr>dict_map := m\<rparr>) k = bucket d k"
  "bucket (d\<lparr>dict_size := n\<rparr>) k = bucket d k"
  by (simp_all add: bucket_def)

lemma bucket_less: "dict_ok d \<Longrightarrow> bucket d k < length (dict_map d)"
  by (simp add: dict_ok_def bucket_def hash_def unat_mod unat_gt_0)

lemma dict_okD:
  assumes "dict_ok d" "i < length (dict_map d)"
  shows "distinct (map fst (dict_map d ! i))" "np \<in> set (dict_map d ! i) \<Longrightarrow> bucket d (fst np) = i"
  using assms by (auto simp: dict_ok_def)

lemma dict_abs_bucket: "dict_abs d k = map_of (dict_map d ! bucket d k) k"
  by (simp add: dict_abs_def dlookup_def chain_find_map_of)

lemma dvalue_abs: "dvalue d k = Option.bind (dict_abs d k) id"
  by (auto simp: dvalue_def dict_abs_def split: option.splits)

text \<open>Replacing one chain by one whose keys still belong to the bucket.\<close>

lemma dict_ok_upd_chain:
  assumes ok: "dict_ok d" and i: "i < length (dict_map d)"
    and dist: "distinct (map fst ch)" and home: "\<And>np. np \<in> set ch \<Longrightarrow> bucket d (fst np) = i"
    and size: "n = of_nat (length (concat ((dict_map d)[i := ch])))"
  shows "dict_ok (d\<lparr>dict_map := (dict_map d)[i := ch], dict_size := n\<rparr>)"
  using assms by (auto simp: dict_ok_def dict_items_def nth_list_update bucket_def)

lemma dict_abs_upd_chain:
  assumes ok: "dict_ok d" and b: "b = bucket d k"
    and off: "\<And>k'. k' \<noteq> k \<Longrightarrow> map_of ch k' = map_of (dict_map d ! b) k'"
  shows "dict_abs (d\<lparr>dict_map := (dict_map d)[b := ch], dict_size := n\<rparr>)
       = (dict_abs d)(k := map_of ch k)"
proof
  fix k'
  have "b < length (dict_map d)" using ok b bucket_less by blast
  then show "dict_abs (d\<lparr>dict_map := (dict_map d)[b := ch], dict_size := n\<rparr>) k'
       = ((dict_abs d)(k := map_of ch k)) k'"
    using b off by (cases "bucket d k' = b") (auto simp: dict_abs_bucket)
qed

lemma sum_list_length_update:
  "i < length xss \<Longrightarrow>
   length (concat (xss[i := ys])) + length (xss ! i) = length (concat xss) + length ys"
proof (induction xss arbitrary: i)
  case (Cons xs xss)
  then show ?case by (cases i) auto
qed simp

section \<open>Insertion\<close>

text \<open>\<open>dput\<close> as one chain replacement.\<close>

definition put_chain :: "'v chain \<Rightarrow> cstring \<Rightarrow> 'v option \<Rightarrow> 'v chain" where
  "put_chain ch key v =
     (if key \<in> fst ` set ch then chain_set key v ch else ch @ [(key, v)])"

lemma put_chain_map_of: "map_of (put_chain ch k v) = (map_of ch)(k \<mapsto> v)"
proof (cases "k \<in> fst ` set ch")
  case False
  then have "map_of ch k = None" by (simp add: map_of_eq_None_iff)
  with False show ?thesis by (auto simp: put_chain_def map_add_def fun_eq_iff split: option.splits)
qed (simp add: put_chain_def chain_set_map_of)

lemma put_chain_distinct: "distinct (map fst ch) \<Longrightarrow> distinct (map fst (put_chain ch k v))"
  by (simp add: put_chain_def)

lemma put_chain_keys: "fst ` set (put_chain ch k v) = insert k (fst ` set ch)"
  by (auto simp: put_chain_def)

lemma dput_put_chain:
  assumes "dict_ok d"
  shows "dput d k v =
    d\<lparr>dict_map := (dict_map d)[bucket d k := put_chain (dict_map d ! bucket d k) k v],
      dict_size := dict_size d + (if dlookup d k = None then 1 else 0)\<rparr>"
  using bucket_less [OF assms, of k]
  by (auto simp: dput_def put_el_with_key_def put_chain_def dlookup_def chain_find_None
      chain_set_append chain_set_absent Let_def
      dest: chain_find_Some split: option.splits)

lemma dict_ok_dput: "dict_ok d \<Longrightarrow> dict_ok (dput d k v)"
proof -
  assume ok: "dict_ok d"
  let ?b = "bucket d k" and ?ch = "put_chain (dict_map d ! bucket d k) k v"
  have b: "?b < length (dict_map d)" by (rule bucket_less [OF ok])
  have len: "length ?ch = length (dict_map d ! ?b) + (if dlookup d k = None then 1 else 0)"
    by (auto simp: put_chain_def dlookup_def chain_find_None)
  have home: "bucket d (fst np) = ?b" if "np \<in> set ?ch" for np
  proof -
    have "fst np \<in> insert k (fst ` set (dict_map d ! ?b))"
      using that put_chain_keys [of "dict_map d ! ?b" k v] by blast
    then show ?thesis using dict_okD(2) [OF ok b] by auto
  qed
  have "dict_size d = of_nat (length (dict_items d))" using ok by (simp add: dict_ok_def)
  then have "dict_size d + (if dlookup d k = None then 1 else 0)
      = of_nat (length (concat ((dict_map d)[?b := ?ch])))"
    using sum_list_length_update [OF b, of ?ch] len by (simp add: dict_items_def split: if_splits)
  then show ?thesis
    unfolding dput_put_chain [OF ok]
    by (intro dict_ok_upd_chain ok b put_chain_distinct dict_okD(1) [OF ok b] home) auto
qed

lemma dict_abs_dput: "dict_ok d \<Longrightarrow> dict_abs (dput d k v) = (dict_abs d)(k \<mapsto> v)"
  by (simp add: dput_put_chain dict_abs_upd_chain put_chain_map_of)

section \<open>Removal\<close>

lemma dremove_result: "fst (dremove d k) = dlookup d k"
  using chain_unlink_find [of k "dict_map d ! bucket d k"]
  by (auto simp: dremove_def dlookup_def Let_def split: prod.splits option.splits)

lemma dremove_chain:
  "snd (dremove d k) =
     (if dlookup d k = None then d
      else d\<lparr>dict_map := (dict_map d)[bucket d k := snd (chain_unlink k (dict_map d ! bucket d k))],
             dict_size := dict_size d - 1\<rparr>)"
  using chain_unlink_find [of k "dict_map d ! bucket d k"]
  by (auto simp: dremove_def dlookup_def Let_def split: prod.splits option.splits)

lemma dict_ok_dremove: "dict_ok d \<Longrightarrow> dict_ok (snd (dremove d k))"
proof (cases "dlookup d k = None")
  case False
  assume ok: "dict_ok d"
  let ?b = "bucket d k" and ?ch = "snd (chain_unlink k (dict_map d ! bucket d k))"
  have b: "?b < length (dict_map d)" by (rule bucket_less [OF ok])
  have "length (dict_map d ! ?b) = Suc (length ?ch)"
    using False by (intro chain_unlink_length) (simp add: dlookup_def)
  then have "length (concat (dict_map d)) = Suc (length (concat ((dict_map d)[?b := ?ch])))"
    using sum_list_length_update [OF b, of ?ch] by simp
  then have "dict_size d - 1 = of_nat (length (concat ((dict_map d)[?b := ?ch])))"
    using ok by (simp add: dict_ok_def dict_items_def)
  moreover have "bucket d (fst np) = ?b" if "np \<in> set ?ch" for np
    using that chain_unlink_sub [of k "dict_map d ! ?b"] dict_okD(2) [OF ok b] by blast
  ultimately show ?thesis
    using False
    by (auto simp: dremove_chain
        intro!: dict_ok_upd_chain ok b chain_unlink_distinct dict_okD(1) [OF ok b])
qed (simp add: dremove_chain)

lemma dict_abs_dremove: "dict_ok d \<Longrightarrow> dict_abs (snd (dremove d k)) = (dict_abs d)(k := None)"
proof (cases "dlookup d k = None")
  case True
  then show ?thesis by (auto simp: dremove_chain dict_abs_def)
next
  case False
  assume ok: "dict_ok d"
  have "distinct (map fst (dict_map d ! bucket d k))"
    by (rule dict_okD(1) [OF ok bucket_less [OF ok]])
  with ok show ?thesis
    unfolding dremove_chain if_not_P [OF False]
    by (simp add: dict_abs_upd_chain chain_unlink_map_of)
qed

section \<open>Iteration\<close>

lemma concat_chains:
  assumes "\<And>i. i < length chs \<Longrightarrow> distinct (map fst (chs ! i))"
    and "\<And>i np. i < length chs \<Longrightarrow> np \<in> set (chs ! i) \<Longrightarrow> f (fst np) = i"
  shows "distinct (map fst (concat chs)) \<and>
    (\<forall>k. map_of (concat chs) k = (if f k < length chs then map_of (chs ! f k) k else None))"
  using assms
proof (induction chs rule: rev_induct)
  case (snoc ch chs)
  have IH: "distinct (map fst (concat chs)) \<and>
    (\<forall>k. map_of (concat chs) k = (if f k < length chs then map_of (chs ! f k) k else None))"
  proof (rule snoc.IH)
    show "distinct (map fst (chs ! i))" if "i < length chs" for i
      using snoc.prems(1) [of i] that by (simp add: nth_append)
    show "f (fst np) = i" if "i < length chs" "np \<in> set (chs ! i)" for i np
      using snoc.prems(2) [of i np] that by (simp add: nth_append)
  qed
  have last: "distinct (map fst ch)" "\<And>np. np \<in> set ch \<Longrightarrow> f (fst np) = length chs"
    using snoc.prems(1) [of "length chs"] snoc.prems(2) [of "length chs"] by auto
  have early: "f (fst np) < length chs" if "np \<in> set (concat chs)" for np
  proof -
    from that obtain ch' where "ch' \<in> set chs" "np \<in> set ch'" by auto
    then obtain i where i: "i < length chs" "np \<in> set (chs ! i)"
      by (metis in_set_conv_nth)
    then have "f (fst np) = i"
      using snoc.prems(2) [of i np] by (simp add: nth_append)
    with i show ?thesis by simp
  qed
  have "map_of ch k = None" if "f k \<noteq> length chs" for k
    using that last(2) by (force simp: map_of_eq_None_iff)
  moreover have "distinct (map fst (concat chs @ ch))"
    using IH last early by (fastforce)
  ultimately show ?case
    using IH by (auto simp: nth_append map_add_def split: option.splits)
qed simp

lemma dict_items_keys:
  assumes "dict_ok d"
  shows "distinct (map fst (dict_items d))" "map_of (dict_items d) = dict_abs d"
proof -
  have *: "distinct (map fst (concat (dict_map d))) \<and>
    (\<forall>k. map_of (concat (dict_map d)) k
       = (if bucket d k < length (dict_map d) then map_of (dict_map d ! bucket d k) k else None))"
    by (rule concat_chains) (use dict_okD [OF assms] in auto)
  then show "distinct (map fst (dict_items d))" by (simp add: dict_items_def)
  show "map_of (dict_items d) = dict_abs d"
    using * bucket_less [OF assms] by (auto simp: dict_items_def dict_abs_bucket)
qed

lemma dict_items_abs: "dict_ok d \<Longrightarrow> (k, v) \<in> set (dict_items d) \<longleftrightarrow> dict_abs d k = Some v"
  using dict_items_keys [of d] by (metis map_of_eq_Some_iff)

lemma dict_size_count: "dict_ok d \<Longrightarrow> dict_size d = of_nat (card (dom (dict_abs d)))"
proof -
  assume ok: "dict_ok d"
  have "dom (dict_abs d) = set (map fst (dict_items d))"
    using dict_items_keys(2) [OF ok] by (metis dom_map_of_conv_image_fst set_map)
  then have "card (dom (dict_abs d)) = length (dict_items d)"
    using distinct_card [OF dict_items_keys(1) [OF ok]] by simp
  then show ?thesis using ok by (simp add: dict_ok_def)
qed

section \<open>New dictionaries\<close>

lemma dict_ok_dict_n: "n \<noteq> 0 \<Longrightarrow> dict_ok (dict_n n)"
  by (auto simp: dict_ok_def dict_n_def dict_items_def concat_replicate_trivial)

lemma dict_items_dict_n [simp]: "dict_items (dict_n n) = []"
  by (simp add: dict_items_def dict_n_def)

lemma dict_abs_dict_n: "n \<noteq> 0 \<Longrightarrow> dict_abs (dict_n n) = Map.empty"
  by (metis dict_items_dict_n dict_items_keys(2) dict_ok_dict_n map_of.simps(1))

lemma dict_ok_dict [simp]: "dict_ok dict"
  by (simp add: dict_def dict_ok_dict_n)

lemma dict_abs_dict [simp]: "dict_abs dict = Map.empty"
  by (simp add: dict_def dict_abs_dict_n)

section \<open>The interface the server relies on\<close>

interpretation cdict: finite_store
  dict_ok dict_abs dput "\<lambda>d k. snd (dremove d k)" dict_items
  by unfold_locales
    (auto simp: dict_ok_dput dict_ok_dremove dict_abs_dput dict_abs_dremove dict_items_keys)

lemmas dict_laws = dict_ok_dput dict_abs_dput dvalue_abs

lemma dvalue_dput_same [simp]: "dict_ok d \<Longrightarrow> dvalue (dput d k v) k = v"
  by (simp add: dict_laws)

lemma dvalue_dput_other [simp]: "dict_ok d \<Longrightarrow> k' \<noteq> k \<Longrightarrow> dvalue (dput d k v) k' = dvalue d k'"
  by (simp add: dict_laws)

lemma dvalue_dict [simp]: "dvalue dict k = None"
  by (simp add: dvalue_abs)

section \<open>Ownership of values\<close>

lemma free_association_append [simp]:
  "free_association (xs @ ys) = free_association xs @ free_association ys"
  by (induction xs) (auto split: option.splits)

lemma freedict_items: "freedict d = free_association (dict_items d)"
proof -
  have "concat (map free_association chs) = free_association (concat chs)" for chs :: "'a chain list"
    by (induction chs) auto
  then show ?thesis by (simp add: freedict_def dict_items_def)
qed

lemma free_association_set:
  "map_of ch k = Some old \<Longrightarrow>
   mset (free_association (chain_set k v ch)) + mset (case old of None \<Rightarrow> [] | Some x \<Rightarrow> [x])
   = mset (free_association ch) + mset (case v of None \<Rightarrow> [] | Some x \<Rightarrow> [x])"
  by (induction ch) (auto split: option.splits if_splits)

lemma free_association_put_chain:
  "mset (free_association (put_chain ch k v))
     + mset (case Option.bind (map_of ch k) id of None \<Rightarrow> [] | Some x \<Rightarrow> [x])
   = mset (free_association ch) + mset (case v of None \<Rightarrow> [] | Some x \<Rightarrow> [x])"
proof (cases "map_of ch k")
  case None
  then have "k \<notin> fst ` set ch" by (simp add: map_of_eq_None_iff)
  with None show ?thesis by (auto simp: put_chain_def split: option.splits)
next
  case (Some old)
  then have "k \<in> fst ` set ch" by (metis map_of_eq_None_iff option.distinct(1))
  with Some free_association_set [OF Some, of v] show ?thesis by (simp add: put_chain_def)
qed

lemma mset_concat_update:
  "i < length xss \<Longrightarrow>
   mset (concat (map f (xss[i := ys]))) + mset (f (xss ! i)) = mset (concat (map f xss)) + mset (f ys)"
proof (induction xss arbitrary: i)
  case (Cons xs xss)
  show ?case
  proof (cases i)
    case (Suc j)
    with Cons.IH [of j] Cons.prems show ?thesis
      by (simp add: union_assoc union_commute)
  qed simp
qed simp

lemma mset_exchange:
  fixes a :: "'a multiset"
  assumes "a + f = d + g" and "g + x = f + v"
  shows "a + x = d + v"
proof -
  have "(a + x) + f = (a + f) + x" by (simp add: ac_simps)
  also have "\<dots> = d + (g + x)" using assms(1) by (simp add: ac_simps)
  also have "\<dots> = (d + v) + f" using assms(2) by (simp add: ac_simps)
  finally show ?thesis by simp
qed

lemma freedict_dput:
  assumes ok: "dict_ok d"
  shows "mset (freedict (dput d k v)) + mset (case dvalue d k of None \<Rightarrow> [] | Some x \<Rightarrow> [x])
       = mset (freedict d) + mset (case v of None \<Rightarrow> [] | Some x \<Rightarrow> [x])"
proof -
  let ?b = "bucket d k"
  let ?ch = "dict_map d ! ?b"
  let ?old = "mset (case Option.bind (map_of ?ch k) id of None \<Rightarrow> [] | Some x \<Rightarrow> [x])"
  have "mset (freedict (dput d k v)) + mset (free_association ?ch)
      = mset (freedict d) + mset (free_association (put_chain ?ch k v))"
    using mset_concat_update [OF bucket_less [OF ok, of k], of free_association "put_chain ?ch k v"]
    by (simp add: freedict_def dput_put_chain [OF ok])
  then have "mset (freedict (dput d k v)) + ?old
      = mset (freedict d) + mset (case v of None \<Rightarrow> [] | Some x \<Rightarrow> [x])"
    using free_association_put_chain [of ?ch k v] by (rule mset_exchange)
  then show ?thesis by (simp add: dvalue_abs dict_abs_bucket)
qed

lemma dvalue_put_el [simp]: "dict_ok d \<Longrightarrow> dvalue (put_el_with_key d k) k = dvalue d k"
proof (cases "dlookup d k")
  case None
  assume ok: "dict_ok d"
  then have b: "bucket d k < length (dict_map d)" by (rule bucket_less)
  from None have "k \<notin> fst ` set (dict_map d ! bucket d k)"
    by (simp add: dlookup_def chain_find_None)
  moreover have "k \<notin> fst ` set ch \<Longrightarrow> chain_find k (ch @ [(k, None)]) = Some (k, None)" for ch :: "'a chain"
    by (induction ch) auto
  moreover have "chain_find k (dict_map d ! bucket d k) = None"
    using None by (simp add: dlookup_def)
  ultimately show ?thesis
    using b None by (simp add: put_el_with_key_def dvalue_def dlookup_def Let_def)
qed (simp add: put_el_with_key_def)

section \<open>Insertion order in a one-bucket dictionary\<close>

lemma bucket_single: "dict_cap d = 1 \<Longrightarrow> bucket d k = 0"
  by (simp add: bucket_def hash_def)

lemma dict_cap_dput [simp]: "dict_cap (dput d k v) = dict_cap d"
  by (auto simp: dput_def put_el_with_key_def Let_def split: option.splits)

lemma dict_items_single_dput:
  assumes ok: "dict_ok d" and one: "dict_cap d = 1" and new: "k \<notin> fst ` set (dict_items d)"
  shows "dict_items (dput d k v) = dict_items d @ [(k, v)]"
proof -
  have "length (dict_map d) = 1" using ok one by (simp add: dict_ok_def)
  then obtain ch where ch: "dict_map d = [ch]" by (auto simp: length_Suc_conv)
  with new show ?thesis
    by (simp add: dput_put_chain [OF ok] bucket_single [OF one] dict_items_def put_chain_def)
qed

lemma dict_items_single_put_all:
  assumes "dict_ok d" "dict_cap d = 1" "distinct (map fst (dict_items d @ kvs))"
  shows "dict_items (foldl (\<lambda>d (k, v). dput d k v) d kvs) = dict_items d @ kvs"
  using assms
proof (induction kvs arbitrary: d)
  case (Cons kv kvs)
  obtain k v where kv: "kv = (k, v)" by (cases kv)
  have items: "dict_items (dput d k v) = dict_items d @ [(k, v)]"
    using Cons.prems by (intro dict_items_single_dput) (auto simp: kv)
  have "dict_items (foldl (\<lambda>d (k, v). dput d k v) (dput d k v) kvs)
      = dict_items (dput d k v) @ kvs"
    using Cons.prems items by (intro Cons.IH) (auto simp: kv dict_ok_dput)
  with items show ?case by (simp add: kv)
qed simp

text \<open>A dictionary made by \<open>dict_n(1)\<close>, as every port's rule table is, is walked by
  \<open>for_each_assoc\<close> in the order its keys were stored.\<close>

lemma dict_n1_order:
  assumes "distinct (map fst kvs)"
  shows "dict_items (foldl (\<lambda>d (k, v). dput d k v) (dict_n 1) kvs) = kvs"
proof -
  have "dict_items (foldl (\<lambda>d (k, v). dput d k v) (dict_n 1) kvs)
      = dict_items (dict_n 1) @ kvs"
  proof (rule dict_items_single_put_all)
    show "dict_ok (dict_n 1 :: 'a dictionary)" by (simp add: dict_ok_dict_n)
    show "dict_cap (dict_n 1 :: 'a dictionary) = 1" by (simp add: dict_n_def)
  qed (use assms in simp)
  then show ?thesis by simp
qed

section \<open>Properties\<close>

text \<open>C27. On a well-formed hash table, \<open>dput\<close> and \<open>dremove\<close> keep it well formed and act on
  the finite map it stands for exactly as map update and map deletion; \<open>dremove\<close> returns
  the entry that was stored, and NULL for a key that was not.\<close>

theorem dict_refines_map:
  assumes "dict_ok d"
  shows "dict_ok (dput d k v) \<and> dict_abs (dput d k v) = (dict_abs d)(k \<mapsto> v) \<and>
    dict_ok (snd (dremove d k)) \<and> dict_abs (snd (dremove d k)) = (dict_abs d)(k := None) \<and>
    fst (dremove d k) = map_option (Pair k) (dict_abs d k)"
proof -
  have "dlookup d k = map_option (Pair k) (dict_abs d k)"
    using chain_find_Some [of k "dict_map d ! bucket d k"]
    by (auto simp: dict_abs_def dlookup_def option.map_comp split: option.splits)
       (cases "chain_find k (dict_map d ! bucket d k)"; force)
  then show ?thesis
    using assms
    by (simp add: dremove_result cdict.ok_put cdict.ok_del cdict.lookup_put cdict.lookup_del)
qed

theorem dict_refines_map_witness:
  "dict_ok (dput (dict :: nat dictionary) ''Host'' (Some 7)) \<and>
   fst (dremove (dict :: nat dictionary) ''Host'') = None"
  using dict_refines_map [OF dict_ok_dict, of "''Host''" "Some (7::nat)"] by simp

text \<open>\<open>for_each_assoc\<close> visits every key exactly once with the value \<open>dvalue\<close> returns
  for it, and \<open>size\<close> counts the keys (modulo \<open>2 ^ 32\<close>).\<close>

lemma dict_iteration_exact:
  assumes "dict_ok d"
  shows "distinct (map fst (dict_items d)) \<and>
    set (dict_items d) = {(k, v). dict_abs d k = Some v} \<and>
    (\<forall>(k, v) \<in> set (dict_items d). dvalue d k = v) \<and>
    dict_size d = of_nat (card (dom (dict_abs d)))"
proof -
  have "set (dict_items d) = {(k, v). dict_abs d k = Some v}"
    by (auto simp: dict_items_abs [OF assms])
  then show ?thesis
    using cdict.entries_distinct [OF assms] dict_size_count [OF assms]
    by (auto simp: dvalue_abs)
qed

text \<open>C31. Values are owned by the table: storing a value adds it to what \<open>freedict\<close> would
  free, and the value it replaces is either freed by \<open>dput\<close> itself (a non-NULL value over a
  non-NULL value) or, when NULL is stored, dropped without being freed, which is how
  \<open>destroy_request\<close> detaches the dictionaries it has freed by hand.\<close>

theorem dput_ownership:
  assumes "dict_ok d"
  shows "mset (freedict (dput d k (Some v))) + mset (dput_frees d k (Some v))
       = add_mset v (mset (freedict d)) \<and>
    dput_frees d k None = [] \<and>
    mset (freedict (dput d k None)) + mset (case dvalue d k of None \<Rightarrow> [] | Some x \<Rightarrow> [x])
       = mset (freedict d)"
  using freedict_dput [OF assms, of k "Some v"] freedict_dput [OF assms, of k None]
  by (simp add: dput_frees_def assms split: option.splits)

theorem dput_ownership_witness:
  "mset (freedict (dput (dict :: nat dictionary) ''COOKIE'' (Some 1)))
     + mset (dput_frees (dict :: nat dictionary) ''COOKIE'' (Some 1)) = {#1#}"
  using dput_ownership [OF dict_ok_dict, of "''COOKIE''" "1::nat"]
  by (simp add: freedict_items dict_def del: mset_append)

end
