(* ===== verification/Bst.thy ===== *)
theory Bst
  imports Stores
begin

text \<open>
  The binary search tree of \<open>lib/bst.c\<close>, which holds the scheduler's pending tasks and its
  poll list.  \<open>BNull\<close> is the NULL pointer and \<open>BNode\<close> a \<open>bst_node_t\<close> with its fields in
  the order of the struct; data is \<open>None\<close> where \<open>data\<close> is NULL.  A function that returns a
  node pointer returns the subtree it points to.  Every callback of the sources reads only
  \<open>key\<close> and \<open>data\<close> of the node it is given, so a callback takes these two and the
  state it works on.

  The scheduler relies on the laws of the locale \<open>ordered_store\<close>, which is interpreted on the
  tree below.
\<close>

section \<open>Data and operations\<close>

datatype 'a bst = BNull | BNode int "'a option" "'a bst" "'a bst"

text \<open>\<open>bst_free_cb\<close>: the recursive calls go through the macro \<open>bst_free\<close>, which passes a NULL
  callback.\<close>

fun bst_free_cb :: "'a bst \<Rightarrow> ('a \<Rightarrow> 's \<Rightarrow> 's) option \<Rightarrow> 's \<Rightarrow> 's" where
  "bst_free_cb BNull cb s = s"
| "bst_free_cb (BNode k d l r) cb s =
     (let s1 = bst_free_cb l None s; s2 = bst_free_cb r None s1
      in case (d, cb) of (Some x, Some f) \<Rightarrow> f x s2 | _ \<Rightarrow> s2)"

fun bst_insert :: "'a bst \<Rightarrow> int \<Rightarrow> 'a option \<Rightarrow> 'a bst" where
  "bst_insert BNull key d = BNode key d BNull BNull"
| "bst_insert (BNode k d0 l r) key d =
     (if key < k then BNode k d0 (bst_insert l key d) r
      else if key > k then BNode k d0 l (bst_insert r key d)
      else BNode k d l r)"

fun bst_find_min :: "'a bst \<Rightarrow> 'a bst" where
  "bst_find_min BNull = BNull"
| "bst_find_min (BNode k d l r) = (if l = BNull then BNode k d l r else bst_find_min l)"

fun bst_find_max :: "'a bst \<Rightarrow> 'a bst" where
  "bst_find_max BNull = BNull"
| "bst_find_max (BNode k d l r) = (if r = BNull then BNode k d l r else bst_find_max r)"

fun bst_find :: "'a bst \<Rightarrow> int \<Rightarrow> 'a bst" where
  "bst_find BNull x = BNull"
| "bst_find (BNode k d l r) x =
     (if x < k then bst_find l x else if x > k then bst_find r x else BNode k d l r)"

fun bst_delete :: "'a bst \<Rightarrow> int \<Rightarrow> 'a bst" where
  "bst_delete BNull x = BNull"
| "bst_delete (BNode k d l r) x =
     (if x < k then BNode k d (bst_delete l x) r
      else if x > k then BNode k d l (bst_delete r x)
      else if l \<noteq> BNull \<and> r \<noteq> BNull then
        (case bst_find_min r of
           BNode k' d' _ _ \<Rightarrow> BNode k' d' l (bst_delete r k')
         | BNull \<Rightarrow> BNull)
      else if l = BNull then r else l)"

fun bst_for_each :: "'a bst \<Rightarrow> (int \<Rightarrow> 'a option \<Rightarrow> 's \<Rightarrow> 's) \<Rightarrow> 's \<Rightarrow> 's" where
  "bst_for_each BNull cb s = s"
| "bst_for_each (BNode k d l r) cb s =
     bst_for_each r cb (cb k d (bst_for_each l cb s))"

section \<open>Abstraction and invariant\<close>

fun bst_inorder :: "'a bst \<Rightarrow> (int \<times> 'a option) list" where
  "bst_inorder BNull = []"
| "bst_inorder (BNode k d l r) = bst_inorder l @ (k, d) # bst_inorder r"

definition bst_keys :: "'a bst \<Rightarrow> int set" where
  "bst_keys t = fst ` set (bst_inorder t)"

fun bst_ok :: "'a bst \<Rightarrow> bool" where
  "bst_ok BNull = True"
| "bst_ok (BNode k d l r) =
     (bst_ok l \<and> bst_ok r \<and> (\<forall>x \<in> bst_keys l. x < k) \<and> (\<forall>x \<in> bst_keys r. k < x))"

definition bst_abs :: "'a bst \<Rightarrow> int \<rightharpoonup> 'a option" where
  "bst_abs t x = (case bst_find t x of BNull \<Rightarrow> None | BNode k d l r \<Rightarrow> Some d)"

section \<open>Lemmas\<close>

lemma bst_keys_simps [simp]:
  "bst_keys BNull = {}"
  "bst_keys (BNode k d l r) = insert k (bst_keys l \<union> bst_keys r)"
  by (auto simp: bst_keys_def)

lemma finite_bst_keys [simp]: "finite (bst_keys t)"
  by (simp add: bst_keys_def)

lemma bst_abs_simps [simp]:
  "bst_abs BNull x = None"
  "bst_abs (BNode k d l r) x =
     (if x < k then bst_abs l x else if x > k then bst_abs r x else Some d)"
  by (simp_all add: bst_abs_def)

lemma bst_find_abs: "bst_find t x = BNull \<longleftrightarrow> bst_abs t x = None"
  by (auto simp: bst_abs_def split: bst.splits)

lemma bst_abs_keys: "bst_ok t \<Longrightarrow> bst_abs t x = None \<longleftrightarrow> x \<notin> bst_keys t"
  by (induction t) auto

lemma dom_bst_abs: "bst_ok t \<Longrightarrow> dom (bst_abs t) = bst_keys t"
  by (rule set_eqI) (metis bst_abs_keys domIff)

lemma bst_insert_keys [simp]: "bst_keys (bst_insert t k d) = insert k (bst_keys t)"
  by (induction t) auto

lemma bst_ok_insert: "bst_ok t \<Longrightarrow> bst_ok (bst_insert t k d)"
  by (induction t) auto

lemma bst_abs_insert: "bst_abs (bst_insert t k d) = (bst_abs t)(k \<mapsto> d)"
  by (induction t) (auto simp: fun_eq_iff)

lemma bst_find_min_node:
  "t \<noteq> BNull \<Longrightarrow> bst_ok t \<Longrightarrow>
   \<exists>k d l r. bst_find_min t = BNode k d l r \<and> bst_abs t k = Some d \<and> k \<in> bst_keys t \<and>
     (\<forall>x \<in> bst_keys t. k \<le> x)"
proof (induction t)
  case (BNode k d l r)
  show ?case
  proof (cases "l = BNull")
    case False
    with BNode obtain k' d' l' r' where
      "bst_find_min l = BNode k' d' l' r'" "bst_abs l k' = Some d'" "k' \<in> bst_keys l"
      "\<forall>x \<in> bst_keys l. k' \<le> x" by auto
    moreover from this BNode.prems have "k' < k" by auto
    ultimately show ?thesis using BNode.prems False by force
  qed (use BNode.prems in auto)
qed simp

lemma bst_delete_ok_abs:
  "bst_ok t \<Longrightarrow>
   bst_ok (bst_delete t x) \<and> bst_keys (bst_delete t x) = bst_keys t - {x} \<and>
   bst_abs (bst_delete t x) = (bst_abs t)(x := None)"
proof (induction t arbitrary: x)
  case (BNode k d l r)
  note ok = BNode.prems
  consider "x < k" | "x > k" | "x = k" "l \<noteq> BNull" "r \<noteq> BNull" | "x = k" "l = BNull \<or> r = BNull"
    by fastforce
  then show ?case
  proof cases
    case 1
    then show ?thesis using BNode.IH(1) [of x] ok by (auto simp: fun_eq_iff)
  next
    case 2
    then show ?thesis using BNode.IH(2) [of x] ok by (auto simp: fun_eq_iff)
  next
    case 3
    obtain k' d' l' r' where m: "bst_find_min r = BNode k' d' l' r'" "bst_abs r k' = Some d'"
      "k' \<in> bst_keys r" "\<forall>y \<in> bst_keys r. k' \<le> y"
      using bst_find_min_node [OF 3(3)] ok by auto
    have del: "bst_delete (BNode k d l r) x = BNode k' d' l (bst_delete r k')"
      using 3 m(1) by simp
    have IH: "bst_ok (bst_delete r k')" "bst_keys (bst_delete r k') = bst_keys r - {k'}"
      "bst_abs (bst_delete r k') = (bst_abs r)(k' := None)"
      using BNode.IH(2) [of k'] ok by auto
    have kk: "k < k'" using ok m(3) by auto
    have l: "bst_abs l y = None" if "y \<ge> k" for y
      using that ok by (subst bst_abs_keys) auto
    have r: "bst_abs r y = None" if "y < k'" for y
      using that ok m(4) by (subst bst_abs_keys) force+
    have "bst_ok (BNode k' d' l (bst_delete r k'))"
      using ok IH m(4) kk by force
    moreover have "bst_keys (BNode k' d' l (bst_delete r k')) = bst_keys (BNode k d l r) - {x}"
      using 3(1) IH(2) m(3) ok by auto
    moreover have "bst_abs (BNode k' d' l (bst_delete r k')) y
        = ((bst_abs (BNode k d l r))(x := None)) y" for y
      using 3(1) kk l [of y] r [of y] m(2) IH(3) by (cases "y < k'"; cases "y = k'") auto
    ultimately show ?thesis unfolding del by blast
  next
    case 4
    have "bst_abs l y = None" if "y \<ge> k" for y
      using that ok by (subst bst_abs_keys) auto
    moreover have "bst_abs r y = None" if "y \<le> k" for y
      using that ok by (subst bst_abs_keys) auto
    ultimately show ?thesis using 4 ok by (auto simp: fun_eq_iff)
  qed
qed (simp add: fun_eq_iff)

lemma bst_for_each_fold:
  "bst_for_each t cb s = fold (\<lambda>(k, d). cb k d) (bst_inorder t) s"
  by (induction t arbitrary: s) auto

lemma bst_inorder_abs: "bst_ok t \<Longrightarrow> (k, d) \<in> set (bst_inorder t) \<longleftrightarrow> bst_abs t k = Some d"
proof (induction t)
  case (BNode k' d' l r)
  have "bst_abs l y = None" if "y \<ge> k'" for y
    using that BNode.prems by (subst bst_abs_keys) auto
  moreover have "bst_abs r y = None" if "y \<le> k'" for y
    using that BNode.prems by (subst bst_abs_keys) auto
  ultimately show ?case using BNode by (auto simp: not_less)
qed simp

lemma bst_inorder_sorted: "bst_ok t \<Longrightarrow> sorted_wrt (<) (map fst (bst_inorder t))"
  by (induction t) (auto simp: sorted_wrt_append bst_keys_def dest: less_trans)

lemma bst_find_min_abs: "bst_find_min t = BNull \<longleftrightarrow> t = BNull"
  by (induction t) auto

lemma bst_abs_empty_iff: "bst_ok t \<Longrightarrow> bst_abs t = Map.empty \<longleftrightarrow> t = BNull"
  by (cases t) (auto simp: fun_eq_iff)

lemma bst_inorder_map_of: "bst_ok t \<Longrightarrow> map_of (bst_inorder t) = bst_abs t"
proof
  fix x
  assume ok: "bst_ok t"
  have "distinct (map fst (bst_inorder t))"
    using bst_inorder_sorted [OF ok] by (simp add: strict_sorted_iff)
  then have "map_of (bst_inorder t) x = Some d \<longleftrightarrow> bst_abs t x = Some d" for d
    by (simp add: bst_inorder_abs [OF ok] map_of_eq_Some_iff)
  then show "map_of (bst_inorder t) x = bst_abs t x" by (metis not_None_eq)
qed

interpretation tree: ordered_store
  bst_ok bst_abs bst_insert bst_delete bst_inorder
  by unfold_locales
    (auto simp: bst_ok_insert bst_abs_insert bst_delete_ok_abs bst_inorder_map_of
      bst_inorder_sorted strict_sorted_iff dest: bst_inorder_sorted)

lemmas bst_laws =
  tree.ok_put tree.ok_del tree.lookup_put tree.lookup_del bst_find_abs

section \<open>Properties\<close>

text \<open>C28. On a search tree, \<open>bst_insert\<close> and \<open>bst_delete\<close> keep the search order and act on the
  finite map the tree stands for as map update and deletion; \<open>bst_find\<close> finds a node exactly
  when the key is in the map, and the node carries that key and its data.\<close>

theorem bst_refines_map:
  assumes "bst_ok t"
  shows "bst_ok (bst_insert t k d) \<and> bst_abs (bst_insert t k d) = (bst_abs t)(k \<mapsto> d) \<and>
    bst_ok (bst_delete t k) \<and> bst_abs (bst_delete t k) = (bst_abs t)(k := None) \<and>
    (bst_find t k = BNull \<longleftrightarrow> k \<notin> dom (bst_abs t)) \<and>
    (\<forall>k' d' l r. bst_find t k = BNode k' d' l r \<longrightarrow> k' = k \<and> bst_abs t k = Some d')"
proof -
  have "bst_find t k = BNode k' d' l r \<Longrightarrow> k' = k \<and> bst_abs t k = Some d'" for k' d' l r
    by (induction t) (auto split: if_splits)
  then show ?thesis
    using assms by (simp add: bst_laws domIff)
qed

theorem bst_refines_map_witness:
  "bst_abs (bst_delete (BNode 5 (Some ''a'') (BNode 3 None BNull BNull) BNull) 5)
     = (bst_abs (BNode 5 (Some ''a'') (BNode 3 None BNull BNull) BNull))(5 := None) \<and>
   bst_delete (BNode 5 (Some ''a'') (BNode 3 None BNull BNull) BNull) 5 = BNode 3 None BNull BNull"
proof -
  have ok: "bst_ok (BNode 5 (Some ''a'') (BNode 3 None BNull BNull) BNull)" by simp
  show ?thesis
    by (intro conjI conjunct1 [OF conjunct2 [OF conjunct2 [OF conjunct2 [OF bst_refines_map [OF ok]]]]])
      simp
qed

text \<open>\<open>bst_for_each\<close> calls its callback once per key, in ascending key order, with the data
  stored for the key.\<close>

lemma bst_for_each_ascending:
  assumes "bst_ok t"
  shows "\<exists>kds. bst_for_each t cb s = fold (\<lambda>(k, d). cb k d) kds s \<and>
    sorted_wrt (<) (map fst kds) \<and> set kds = {(k, d). bst_abs t k = Some d}"
  using bst_for_each_fold [of t cb s] tree.entries_sorted [OF assms] bst_inorder_abs [OF assms]
  by (intro exI [of _ "bst_inorder t"]) auto

text \<open>\<open>bst_free_cb\<close> calls the destructor on the data of the root only: its recursive calls
  pass no callback, so nothing is destroyed but the root's data, whatever the subtrees hold.
  \<open>antd_scheduler_destroy\<close>, which uses it to destroy the pending tasks, therefore releases
  one of them.\<close>

lemma bst_free_cb_root_only:
  "bst_free_cb (BNode k d l r) (Some (\<lambda>x xs. xs @ [x])) [] = (case d of None \<Rightarrow> [] | Some x \<Rightarrow> [x])"
proof -
  have none: "bst_free_cb t None s = s" for t :: "'a bst" and s :: "'a list"
    by (induction t arbitrary: s) (auto split: option.splits)
  then show ?thesis by (simp add: Let_def split: option.splits)
qed

end
