(* ===== verification/UrlCodec.thy ===== *)
theory UrlCodec
  imports Prelude
begin

text \<open>
  URL percent-encoding of \<open>lib/utils.c\<close>: \<open>from_hex\<close>, \<open>to_hex\<close>, \<open>url_decode\<close>,
  \<open>url_encode\<close>.  The lemmas show that decoding inverts encoding on every C string, that the
  buffers both functions allocate are large enough, and which characters an encoded string
  can hold.
\<close>

section \<open>Operations\<close>

text \<open>\<open>from_hex\<close> returns a \<open>char\<close>, so its arithmetic is kept modulo 256.\<close>

definition from_hex :: "char \<Rightarrow> u8" where
  "from_hex ch = (if c_isdigit ch then byte_of ch - 48 else byte_of (c_tolower ch) - 97 + 10)"

definition hex_table :: "char list" where
  "hex_table = ''0123456789abcdef''"

definition to_hex :: "u8 \<Rightarrow> char" where
  "to_hex code = hex_table ! unat (code AND 15)"

text \<open>The characters \<open>url_decode\<close> writes to its buffer before the terminator.  A \<open>%\<close> that two
  characters do not follow is dropped.\<close>

fun url_decode_buf :: "cstring \<Rightarrow> string" where
  "url_decode_buf [] = []"
| "url_decode_buf (c # cs) =
     (if c = CHR ''%'' then
        (case cs of
           a # b # rest \<Rightarrow>
             char_of_byte (push_bit 4 (from_hex a) OR from_hex b) # url_decode_buf rest
         | _ \<Rightarrow> url_decode_buf cs)
      else if c = CHR ''+'' then SP # url_decode_buf cs
      else c # url_decode_buf cs)"

definition url_decode :: "cstring option \<Rightarrow> cstring option" where
  "url_decode str = (case str of None \<Rightarrow> None | Some s \<Rightarrow> Some (cstr (url_decode_buf s)))"

definition url_plain :: "char \<Rightarrow> bool" where
  "url_plain c \<longleftrightarrow> c_isalnum c \<or> c = CHR ''-'' \<or> c = CHR ''_'' \<or> c = CHR ''.'' \<or> c = CHR ''~''"

fun url_encode :: "cstring \<Rightarrow> cstring" where
  "url_encode [] = []"
| "url_encode (c # cs) =
     (if url_plain c then c # url_encode cs
      else if c = SP then CHR ''+'' # url_encode cs
      else CHR ''%'' # to_hex (signed_drop_bit 4 (byte_of c)) # to_hex (byte_of c AND 15)
             # url_encode cs)"

section \<open>Lemmas\<close>

lemma is_cstr_Nil [simp]: "is_cstr []"
  by (simp add: is_cstr_def)

lemma is_cstr_Cons [simp]: "is_cstr (c # s) \<longleftrightarrow> c \<noteq> NUL \<and> is_cstr s"
  by (auto simp: is_cstr_def)

lemma cstr_id: "is_cstr s \<Longrightarrow> cstr s = s"
  by (induction s) (auto simp: cstr_def is_cstr_def)

lemma is_cstr_cstr [simp]: "is_cstr (cstr s)"
  by (induction s) (auto simp: cstr_def is_cstr_def)

lemma cstr_length: "length (cstr s) \<le> length s"
  by (simp add: cstr_def length_takeWhile_le)

lemma nibble_cases:
  assumes "n < 16"
  shows "n \<in> {0, 1, 2, 3, 4, 5, 6, 7, 8, 9, 10, 11, 12, 13, 14, 15 :: nat}"
  using assms unfolding insert_iff empty_iff by presburger

lemma and_15: "b AND 15 = take_bit 4 (b :: u8)"
  by (simp add: take_bit_eq_mask mask_eq_exp_minus_1)

lemma u8_and_15: "unat (b AND 15 :: u8) = unat b mod 16"
  unfolding and_15 by (simp only: unsigned_take_bit_eq) (simp add: take_bit_eq_mod)

lemma from_hex_nibble:
  assumes "n < 16"
  shows "from_hex (hex_table ! n) = of_nat n"
  using nibble_cases [OF assms]
  by (auto simp: hex_table_def from_hex_def c_isdigit_def c_tolower_def c_isupper_def byte_of_def
      code_of_def)

lemma from_hex_to_hex: "from_hex (to_hex b) = b AND 15"
proof -
  have "unat (b AND 15) < 16" by (simp add: u8_and_15)
  then show ?thesis by (simp add: to_hex_def from_hex_nibble)
qed

lemma nibbles_join: "push_bit 4 (signed_drop_bit 4 b AND 15) OR (b AND 15) = (b::u8)"
  unfolding and_15 by (rule bit_word_eqI) (auto simp: bit_simps)

lemma url_decode_buf_encode: "url_decode_buf (url_encode s) = s"
proof (induction s)
  case (Cons c s)
  have "char_of_byte (push_bit 4 (from_hex (to_hex (signed_drop_bit 4 (byte_of c))))
      OR from_hex (to_hex (byte_of c AND 15))) = c"
    by (simp only: from_hex_to_hex and.assoc and.idem nibbles_join char_of_byte_of)
  moreover have "url_plain c \<Longrightarrow> c \<noteq> CHR ''%'' \<and> c \<noteq> CHR ''+''"
    by (auto simp: url_plain_def ctype_defs code_of_def)
  ultimately show ?case using Cons.IH by auto
qed simp

lemma url_plain_to_hex: "url_plain (to_hex b)"
proof -
  have "unat (b AND 15) < 16" by (simp add: u8_and_15)
  from nibble_cases [OF this] show ?thesis
    by (auto simp: to_hex_def hex_table_def url_plain_def ctype_defs code_of_def)
qed

definition url_safe :: "char \<Rightarrow> bool" where
  "url_safe c \<longleftrightarrow> url_plain c \<or> c = CHR ''%'' \<or> c = CHR ''+''"

lemma url_encode_safe: "c \<in> set (url_encode s) \<Longrightarrow> url_safe c"
  by (induction s) (auto simp: url_safe_def intro: url_plain_to_hex split: if_splits)

lemma url_encode_length: "length (url_encode s) \<le> 3 * length s"
  by (induction s) auto

lemma url_decode_buf_length: "length (url_decode_buf s) \<le> length s"
proof (induction "length s" arbitrary: s rule: less_induct)
  case less
  consider "s = []" | c where "s = [c]" | c a where "s = [c, a]" | c a b r where "s = c # a # b # r"
    by (metis neq_Nil_conv)
  then show ?case
  proof cases
    case (4 c a b r)
    then have "length (url_decode_buf r) \<le> length r"
      "length (url_decode_buf (a # b # r)) \<le> length (a # b # r)"
      using less [of r] less [of "a # b # r"] by (simp_all del: url_decode_buf.simps)
    then show ?thesis
      unfolding 4 url_decode_buf.simps(2) [of c "a # b # r"] list.case
      by (auto simp del: url_decode_buf.simps)
  qed auto
qed

lemma is_cstr_url_encode: "is_cstr (url_encode s)"
proof -
  have "\<not> url_safe NUL" by (simp add: url_safe_def url_plain_def ctype_defs code_of_def)
  then show ?thesis using url_encode_safe [of NUL s] by (auto simp: is_cstr_def)
qed

lemma url_decode_plain: "(\<forall>c \<in> set s. c \<noteq> CHR ''%'' \<and> c \<noteq> CHR ''+'') \<Longrightarrow> url_decode_buf s = s"
  by (induction s) auto

section \<open>Properties\<close>

text \<open>C33. Decoding a percent-encoded C string gives back the string, for every byte value it can
  hold, although \<open>url_encode\<close> shifts signed characters.\<close>

theorem url_roundtrip:
  assumes "is_cstr s"
  shows "url_decode (Some (url_encode s)) = Some s"
  using assms by (simp add: url_decode_def url_decode_buf_encode cstr_id)

theorem url_roundtrip_witness:
  "url_decode (Some (url_encode [CHR ''a'', CHR ''/'', CHR 0xE9])) = Some [CHR ''a'', CHR ''/'', CHR 0xE9]"
  by (rule url_roundtrip) simp

text \<open>The buffers fit: \<open>url_encode\<close> writes at most the \<open>3 * strlen + 1\<close> bytes it
  allocates, \<open>url_decode\<close> at most \<open>strlen + 1\<close>, terminators included; and an encoded
  string consists of unreserved characters, \<open>%\<close> and \<open>+\<close> only, so it contains none of the
  separators of a URL or a query string.\<close>

lemma url_buffers_fit:
  "length (url_encode s @ [NUL]) \<le> 3 * length s + 1 \<and>
   length (url_decode_buf s @ [NUL]) \<le> length s + 1 \<and>
   set (url_encode s) \<inter> set ''/?&=;:# '' = {} \<and> is_cstr (url_encode s)"
proof -
  have "\<not> url_safe c" if "c \<in> set ''/?&=;:# ''" for c
    using that by (auto simp: url_safe_def url_plain_def ctype_defs code_of_def)
  then have "set (url_encode s) \<inter> set ''/?&=;:# '' = {}"
    using url_encode_safe [of _ s] by blast
  then show ?thesis
    using url_encode_length [of s] url_decode_buf_length [of s] is_cstr_url_encode [of s] by simp
qed

end
