(* ===== verification/ClientIo.thy ===== *)
theory ClientIo
  imports Stores
begin

text \<open>
  The socket layer of \<open>lib/handle.c\<close>: \<open>antd_recv\<close>, \<open>antd_recv_upto\<close>, \<open>antd_send\<close>,
  \<open>read_buf\<close>, \<open>__b\<close>, \<open>__t\<close> and \<open>__f\<close>, on a plain socket and on a TLS one, for a
  build without zlib.

  The operating system is a script.  \<open>rx\<close> lists what the coming calls of \<open>recv\<close> (or
  \<open>SSL_read\<close>) find, \<open>tx\<close> what the coming calls of \<open>send\<close> (or \<open>SSL_write\<close>) do, each with
  the seconds that pass before the call returns; \<open>clock\<close> is \<open>time(NULL)\<close>.  A chunk of data
  larger than the caller's buffer stays in the script for the next call, so every way the
  kernel can cut a stream into pieces is a script.  After the end of \<open>rx\<close> every read fails
  with a hard error; after the end of \<open>tx\<close> the socket accepts everything at once.  An
  orderly close reads as 0 and leaves \<open>errno\<close> as it was, which is why \<open>errno_again\<close>
  (\<open>errno\<close> is \<open>EAGAIN\<close> or \<open>EWOULDBLOCK\<close>) is part of the state.
\<close>

section \<open>State\<close>

datatype compress = ANTD_CGZ | ANTD_CDEFL | ANTD_CNONE

text \<open>\<open>SSL_get_error\<close>; the flag of the \<open>WANT\<close> cases says that the poll that follows timed out
  or found the socket ready, so that the call is tried again.\<close>

datatype tls_err = TLS_NONE | TLS_ZERO_RETURN | TLS_WANT_READ bool | TLS_WANT_WRITE bool | TLS_OTHER

datatype rx_ev = RxData u8 "u8 list" | RxClosed | RxErr bool | RxTls int tls_err

datatype tx_ev = TxTake nat | TxZero | TxErr bool | TxTls int tls_err

record client =
  sock :: int
  ssl :: bool
  state :: nat
  last_io :: int
  z_level :: compress
  clock :: int
  errno_again :: bool
  rx :: "(nat \<times> rx_ev) list"
  tx :: "(nat \<times> tx_ev) list"
  sent :: "u8 list"

definition BUFFLEN :: nat where "BUFFLEN = 1024"
definition MAX_IO_WAIT_TIME :: int where "MAX_IO_WAIT_TIME = 5"

text \<open>\<open>difftime(time(NULL), source->last_io) > MAX_IO_WAIT_TIME\<close>\<close>

definition timed_out :: "client \<Rightarrow> bool" where
  "timed_out c \<longleftrightarrow> clock c - last_io c > MAX_IO_WAIT_TIME"

section \<open>One call of the operating system\<close>

text \<open>
  One turn of a transfer loop: bytes moved, or the value \<open>received\<close> (\<open>count\<close>) had when the
  loop breaks, or another turn.
\<close>

datatype 'a io_res = IoMoved 'a | IoStop int | IoRetry

text \<open>The \<open>switch\<close> on \<open>SSL_get_error\<close>: another turn or a break.\<close>

definition tls_switch :: "client \<Rightarrow> int \<Rightarrow> tls_err \<Rightarrow> 'a io_res" where
  "tls_switch c ret err =
     (if timed_out c then IoStop ret
      else case err of
        TLS_NONE \<Rightarrow> IoRetry
      | TLS_ZERO_RETURN \<Rightarrow> IoStop ret
      | TLS_WANT_READ go \<Rightarrow> if go then IoRetry else IoStop ret
      | TLS_WANT_WRITE go \<Rightarrow> if go then IoRetry else IoStop ret
      | TLS_OTHER \<Rightarrow> IoStop ret)"

text \<open>The \<open>else if\<close> of the plain branch of \<open>antd_recv\<close>, for any result that is not positive.\<close>

definition plain_recv_fail :: "client \<Rightarrow> int \<Rightarrow> 'a io_res" where
  "plain_recv_fail c ret = (if timed_out c \<or> \<not> errno_again c then IoStop ret else IoRetry)"

text \<open>The \<open>else if\<close> of the plain branch of \<open>antd_send\<close>.\<close>

definition plain_send_fail :: "client \<Rightarrow> int \<Rightarrow> 'a io_res" where
  "plain_send_fail c ret =
     (if timed_out c \<or> ret = -1 \<and> \<not> errno_again c then IoStop ret else IoRetry)"

definition tick :: "nat \<Rightarrow> client \<Rightarrow> client" where
  "tick d c = c\<lparr>clock := clock c + int d\<rparr>"

text \<open>What a failing event returns: the result and the TLS error, after \<open>errno\<close> is set.\<close>

definition rx_fail :: "rx_ev \<Rightarrow> client \<Rightarrow> int \<times> tls_err \<times> client" where
  "rx_fail ev c =
     (case ev of
        RxData b bs \<Rightarrow> (0, TLS_OTHER, c)
      | RxClosed \<Rightarrow> (0, TLS_ZERO_RETURN, c)
      | RxErr again \<Rightarrow> (-1, TLS_OTHER, c\<lparr>errno_again := again\<rparr>)
      | RxTls r e \<Rightarrow> (if ssl c then (min r 0, e, c) else (-1, e, c\<lparr>errno_again := False\<rparr>)))"

text \<open>\<open>recv\<close> or \<open>SSL_read\<close> of up to \<open>n\<close> bytes with the bookkeeping of one loop turn.\<close>

definition sys_read :: "nat \<Rightarrow> client \<Rightarrow> u8 list io_res \<times> client" where
  "sys_read n c =
     (case rx c of
        [] \<Rightarrow> (IoStop (-1), c)
      | (d, RxData b bs) # rest \<Rightarrow>
          let c1 = tick d c; got = take n (b # bs) in
          (IoMoved got,
           c1\<lparr>rx := (case drop n (b # bs) of [] \<Rightarrow> rest | b' # bs' \<Rightarrow> (0, RxData b' bs') # rest),
              last_io := clock c1\<rparr>)
      | (d, ev) # rest \<Rightarrow>
          let (ret, err, c1) = rx_fail ev ((tick d c)\<lparr>rx := rest\<rparr>)
          in (if ssl c1 then tls_switch c1 ret err else plain_recv_fail c1 ret, c1))"

definition tx_fail :: "tx_ev \<Rightarrow> client \<Rightarrow> int \<times> tls_err \<times> client" where
  "tx_fail ev c =
     (case ev of
        TxTake n \<Rightarrow> (0, TLS_OTHER, c)
      | TxZero \<Rightarrow> (0, TLS_ZERO_RETURN, c)
      | TxErr again \<Rightarrow> (-1, TLS_OTHER, c\<lparr>errno_again := again\<rparr>)
      | TxTls r e \<Rightarrow> (if ssl c then (min r 0, e, c) else (-1, e, c\<lparr>errno_again := False\<rparr>)))"

text \<open>\<open>send\<close> or \<open>SSL_write\<close> of the given bytes: how many were taken.  \<open>TxTake n\<close> takes at
  most \<open>n + 1\<close> bytes.\<close>

definition sys_write :: "u8 list \<Rightarrow> client \<Rightarrow> nat io_res \<times> client" where
  "sys_write data c =
     (case tx c of
        [] \<Rightarrow> (IoMoved (length data), c\<lparr>sent := sent c @ data, last_io := clock c\<rparr>)
      | (d, TxTake n) # rest \<Rightarrow>
          let c1 = (tick d c)\<lparr>tx := rest\<rparr>; k = min (Suc n) (length data) in
          (IoMoved k, c1\<lparr>sent := sent c1 @ take k data, last_io := clock c1\<rparr>)
      | (d, ev) # rest \<Rightarrow>
          let (ret, err, c1) = tx_fail ev ((tick d c)\<lparr>tx := rest\<rparr>)
          in (if ssl c1 then tls_switch c1 ret err else plain_send_fail c1 ret, c1))"

lemma sys_read_moved:
  assumes "sys_read n c = (IoMoved got, c')" "0 < n"
  shows "got \<noteq> []" "length got \<le> n" "length (rx c') \<le> length (rx c)"
  using assms
  by (auto simp: sys_read_def rx_fail_def tls_switch_def plain_recv_fail_def tick_def Let_def
      split: list.splits prod.splits rx_ev.splits if_splits tls_err.splits)

lemma sys_read_retry:
  assumes "sys_read n c = (IoRetry, c')"
  shows "length (rx c') < length (rx c)"
  using assms
  by (auto simp: sys_read_def rx_fail_def tick_def Let_def
      split: list.splits prod.splits rx_ev.splits if_splits)

lemma sys_write_moved:
  assumes "sys_write data c = (IoMoved k, c')" "data \<noteq> []"
  shows "0 < k" "k \<le> length data"
  using assms
  by (auto simp: sys_write_def tx_fail_def tls_switch_def plain_send_fail_def tick_def Let_def
      split: list.splits prod.splits tx_ev.splits if_splits tls_err.splits)

lemma sys_write_retry:
  assumes "sys_write data c = (IoRetry, c')"
  shows "length (tx c') < length (tx c)"
  using assms
  by (auto simp: sys_write_def tx_fail_def tick_def Let_def
      split: list.splits prod.splits tx_ev.splits if_splits)

section \<open>\<open>antd_recv\<close>, \<open>antd_recv_upto\<close>, \<open>antd_send\<close>\<close>

text \<open>The next transfer size: \<open>(len - done) > BUFFLEN ? BUFFLEN : (len - done)\<close>.\<close>

definition io_chunk :: "int \<Rightarrow> nat \<Rightarrow> int" where
  "io_chunk len done = (if len - int done > int BUFFLEN then int BUFFLEN else len - int done)"

lemma io_chunk_le: "nat (io_chunk len done) \<le> nat len - done"
  unfolding io_chunk_def by (split if_split) linarith

text \<open>The loop of \<open>antd_recv\<close>, which plain and TLS sockets share up to \<open>sys_read\<close>; \<open>acc\<close>
  holds the bytes read so far.  It returns \<open>read\<close>, the bytes and the socket.\<close>

function recv_loop :: "int \<Rightarrow> u8 list \<Rightarrow> client \<Rightarrow> int \<times> u8 list \<times> client" where
  "recv_loop len acc c =
     (let readlen = io_chunk len (length acc) in
      if readlen > 0 then
        (case sys_read (nat readlen) c of
           (IoMoved got, c1) \<Rightarrow> recv_loop len (acc @ got) c1
         | (IoStop received, c1) \<Rightarrow> (if acc = [] then received else int (length acc), acc, c1)
         | (IoRetry, c1) \<Rightarrow> recv_loop len acc c1)
      else (int (length acc), acc, c))"
  by pat_completeness auto
termination
proof (relation "measure (\<lambda>(len, acc, c). nat (len - int (length acc)) + length (rx c))", goal_cases)
  case (2 len acc c readlen x c1 got)
  then have n: "0 < nat readlen" "sys_read (nat readlen) c = (IoMoved got, c1)" by auto
  have "0 < len - int (length acc)" using 2 by (auto simp: io_chunk_def split: if_splits)
  moreover obtain b bs where "got = b # bs"
    using sys_read_moved(1) [OF n(2,1)] by (cases got) auto
  moreover have "length (rx c1) \<le> length (rx c)" by (rule sys_read_moved(3) [OF n(2,1)])
  ultimately show ?case by simp
next
  case (3 len acc c readlen x c1)
  then have "length (rx c1) < length (rx c)" using sys_read_retry by auto
  then show ?case by simp
qed simp

declare recv_loop.simps [simp del]

definition antd_recv :: "client \<Rightarrow> int \<Rightarrow> int \<times> u8 list \<times> client" where
  "antd_recv c len = recv_loop len [] c"

text \<open>\<open>antd_recv_upto\<close>: one call.  A retry is reported as 0, any other failure and an orderly
  close as -1.\<close>

definition antd_recv_upto :: "client \<Rightarrow> nat \<Rightarrow> int \<times> u8 list \<times> client" where
  "antd_recv_upto c len =
     (case rx c of
        [] \<Rightarrow> (-1, [], c)
      | (d, RxData b bs) # rest \<Rightarrow>
          (case sys_read len c of
             (IoMoved got, c1) \<Rightarrow> (int (length got), got, c1)
           | (_, c1) \<Rightarrow> (-1, [], c1))
      | (d, ev) # rest \<Rightarrow>
          let (ret, err, c1) = rx_fail ev ((tick d c)\<lparr>rx := rest\<rparr>) in
          if ssl c1 then
            (case err of
               TLS_NONE \<Rightarrow> 0
             | TLS_ZERO_RETURN \<Rightarrow> -1
             | TLS_WANT_READ _ \<Rightarrow> 0
             | TLS_WANT_WRITE _ \<Rightarrow> 0
             | TLS_OTHER \<Rightarrow> -1, [], c1)
          else (if ret < 0 \<and> errno_again c1 then 0 else -1, [], c1))"

text \<open>The loop of \<open>antd_send\<close>; \<open>written\<close> counts the bytes sent so far.\<close>

function send_loop :: "u8 list \<Rightarrow> nat \<Rightarrow> client \<Rightarrow> int \<times> client" where
  "send_loop data written c =
     (let writelen = io_chunk (int (length data)) written in
      if writelen > 0 then
        (case sys_write (take (nat writelen) (drop written data)) c of
           (IoMoved k, c1) \<Rightarrow> send_loop data (written + k) c1
         | (IoStop count, c1) \<Rightarrow> (if written = 0 then count else int written, c1)
         | (IoRetry, c1) \<Rightarrow> send_loop data written c1)
      else (int written, c))"
  by pat_completeness auto
termination
proof (relation "measures [\<lambda>(data, written, c). length data - written, \<lambda>(data, written, c). length (tx c)]",
    goal_cases)
  case (2 data written c writelen x c1 k)
  then have w: "writelen > 0" "writelen = io_chunk (int (length data)) written" by auto
  then have less: "written < length data" by (auto simp: io_chunk_def split: if_splits)
  then have "take (nat writelen) (drop written data) \<noteq> []" using w(1) by simp
  moreover have "sys_write (take (nat writelen) (drop written data)) c = (IoMoved k, c1)"
    using 2 by simp
  ultimately have "0 < k" by (rule sys_write_moved(1) [rotated])
  with less have "length data - (written + k) < length data - written" by linarith
  then show ?case by simp
next
  case (3 data written c writelen x c1)
  then have "length (tx c1) < length (tx c)" using sys_write_retry by auto
  then show ?case by simp
qed simp

declare send_loop.simps [simp del]

definition antd_send :: "client \<Rightarrow> u8 list \<Rightarrow> int \<times> client" where
  "antd_send c data = send_loop data 0 c"

section \<open>\<open>__b\<close>, \<open>__t\<close>, \<open>__f\<close> and \<open>read_buf\<close>\<close>

text \<open>\<open>__b\<close>: the data in pieces of \<open>BUFFLEN\<close>; only a result of -1 stops it, a short count does
  not.\<close>

function b_send :: "client \<Rightarrow> u8 list \<Rightarrow> int \<times> client" where
  "b_send c data =
     (if data = [] then (1, c)
      else let (nbytes, c1) = antd_send c (take BUFFLEN data) in
           if nbytes = -1 then (0, c1) else b_send c1 (drop BUFFLEN data))"
  by pat_completeness auto
termination
  by (relation "measure (\<lambda>(c, data). length data)") (auto simp: BUFFLEN_def)

declare b_send.simps [simp del]

text \<open>\<open>__t\<close> on the text its format and arguments give: the text and, if it was sent, a line
  end.\<close>

definition t_send :: "client \<Rightarrow> cstring \<Rightarrow> int \<times> client" where
  "t_send c line =
     (let (st, c1) = b_send c (map byte_of line) in
      if st \<noteq> 0 then (st, snd (b_send c1 (map byte_of CRLF))) else (st, c1))"

text \<open>\<open>__f\<close>, given the contents of the file or \<open>None\<close> when it cannot be opened.  The second
  result says that the descriptor is left open, as on the early return.\<close>

function f_loop :: "client \<Rightarrow> u8 list \<Rightarrow> int \<times> bool \<times> client" where
  "f_loop c data =
     (if data = [] then (1, False, c)
      else let (n, c1) = antd_send c (take BUFFLEN data) in
           if n = -1 then (0, True, c1) else f_loop c1 (drop BUFFLEN data))"
  by pat_completeness auto
termination
  by (relation "measure (\<lambda>(c, data). length data)") (auto simp: BUFFLEN_def)

declare f_loop.simps [simp del]

definition f_send :: "client \<Rightarrow> u8 list option \<Rightarrow> int \<times> bool \<times> client" where
  "f_send c file = (case file of None \<Rightarrow> (0, False, c) | Some data \<Rightarrow> f_loop c data)"

text \<open>\<open>read_buf\<close>: one byte at a time up to a line feed, a full buffer or a failed read, which
  sets \<open>c\<close> to a line feed; the result is the count, the buffer and the socket.\<close>

function read_buf_loop :: "nat \<Rightarrow> char list \<Rightarrow> char \<Rightarrow> client \<Rightarrow> int \<times> char list \<times> client" where
  "read_buf_loop sz buf ch c =
     (if length buf < sz - 1 \<and> ch \<noteq> LF then
        (case antd_recv c 1 of
           (n, bytes, c1) \<Rightarrow>
             if n > 0 then
               let ch' = char_of_byte (hd bytes) in read_buf_loop sz (buf @ [ch']) ch' c1
             else read_buf_loop sz buf LF c1)
      else (int (length buf), buf, c))"
  by pat_completeness auto
termination
  by (relation "measures [\<lambda>(sz, buf, ch, c). sz - length buf,
        \<lambda>(sz, buf, ch, c). if ch = LF then 0 else 1]") auto

declare read_buf_loop.simps [simp del]

definition read_buf :: "client \<Rightarrow> nat \<Rightarrow> int \<times> char list \<times> client" where
  "read_buf c sz = read_buf_loop sz [] NUL c"

section \<open>Receiving loses nothing\<close>

text \<open>The bytes a script still delivers, in order.\<close>

fun rx_stream :: "(nat \<times> rx_ev) list \<Rightarrow> u8 list" where
  "rx_stream [] = []"
| "rx_stream ((d, RxData b bs) # s) = b # bs @ rx_stream s"
| "rx_stream ((d, ev) # s) = rx_stream s"

text \<open>Receiving touches only the reading half of the socket.\<close>

definition rx_frame :: "client \<Rightarrow> client \<Rightarrow> bool" where
  "rx_frame c c' \<longleftrightarrow> sock c' = sock c \<and> ssl c' = ssl c \<and> state c' = state c \<and>
     z_level c' = z_level c \<and> tx c' = tx c \<and> sent c' = sent c"

lemma rx_frame_refl [simp]: "rx_frame c c"
  by (simp add: rx_frame_def)

lemma rx_frame_trans: "rx_frame c c' \<Longrightarrow> rx_frame c' c'' \<Longrightarrow> rx_frame c c''"
  by (simp add: rx_frame_def)

lemmas sys_read_unfold =
  sys_read_def rx_fail_def tls_switch_def plain_recv_fail_def tick_def Let_def

lemma sys_read_frame: "rx_frame c (snd (sys_read n c))"
  by (auto simp: sys_read_unfold rx_frame_def
      split: list.splits prod.splits rx_ev.splits if_splits tls_err.splits)

lemma sys_read_stop: "sys_read n c = (IoStop r, c') \<Longrightarrow> r \<le> 0"
  by (auto simp: sys_read_unfold
      split: list.splits prod.splits rx_ev.splits if_splits tls_err.splits)

lemma sys_read_stream:
  "rx_stream (rx c) = (case fst (sys_read n c) of IoMoved got \<Rightarrow> got | _ \<Rightarrow> []) @
     rx_stream (rx (snd (sys_read n c)))"
proof (cases "rx c")
  case Nil
  then show ?thesis by (simp add: sys_read_def)
next
  case (Cons e rest)
  obtain d ev where e: "e = (d, ev)" by (cases e)
  show ?thesis
  proof (cases ev)
    case (RxData b bs)
    have "b # bs = take n (b # bs) @ drop n (b # bs)" by simp
    then show ?thesis
      using Cons e RxData
      by (cases "drop n (b # bs)") (auto simp: sys_read_def tick_def Let_def simp flip: append_Cons)
  qed (use Cons e in \<open>auto simp: sys_read_unfold split: tls_err.splits if_splits\<close>)
qed

lemma recv_loop_spec:
  assumes "recv_loop len acc c = (r, bs, c')"
  shows "\<exists>got. bs = acc @ got \<and> rx_stream (rx c) = got @ rx_stream (rx c') \<and> rx_frame c c' \<and>
    (r = int (length bs) \<or> r \<le> 0 \<and> bs = [])"
  using assms
proof (induction len acc c rule: recv_loop.induct)
  case (1 len acc c)
  let ?n = "io_chunk len (length acc)"
  show ?case
  proof (cases "?n > 0")
    case False
    with 1(3) show ?thesis by (auto simp: recv_loop.simps [of len acc])
  next
    case True
    obtain res c1 where rd: "sys_read (nat ?n) c = (res, c1)" by (cases "sys_read (nat ?n) c")
    have fr: "rx_frame c c1" using sys_read_frame [of c "nat ?n"] rd by simp
    note st = sys_read_stream [of c "nat ?n", unfolded rd fst_conv snd_conv]
    show ?thesis
    proof (cases res)
      case (IoMoved got)
      with 1(3) True rd have "recv_loop len (acc @ got) c1 = (r, bs, c')"
        by (simp add: recv_loop.simps [of len acc])
      from 1(1) [OF refl True rd [symmetric] IoMoved this] st IoMoved fr show ?thesis
        by (auto intro: rx_frame_trans)
    next
      case (IoStop x)
      with 1(3) True rd st fr sys_read_stop [of "nat ?n" c x c1] show ?thesis
        by (auto simp: recv_loop.simps [of len acc] split: if_splits)
    next
      case IoRetry
      with 1(3) True rd have "recv_loop len acc c1 = (r, bs, c')"
        by (simp add: recv_loop.simps [of len acc])
      from 1(2) [OF refl True rd [symmetric] IoRetry this] st IoRetry fr show ?thesis
        by (auto intro: rx_frame_trans)
    qed
  qed
qed


text \<open>
  A script with which a patient reader gets everything: each failure is one the loop retries
  and the silence between two deliveries stays within \<open>MAX_IO_WAIT_TIME\<close> seconds, of which
  \<open>t\<close> have passed.
\<close>

definition tls_again :: "tls_err \<Rightarrow> bool" where
  "tls_again e \<longleftrightarrow> e \<in> {TLS_NONE, TLS_WANT_READ True, TLS_WANT_WRITE True}"

fun rx_prompt :: "bool \<Rightarrow> int \<Rightarrow> (nat \<times> rx_ev) list \<Rightarrow> bool" where
  "rx_prompt tls t [] = True"
| "rx_prompt tls t ((d, RxData b bs) # s) = rx_prompt tls 0 s"
| "rx_prompt tls t ((d, RxErr again) # s) =
     (again \<and> \<not> tls \<and> t + int d \<le> MAX_IO_WAIT_TIME \<and> rx_prompt tls (t + int d) s)"
| "rx_prompt tls t ((d, RxTls r e) # s) =
     (tls \<and> tls_again e \<and> t + int d \<le> MAX_IO_WAIT_TIME \<and> rx_prompt tls (t + int d) s)"
| "rx_prompt tls t ((d, RxClosed) # s) = False"

definition rx_ready :: "client \<Rightarrow> (nat \<times> rx_ev) list \<Rightarrow> (nat \<times> rx_ev) list \<Rightarrow> bool" where
  "rx_ready c pre post \<longleftrightarrow>
     rx c = pre @ post \<and> rx_prompt (ssl c) (clock c - last_io c) pre"

lemma sys_read_ready:
  assumes "rx_ready c pre post" "rx_stream pre \<noteq> []" "0 < n"
  obtains (moved) got c' pre' where "sys_read n c = (IoMoved got, c')" "rx_ready c' pre' post"
      "rx_stream pre = got @ rx_stream pre'"
  | (retry) c' pre' where "sys_read n c = (IoRetry, c')" "rx_ready c' pre' post"
      "rx_stream pre' = rx_stream pre"
proof -
  from assms(2) obtain e rest where pre: "pre = e # rest" by (cases pre) auto
  obtain d ev where e: "e = (d, ev)" by (cases e)
  have rx: "rx c = (d, ev) # rest @ post" using assms(1) pre e by (simp add: rx_ready_def)
  show thesis
  proof (cases ev)
    case (RxData b bs)
    define c1 where "c1 = snd (sys_read n c)"
    have c1: "sys_read n c = (IoMoved (take n (b # bs)), c1)" "last_io c1 = clock c1"
        "rx c1 = (case drop n (b # bs) of [] \<Rightarrow> rest @ post | b' # bs' \<Rightarrow> (0, RxData b' bs') # rest @ post)"
        "ssl c1 = ssl c"
      using rx RxData by (simp_all add: c1_def sys_read_def Let_def tick_def)
    have pr: "rx_prompt (ssl c) 0 rest"
      using assms(1) pre e RxData by (simp add: rx_ready_def)
    have all: "b # bs = take n (b # bs) @ drop n (b # bs)" by simp
    show thesis
    proof (cases "drop n (b # bs)")
      case Nil
      with all have "take n (b # bs) = b # bs" by simp
      with Nil c1 pr pre e RxData show thesis
        by (intro moved [OF c1(1), of rest]) (simp_all add: rx_ready_def)
    next
      case (Cons b' bs')
      with all have "b # bs = take n (b # bs) @ b' # bs'" by simp
      with Cons c1 pr pre e RxData show thesis
        by (intro moved [OF c1(1), of "(0, RxData b' bs') # rest"])
          (simp_all add: rx_ready_def flip: append_Cons)
    qed
  next
    case (RxErr again)
    with rx assms(1) pre e show thesis
      by (intro retry [of "snd (sys_read n c)" rest])
        (auto simp: rx_ready_def sys_read_unfold timed_out_def algebra_simps)
  next
    case (RxTls r err)
    with rx assms(1) pre e show thesis
      by (intro retry [of "snd (sys_read n c)" rest])
        (auto simp: rx_ready_def sys_read_unfold timed_out_def algebra_simps tls_again_def)
  next
    case RxClosed
    with assms(1) pre e show thesis by (simp add: rx_ready_def)
  qed
qed

lemma recv_loop_ready:
  assumes "rx_ready c pre post" "len - int (length acc) \<le> int (length (rx_stream pre))"
    "int (length acc) \<le> len"
  shows "\<exists>c' pre'. recv_loop len acc c = (len, acc @ take (nat len - length acc) (rx_stream pre), c') \<and>
    rx_ready c' pre' post \<and> rx_stream pre' = drop (nat len - length acc) (rx_stream pre)"
  using assms
proof (induction len acc c arbitrary: pre rule: recv_loop.induct)
  case (1 len acc c)
  let ?n = "io_chunk len (length acc)"
  show ?case
  proof (cases "?n > 0")
    case False
    with 1(5) have "len = int (length acc)"
      by (auto simp: io_chunk_def BUFFLEN_def split: if_splits)
    with False 1(3) show ?thesis by (auto simp: recv_loop.simps [of "int (length acc)" acc])
  next
    case True
    then have more: "int (length acc) < len" by (auto simp: io_chunk_def split: if_splits)
    with 1(4) have ne: "rx_stream pre \<noteq> []" by auto
    from True have "0 < nat ?n" by simp
    with 1(3) ne show ?thesis
    proof (cases rule: sys_read_ready)
      case (moved got c1 pre')
      have le: "length got \<le> nat ?n" "nat ?n \<le> nat len - length acc"
        using sys_read_moved(2) [OF moved(1) \<open>0 < nat ?n\<close>]
        by (auto simp: io_chunk_def split: if_splits)
      have "\<exists>c' pre''. recv_loop len (acc @ got) c1 =
          (len, (acc @ got) @ take (nat len - length (acc @ got)) (rx_stream pre'), c') \<and>
          rx_ready c' pre'' post \<and> rx_stream pre'' = drop (nat len - length (acc @ got)) (rx_stream pre')"
        by (rule 1(1) [OF refl True moved(1) [symmetric] refl moved(2)])
          (use le more moved(3) 1(4) in auto)
      with le True moved show ?thesis
        by (auto simp: recv_loop.simps [of len acc] Let_def)
    next
      case (retry c1 pre')
      have "\<exists>c' pre''. recv_loop len acc c1 =
          (len, acc @ take (nat len - length acc) (rx_stream pre'), c') \<and>
          rx_ready c' pre'' post \<and> rx_stream pre'' = drop (nat len - length acc) (rx_stream pre')"
        by (rule 1(2) [OF refl True retry(1) [symmetric] refl retry(2)])
          (use 1(4,5) retry(3) in auto)
      with True retry show ?thesis by (auto simp: recv_loop.simps [of len acc] Let_def)
    qed
  qed
qed

lemma antd_recv_ready:
  assumes "rx_ready c pre post" "n \<le> length (rx_stream pre)"
  obtains c' pre' where "antd_recv c (int n) = (int n, take n (rx_stream pre), c')"
    "rx_ready c' pre' post" "rx_stream pre' = drop n (rx_stream pre)"
  using recv_loop_ready [OF assms(1), of "int n" "[]"] assms(2) by (auto simp: antd_recv_def)

lemma recv_loop_bound:
  "recv_loop len acc c = (r, bs, c') \<Longrightarrow> length acc \<le> nat len \<Longrightarrow> length bs \<le> nat len"
proof (induction len acc c rule: recv_loop.induct)
  case (1 len acc c)
  let ?n = "io_chunk len (length acc)"
  obtain res c1 where rd: "sys_read (nat ?n) c = (res, c1)" by (cases "sys_read (nat ?n) c")
  show ?case
  proof (cases "?n > 0")
    case True
    have le: "nat ?n \<le> nat len - length acc" by (rule io_chunk_le)
    show ?thesis
    proof (cases res)
      case (IoMoved got)
      with rd True have "length got \<le> nat ?n" by (intro sys_read_moved(2) [of "nat ?n" c got c1]) auto
      with le 1(4) have "length (acc @ got) \<le> nat len" by simp
      moreover from IoMoved 1(3) True rd have "recv_loop len (acc @ got) c1 = (r, bs, c')"
        by (simp add: recv_loop.simps [of len acc])
      ultimately show ?thesis using 1(1) [OF refl True rd [symmetric] IoMoved] by simp
    next
      case (IoStop x)
      with 1(3,4) True rd show ?thesis by (auto simp: recv_loop.simps [of len acc])
    next
      case IoRetry
      with 1(3) True rd have "recv_loop len acc c1 = (r, bs, c')"
        by (simp add: recv_loop.simps [of len acc])
      from 1(2) [OF refl True rd [symmetric] IoRetry this 1(4)] show ?thesis .
    qed
  qed (use 1(3,4) in \<open>auto simp: recv_loop.simps [of len acc]\<close>)
qed

section \<open>Reading a line\<close>

lemma read_buf_loop_line:
  assumes "rx_ready c pre post" "rx_stream pre = map byte_of (line @ [LF]) @ rest"
    "LF \<notin> set line" "length buf + length line + 1 \<le> sz - 1" "ch \<noteq> LF"
  shows "\<exists>c' pre'. read_buf_loop sz buf ch c =
      (int (length buf + length line + 1), buf @ line @ [LF], c') \<and>
    rx_ready c' pre' post \<and> rx_stream pre' = rest"
  using assms
proof (induction line arbitrary: buf ch c pre)
  case Nil
  then obtain c1 pre1 where c1: "antd_recv c 1 = (1, [byte_of LF], c1)" "rx_ready c1 pre1 post"
      "rx_stream pre1 = rest"
    using antd_recv_ready [OF Nil(1), of 1] by auto
  with Nil show ?case
    by (intro exI [of _ c1] exI [of _ pre1])
      (simp add: read_buf_loop.simps [of sz buf] read_buf_loop.simps [of sz "buf @ [LF]"])
next
  case (Cons x line)
  have "1 \<le> length (rx_stream pre)" using Cons.prems(2) by simp
  then obtain c1 pre1 where "antd_recv c (int 1) = (int 1, take 1 (rx_stream pre), c1)"
      "rx_ready c1 pre1 post" "rx_stream pre1 = drop 1 (rx_stream pre)"
    by (rule antd_recv_ready [OF Cons.prems(1)])
  then have c1: "antd_recv c 1 = (1, [byte_of x], c1)" "rx_ready c1 pre1 post"
      "rx_stream pre1 = map byte_of (line @ [LF]) @ rest"
    using Cons.prems(2) by simp_all
  have "x \<noteq> LF" using Cons.prems(3) by auto
  with Cons.IH [OF c1(2,3), of "buf @ [x]" x] Cons.prems c1(1) show ?case
    by (simp add: read_buf_loop.simps [of sz buf ch])
qed

text \<open>A line that ends in a line feed was read to its end: its last byte has just arrived.\<close>

lemma recv_loop_fresh:
  "recv_loop len acc c = (r, bs, c') \<Longrightarrow> int (length bs) = len \<Longrightarrow> length acc < length bs \<Longrightarrow> last_io c' = clock c'"
proof (induction len acc c rule: recv_loop.induct)
  case (1 len acc c)
  let ?n = "io_chunk len (length acc)"
  have n: "?n > 0" using 1(4,5) by (auto simp: io_chunk_def BUFFLEN_def)
  obtain res c1 where rd: "sys_read (nat ?n) c = (res, c1)" by (cases "sys_read (nat ?n) c")
  show ?case
  proof (cases res)
    case (IoMoved got)
    with 1(3) n rd have r: "recv_loop len (acc @ got) c1 = (r, bs, c')" by (simp add: recv_loop.simps [of len acc])
    have f: "last_io c1 = clock c1"
      using rd IoMoved by (auto simp: sys_read_unfold split: list.splits prod.splits rx_ev.splits if_splits tls_err.splits)
    obtain more where "bs = (acc @ got) @ more" using recv_loop_spec [OF r] by blast
    then consider "length (acc @ got) < length bs" | "bs = acc @ got" by fastforce
    then show ?thesis
    proof cases
      case 1
      then show ?thesis using "1.IH"(1) [OF refl n rd [symmetric] IoMoved r] "1.prems"(2) by blast
    next
      case 2
      with r f "1.prems"(2) show ?thesis by (simp add: recv_loop.simps [of len "acc @ got"] io_chunk_def Let_def BUFFLEN_def split: if_splits)
    qed
  next
    case (IoStop x)
    with 1(3,5) n rd show ?thesis by (auto simp: recv_loop.simps [of len acc] split: if_splits)
  next
    case IoRetry
    with 1(3) n rd have "recv_loop len acc c1 = (r, bs, c')" by (simp add: recv_loop.simps [of len acc])
    from 1(2) [OF refl n rd [symmetric] IoRetry this 1(4,5)] show ?thesis .
  qed
qed

lemma read_buf_loop_frame:
  "read_buf_loop sz buf ch c = (n, b, c') \<Longrightarrow>
    rx_frame c c' \<and> (\<exists>more. b = buf @ more \<and> (more \<noteq> [] \<and> last more = LF \<longrightarrow> last_io c' = clock c'))"
proof (induction sz buf ch c rule: read_buf_loop.induct)
  case (1 sz buf ch c)
  obtain r bytes c1 where rd: "antd_recv c 1 = (r, bytes, c1)" by (cases "antd_recv c 1")
  have sp: "rx_frame c c1" "r = int (length bytes) \<or> r \<le> 0 \<and> bytes = []"
    using recv_loop_spec [of 1 "[]" c r bytes c1] rd by (auto simp: antd_recv_def)
  consider "\<not> (length buf < sz - 1 \<and> ch \<noteq> LF)" | "length buf < sz - 1 \<and> ch \<noteq> LF" "r > 0" | "length buf < sz - 1 \<and> ch \<noteq> LF" "r \<le> 0"
    by linarith
  then show ?case
  proof cases
    case 1
    with "1.prems" show ?thesis by (simp add: read_buf_loop.simps [of sz buf] del: de_Morgan_conj)
  next
    case 2
    let ?x = "char_of_byte (hd bytes)"
    from 2 "1.prems" rd have r: "read_buf_loop sz (buf @ [?x]) ?x c1 = (n, b, c')"
      by (simp add: read_buf_loop.simps [of sz buf] Let_def)
    have "length bytes \<le> 1" using recv_loop_bound [of 1 "[]" c r bytes c1] rd by (simp add: antd_recv_def)
    then have f: "last_io c1 = clock c1"
      using recv_loop_fresh [of 1 "[]" c r bytes c1] rd sp(2) 2(2) by (auto simp: antd_recv_def)
    obtain more where m: "rx_frame c1 c'" "b = (buf @ [?x]) @ more" "more \<noteq> [] \<and> last more = LF \<longrightarrow> last_io c' = clock c'"
      using "1.IH"(1) [OF 2(1) rd [symmetric] refl 2(2) refl r] by blast
    have "last_io c' = clock c'" if "more = []" "?x = LF"
      using r f that by (simp add: read_buf_loop.simps [of sz "buf @ [LF]" LF])
    with m rx_frame_trans [OF sp(1) m(1)] show ?thesis by (intro conjI exI [of _ "?x # more"]) auto
  next
    case 3
    with rd have "read_buf_loop sz buf ch c = read_buf_loop sz buf LF c1" by (subst read_buf_loop.simps) simp
    with "1.prems" have "read_buf_loop sz buf LF c1 = (n, b, c')" by simp
    then show ?thesis using sp(1) by (simp add: read_buf_loop.simps [of sz buf LF])
  qed
qed

lemma read_buf_frame:
  "read_buf c sz = (n, b, c') \<Longrightarrow> rx_frame c c' \<and> (b \<noteq> [] \<and> last b = LF \<longrightarrow> last_io c' = clock c')"
  using read_buf_loop_frame [of sz "[]" NUL c n b c'] by (simp add: read_buf_def)

section \<open>Sending\<close>

lemmas sys_write_unfold =
  sys_write_def tx_fail_def tls_switch_def plain_send_fail_def tick_def Let_def

text \<open>Sending touches only the writing half.\<close>

definition tx_frame :: "client \<Rightarrow> client \<Rightarrow> bool" where
  "tx_frame c c' \<longleftrightarrow> sock c' = sock c \<and> ssl c' = ssl c \<and> state c' = state c \<and>
     z_level c' = z_level c \<and> rx c' = rx c"

lemma tx_frame_refl [simp]: "tx_frame c c"
  by (simp add: tx_frame_def)

lemma tx_frame_trans: "tx_frame c c' \<Longrightarrow> tx_frame c' c'' \<Longrightarrow> tx_frame c c''"
  by (simp add: tx_frame_def)

lemma sys_write_frame: "tx_frame c (snd (sys_write data c))"
  by (auto simp: sys_write_unfold tx_frame_def
      split: list.splits prod.splits tx_ev.splits if_splits tls_err.splits)

lemma sys_write_sent:
  "sent (snd (sys_write data c)) =
     sent c @ (case fst (sys_write data c) of IoMoved k \<Rightarrow> take k data | _ \<Rightarrow> [])"
  by (auto simp: sys_write_unfold
      split: list.splits prod.splits tx_ev.splits if_splits tls_err.splits)

lemma sys_write_stop: "sys_write data c = (IoStop r, c') \<Longrightarrow> r \<le> 0"
  by (auto simp: sys_write_unfold
      split: list.splits prod.splits tx_ev.splits if_splits tls_err.splits)

lemma send_loop_spec:
  assumes "send_loop data written c = (r, c')" "written \<le> length data"
  shows "\<exists>n. written \<le> n \<and> n \<le> length data \<and> sent c' = sent c @ take (n - written) (drop written data) \<and>
    tx_frame c c' \<and> (r = int n \<or> r \<le> 0 \<and> n = 0)"
  using assms
proof (induction data written c rule: send_loop.induct)
  case (1 data written c)
  let ?n = "io_chunk (int (length data)) written"
  let ?d = "take (nat ?n) (drop written data)"
  show ?case
  proof (cases "?n > 0")
    case False
    with 1(3,4) show ?thesis
      by (intro exI [of _ written]) (auto simp: send_loop.simps [of data written])
  next
    case True
    then have ne: "?d \<noteq> []" by (auto simp: io_chunk_def split: if_splits)
    have nn: "nat ?n \<le> length data - written" using io_chunk_le [of "int (length data)" written] by simp
    obtain res c1 where wr: "sys_write ?d c = (res, c1)" by (cases "sys_write ?d c")
    have fr: "tx_frame c c1" using sys_write_frame [of c ?d] wr by simp
    note st = sys_write_sent [of ?d c, unfolded wr fst_conv snd_conv]
    show ?thesis
    proof (cases res)
      case (IoMoved k)
      have k: "k \<le> nat ?n" using sys_write_moved(2) [of ?d c k c1] wr IoMoved ne by auto
      from IoMoved 1(3) True wr have "send_loop data (written + k) c1 = (r, c')"
        by (simp add: send_loop.simps [of data written])
      with 1(1) [OF refl True wr [symmetric] IoMoved this] k nn 1(4) ne obtain n where
        n: "written + k \<le> n" "n \<le> length data"
          "sent c' = sent c1 @ take (n - (written + k)) (drop (written + k) data)"
          "tx_frame c1 c'" "r = int n \<or> r \<le> 0 \<and> n = 0" by (auto simp: le_diff_conv2)
      have "sent c1 = sent c @ take k (drop written data)"
        using st IoMoved k by (simp add: min_absorb1)
      moreover have "take (n - written) (drop written data) =
          take k (drop written data) @ take (n - (written + k)) (drop (written + k) data)"
        using n(1) take_add [of k "n - (written + k)" "drop written data"] by (simp add: add.commute)
      ultimately show ?thesis using n fr by (intro exI [of _ n]) (auto intro: tx_frame_trans)
    next
      case (IoStop x)
      with 1(3,4) True wr st fr sys_write_stop [of ?d c x c1] show ?thesis
        by (intro exI [of _ written]) (auto simp: send_loop.simps [of data written] split: if_splits)
    next
      case IoRetry
      with 1(3) True wr have "send_loop data written c1 = (r, c')"
        by (simp add: send_loop.simps [of data written])
      from 1(2) [OF refl True wr [symmetric] IoRetry this 1(4)] st IoRetry fr show ?thesis
        by (auto intro: tx_frame_trans)
    qed
  qed
qed

text \<open>A socket that takes everything in the end, the counterpart of \<open>rx_prompt\<close>.  A plain
  \<open>send\<close> that takes nothing is tried again as well.\<close>

fun tx_prompt :: "bool \<Rightarrow> int \<Rightarrow> (nat \<times> tx_ev) list \<Rightarrow> bool" where
  "tx_prompt tls t [] = True"
| "tx_prompt tls t ((d, TxTake n) # s) = tx_prompt tls 0 s"
| "tx_prompt tls t ((d, TxErr again) # s) =
     (again \<and> \<not> tls \<and> t + int d \<le> MAX_IO_WAIT_TIME \<and> tx_prompt tls (t + int d) s)"
| "tx_prompt tls t ((d, TxTls r e) # s) =
     (tls \<and> tls_again e \<and> t + int d \<le> MAX_IO_WAIT_TIME \<and> tx_prompt tls (t + int d) s)"
| "tx_prompt tls t ((d, TxZero) # s) =
     (\<not> tls \<and> t + int d \<le> MAX_IO_WAIT_TIME \<and> tx_prompt tls (t + int d) s)"

definition tx_ready :: "client \<Rightarrow> bool" where
  "tx_ready c \<longleftrightarrow> tx_prompt (ssl c) (clock c - last_io c) (tx c)"

lemma sys_write_ready:
  assumes "tx_ready c"
  obtains (moved) k c' where "sys_write data c = (IoMoved k, c')" "tx_ready c'"
  | (retry) c' where "sys_write data c = (IoRetry, c')" "tx_ready c'"
proof (cases "tx c")
  case Nil
  then show thesis
    by (intro moved [of "length data" "snd (sys_write data c)"])
      (simp_all add: sys_write_def tx_ready_def)
next
  case (Cons e rest)
  obtain d ev where e: "e = (d, ev)" by (cases e)
  show thesis
  proof (cases ev)
    case (TxTake n)
    with Cons e assms show thesis
      by (intro moved [of "min (Suc n) (length data)" "snd (sys_write data c)"])
        (auto simp: sys_write_unfold tx_ready_def)
  next
    case TxZero
    with Cons e assms show thesis
      by (intro retry [of "snd (sys_write data c)"])
        (auto simp: sys_write_unfold tx_ready_def timed_out_def algebra_simps)
  next
    case (TxErr again)
    with Cons e assms show thesis
      by (intro retry [of "snd (sys_write data c)"])
        (auto simp: sys_write_unfold tx_ready_def timed_out_def algebra_simps)
  next
    case (TxTls r err)
    with Cons e assms show thesis
      by (intro retry [of "snd (sys_write data c)"])
        (auto simp: sys_write_unfold tx_ready_def timed_out_def tls_again_def algebra_simps)
  qed
qed

lemma send_loop_ready:
  assumes "tx_ready c" "written \<le> length data"
  shows "\<exists>c'. send_loop data written c = (int (length data), c') \<and> tx_ready c'"
  using assms
proof (induction data written c rule: send_loop.induct)
  case (1 data written c)
  let ?n = "io_chunk (int (length data)) written"
  let ?d = "take (nat ?n) (drop written data)"
  show ?case
  proof (cases "?n > 0")
    case False
    with 1(4) have "written = length data" by (auto simp: io_chunk_def BUFFLEN_def split: if_splits)
    with False 1(3) show ?thesis by (auto simp: send_loop.simps [of data "length data"])
  next
    case True
    then have ne: "?d \<noteq> []" by (auto simp: io_chunk_def split: if_splits)
    have nn: "nat ?n \<le> length data - written" using io_chunk_le [of "int (length data)" written] by simp
    show ?thesis
    proof (cases rule: sys_write_ready [OF 1(3), of ?d])
      case (1 k c1)
      with nn sys_write_moved(2) [of ?d c k c1] ne have "written + k \<le> length data"
        using \<open>written \<le> length data\<close> by simp
      from "1.IH"(1) [OF refl True 1(1) [symmetric] refl 1(2) this] 1 True show ?thesis
        by (simp add: send_loop.simps [of data written])
    next
      case (2 c1)
      from "1.IH"(2) [OF refl True 2(1) [symmetric] refl 2(2) \<open>written \<le> length data\<close>] 2 True
      show ?thesis by (simp add: send_loop.simps [of data written])
    qed
  qed
qed

lemma antd_send_spec:
  assumes "antd_send c data = (r, c')"
  shows "\<exists>n \<le> length data. sent c' = sent c @ take n data \<and> tx_frame c c' \<and>
    (r = int n \<or> r \<le> 0 \<and> n = 0)"
  using send_loop_spec [of data 0 c r c'] assms by (auto simp: antd_send_def)

lemma antd_send_ready:
  assumes "tx_ready c"
  obtains c' where "antd_send c data = (int (length data), c')" "tx_ready c'"
    "sent c' = sent c @ data" "tx_frame c c'"
proof -
  obtain c' where c': "antd_send c data = (int (length data), c')" "tx_ready c'"
    using send_loop_ready [OF assms, of 0 data] by (auto simp: antd_send_def)
  with antd_send_spec [OF c'(1)] show thesis by (intro that [of c']) (auto simp: le_Suc_eq)
qed

lemma b_send_ready:
  assumes "tx_ready c"
  shows "\<exists>c'. b_send c data = (1, c') \<and> tx_ready c' \<and> sent c' = sent c @ data \<and> tx_frame c c'"
  using assms
proof (induction c data rule: b_send.induct)
  case (1 c data)
  show ?case
  proof (cases "data = []")
    case True
    with 1(2) show ?thesis by (simp add: b_send.simps)
  next
    case False
    obtain c1 where c1: "antd_send c (take BUFFLEN data) = (int (length (take BUFFLEN data)), c1)"
        "tx_ready c1" "sent c1 = sent c @ take BUFFLEN data" "tx_frame c c1"
      by (rule antd_send_ready [OF 1(2)])
    have "int (length (take BUFFLEN data)) \<noteq> -1" by simp
    from 1(1) [OF False c1(1) [symmetric] refl this c1(2)] c1 False show ?thesis
      by (auto simp: b_send.simps [of c data] intro: tx_frame_trans)
  qed
qed

lemma t_send_ready:
  assumes "tx_ready c"
  shows "\<exists>c'. t_send c line = (1, c') \<and> tx_ready c' \<and>
    sent c' = sent c @ map byte_of (line @ CRLF) \<and> tx_frame c c'"
proof -
  obtain c1 where c1: "b_send c (map byte_of line) = (1, c1)" "tx_ready c1"
      "sent c1 = sent c @ map byte_of line" "tx_frame c c1"
    using b_send_ready [OF assms] by blast
  obtain c2 where "b_send c1 (map byte_of CRLF) = (1, c2)" "tx_ready c2"
      "sent c2 = sent c1 @ map byte_of CRLF" "tx_frame c1 c2"
    using b_send_ready [OF c1(2)] by blast
  with c1 show ?thesis by (auto simp: t_send_def intro: tx_frame_trans)
qed

text \<open>A socket in order is a sink for blocks of bytes and for lines.\<close>

definition emit_bytes :: "client \<Rightarrow> u8 list \<Rightarrow> client" where
  "emit_bytes c data = snd (b_send c data)"

definition emit_line :: "client \<Rightarrow> cstring \<Rightarrow> client" where
  "emit_line c line = snd (t_send c line)"

definition line_bytes :: "cstring \<Rightarrow> u8 list" where
  "line_bytes line = map byte_of (line @ CRLF)"

interpretation raw_sink: byte_sink tx_ready sent emit_bytes "\<lambda>data. data"
proof (unfold_locales, goal_cases)
  case (1 c data)
  with b_send_ready [of c data] show ?case by (auto simp: emit_bytes_def)
next
  case (2 c data)
  with b_send_ready [of c data] show ?case by (auto simp: emit_bytes_def)
qed

interpretation line_sink: byte_sink tx_ready sent emit_line line_bytes
proof (unfold_locales, goal_cases)
  case (1 c line)
  with t_send_ready [of c line] show ?case by (auto simp: emit_line_def)
next
  case (2 c line)
  with t_send_ready [of c line] show ?case by (auto simp: emit_line_def line_bytes_def)
qed

section \<open>Properties\<close>

text \<open>C23. \<open>antd_recv\<close> under any behaviour of the socket, failures, timeouts and TLS included:
  it never writes more bytes than the buffer holds, the bytes it delivers followed by those
  still to come are the stream of the peer (nothing is lost, repeated or reordered), and its
  result is the number of bytes it wrote, or, when it wrote none, the zero or negative result
  of the failed call.\<close>

theorem recv_lossless:
  assumes "antd_recv c len = (r, bs, c')"
  shows "length bs \<le> nat len \<and> rx_stream (rx c) = bs @ rx_stream (rx c') \<and> rx_frame c c' \<and>
    (r = int (length bs) \<or> r \<le> 0 \<and> bs = [])"
  using recv_loop_spec [of len "[]" c r bs c'] recv_loop_bound [of len "[]" c r bs c'] assms
  by (auto simp: antd_recv_def)

definition demo_client :: client where
  "demo_client = \<lparr>sock = 7, ssl = False, state = 2, last_io = 100, z_level = ANTD_CNONE, clock = 100,
     errno_again = False,
     rx = [(1, RxData 71 [69]), (2, RxErr True), (1, RxData 84 [32, 47]), (0, RxData 10 [88]), (0, RxClosed)],
     tx = [(1, TxErr True), (0, TxTake 1), (0, TxZero)], sent = []\<rparr>"

lemma demo_client_simps [simp]:
  "sock demo_client = 7" "ssl demo_client = False" "last_io demo_client = 100" "clock demo_client = 100"
  "rx demo_client = [(1, RxData 71 [69]), (2, RxErr True), (1, RxData 84 [32, 47]), (0, RxData 10 [88]), (0, RxClosed)]"
  "tx demo_client = [(1, TxErr True), (0, TxTake 1), (0, TxZero)]" "sent demo_client = []"
  by (simp_all add: demo_client_def)

lemma demo_ready:
  "rx_ready demo_client
     [(1, RxData 71 [69]), (2, RxErr True), (1, RxData 84 [32, 47]), (0, RxData 10 [88])] [(0, RxClosed)]"
  "tx_ready demo_client"
  by (simp_all add: rx_ready_def tx_ready_def MAX_IO_WAIT_TIME_def)

theorem recv_lossless_witness:
  "\<exists>r bs c'. antd_recv demo_client 4 = (r, bs, c') \<and> length bs \<le> 4 \<and>
     rx_stream (rx demo_client) = bs @ rx_stream (rx c')"
proof -
  obtain r bs c' where "antd_recv demo_client 4 = (r, bs, c')" by (cases "antd_recv demo_client 4")
  with recv_lossless [OF this] show ?thesis by auto
qed

text \<open>C22. \<open>antd_recv\<close> delivers what was asked for: when the peer sends at least \<open>n\<close> bytes
  without a hard failure and without a silence of more than \<open>MAX_IO_WAIT_TIME\<close> seconds, it
  returns \<open>n\<close> and exactly the first \<open>n\<close> bytes, however the kernel cuts the stream and
  however often it says \<open>EAGAIN\<close> or TLS asks for a retry, and leaves the rest for the next
  call.\<close>

theorem recv_complete:
  assumes "rx_ready c pre post" "n \<le> length (rx_stream pre)"
  shows "\<exists>c'. antd_recv c (int n) = (int n, take n (rx_stream pre), c') \<and>
    rx_stream (rx c') = drop n (rx_stream pre) @ rx_stream post"
proof -
  obtain c' pre' where c': "antd_recv c (int n) = (int n, take n (rx_stream pre), c')"
      "rx_ready c' pre' post" "rx_stream pre' = drop n (rx_stream pre)"
    by (rule antd_recv_ready [OF assms])
  have "rx_stream (xs @ ys) = rx_stream xs @ rx_stream ys" for xs ys
    by (induction xs rule: rx_stream.induct) auto
  with c' show ?thesis by (auto simp: rx_ready_def)
qed

theorem recv_complete_witness:
  "\<exists>c'. antd_recv demo_client 4 = (4, [71, 69, 84, 32], c') \<and> rx_stream (rx c') = [47, 10, 88]"
  using recv_complete [OF demo_ready(1), of 4] by simp

text \<open>\<open>read_buf\<close> returns the next line: when the stream holds a line of at most
  \<open>size - 2\<close> characters, the buffer gets that line with its line feed, the result is its length, and the
  bytes after the line feed stay unread.\<close>

lemma read_buf_line:
  assumes "rx_ready c pre post" "rx_stream pre = map byte_of (line @ [LF]) @ rest"
    "LF \<notin> set line" "length line + 1 \<le> sz - 1"
  shows "\<exists>c' pre'. read_buf c sz = (int (length line) + 1, line @ [LF], c') \<and>
    rx_ready c' pre' post \<and> rx_stream pre' = rest"
  using read_buf_loop_line [OF assms(1-3), of "[]" sz NUL] assms(4)
  by (simp add: read_buf_def add.commute)

text \<open>C24. \<open>antd_send\<close> under any behaviour of the socket: the bytes that leave are a prefix of
  the data, in order and once each; the result is the length of that prefix, or not positive
  when nothing left.  If the socket recovers from each stall in time, everything leaves.\<close>

theorem send_prefix:
  assumes "antd_send c data = (r, c')"
  shows "(\<exists>n \<le> length data. sent c' = sent c @ take n data \<and> (r = int n \<or> r \<le> 0 \<and> n = 0)) \<and>
    (tx_ready c \<longrightarrow> r = int (length data) \<and> sent c' = sent c @ data)"
proof (rule conjI)
  show "\<exists>n \<le> length data. sent c' = sent c @ take n data \<and> (r = int n \<or> r \<le> 0 \<and> n = 0)"
    using antd_send_spec [OF assms] by blast
  show "tx_ready c \<longrightarrow> r = int (length data) \<and> sent c' = sent c @ data"
    using antd_send_ready [of c data] assms by auto
qed

theorem send_prefix_witness:
  "fst (antd_send demo_client [72, 73, 74, 75]) = 4 \<and>
   sent (snd (antd_send demo_client [72, 73, 74, 75])) = [72, 73, 74, 75]"
proof -
  obtain r c' where "antd_send demo_client [72, 73, 74, 75] = (r, c')"
    by (cases "antd_send demo_client [72, 73, 74, 75]")
  with send_prefix [OF this] demo_ready(2) show ?thesis by simp
qed

text \<open>\<open>__b\<close> reports success although bytes are missing: when the socket takes one byte of
  the first block and then fails, \<open>antd_send\<close> returns the short count 1, \<open>__b\<close> only checks
  for -1 and goes on with the next block, and the peer gets a stream with a hole.\<close>

lemma b_send_hole:
  assumes "\<not> ssl c" "tx c = [(0, TxTake 0), (0, TxErr False)]" "1 < length data"
  shows "\<exists>c'. b_send c data = (1, c') \<and> sent c' = sent c @ take 1 data @ drop BUFFLEN data"
proof -
  let ?d = "take BUFFLEN data"
  obtain x y r where data: "data = x # y # r"
    using assms(3) by (cases data; cases "tl data") auto
  have len: "1 < length ?d" "length ?d \<le> BUFFLEN" using assms(3) by (auto simp: BUFFLEN_def)
  have pos: "io_chunk (int (length ?d)) 0 > 0" "io_chunk (int (length ?d)) (Suc 0) > 0"
    using len by (auto simp: io_chunk_def BUFFLEN_def)
  define c1 where "c1 = c\<lparr>tx := [(0, TxErr False)], sent := sent c @ [x], last_io := clock c\<rparr>"
  define c2 where "c2 = c1\<lparr>tx := [], errno_again := False\<rparr>"
  have "nat (io_chunk (int (length ?d)) 0) = length ?d"
    using len by (auto simp: io_chunk_def)
  then have "sys_write (take (nat (io_chunk (int (length ?d)) 0)) (drop 0 ?d)) c = (IoMoved 1, c1)"
    using assms(1,2) len data
    by (simp add: sys_write_def tick_def Let_def c1_def BUFFLEN_def)
  moreover have "sys_write z c1 = (IoStop (-1), c2)" for z
    using assms(1) by (simp add: sys_write_unfold c1_def c2_def)
  ultimately have "antd_send c ?d = (1, c2)"
    using pos
    by (simp add: antd_send_def send_loop.simps [of _ 0] send_loop.simps [of _ "Suc 0"] Let_def)
  moreover have "tx_ready c2" by (simp add: c2_def tx_ready_def)
  then obtain c3 where "b_send c2 (drop BUFFLEN data) = (1, c3)"
      "sent c3 = sent c2 @ drop BUFFLEN data"
    using b_send_ready by blast
  ultimately show ?thesis
    using data assms(3) by (subst b_send.simps) (simp add: c1_def c2_def)
qed

end
