(* ===== verification/Response.thy ===== *)
theory Response
  imports ClientIo Dict
begin

text \<open>
  Answers of \<open>lib/handle.c\<close>: \<open>get_status_str\<close>, \<open>antd_send_header\<close>, \<open>antd_error\<close>,
  \<open>ws_enable\<close>, without zlib.  The lemmas give the exact
  bytes of an answer on a socket that is in order (\<open>tx_ready\<close>).
\<close>

section \<open>Status lines\<close>

definition status_table :: "(int \<times> cstring) list" where
  "status_table =
    [(100, ''Continue''),
     (101, ''Switching Protocols''),
     (102, ''Processing''),
     (103, ''Early Hints''),
     (200, ''OK''),
     (201, ''Created''),
     (202, ''Accepted''),
     (203, ''Non-Authoritative Information''),
     (204, ''No Content''),
     (205, ''Reset Content''),
     (206, ''Partial Content''),
     (207, ''Multi-Status''),
     (208, ''Already Reported''),
     (226, ''IM Used''),
     (300, ''Multiple Choices''),
     (301, ''Moved Permanently''),
     (302, ''Found''),
     (303, ''See Other''),
     (304, ''Not Modified''),
     (305, ''Use Proxy''),
     (306, ''Switch Proxy''),
     (307, ''Temporary Redirect''),
     (308, ''Permanent Redirect''),
     (400, ''Bad Request''),
     (401, ''Unauthorized''),
     (402, ''Payment Required''),
     (403, ''Forbidden''),
     (404, ''Not Found''),
     (405, ''Method Not Allowed''),
     (406, ''Not Acceptable''),
     (407, ''Proxy Authentication Required''),
     (408, ''Request Timeout''),
     (409, ''Conflict''),
     (410, ''Gone''),
     (411, ''Length Required''),
     (412, ''Precondition Failed''),
     (413, ''Payload Too Large''),
     (414, ''URI Too Long''),
     (415, ''Unsupported Media Type''),
     (416, ''Range Not Satisfiable''),
     (417, ''Expectation Failed''),
     (421, ''Misdirected Request''),
     (422, ''Unprocessable Entity''),
     (423, ''Locked''),
     (424, ''Failed Dependency''),
     (425, ''Too Early''),
     (426, ''Upgrade Required''),
     (428, ''Precondition Required''),
     (429, ''Too Many Requests''),
     (431, ''Request Header Fields Too Large''),
     (451, ''Unavailable For Legal Reasons''),
     (500, ''Internal Server Error''),
     (501, ''Not Implemented''),
     (502, ''Bad Gateway''),
     (503, ''Service Unavailable''),
     (504, ''Gateway Timeout''),
     (505, ''HTTP Version Not Supported''),
     (506, ''Variant Also Negotiates''),
     (507, ''Insufficient Storage''),
     (508, ''Loop Detected''),
     (510, ''Not Extended''),
     (511, ''Network Authentication Required'')]"

definition get_status_str :: "int \<Rightarrow> cstring" where
  "get_status_str stat =
     (case map_of status_table stat of Some s \<Rightarrow> s | None \<Rightarrow> ''Unofficial Status'')"

definition SERVER_NAME :: cstring where "SERVER_NAME = ''Antd''"

section \<open>Headers\<close>

record response_header =
  rh_header :: "cstring dictionary option"
  rh_cookie :: "cstring option list"
  rh_status :: int

text \<open>\<open>%s\<close> of a pointer, which glibc prints as \<open>(null)\<close> when it is NULL.\<close>

definition fmt_s :: "cstring option \<Rightarrow> cstring" where
  "fmt_s v = (case v of None \<Rightarrow> ''(null)'' | Some s \<Rightarrow> s)"

definition header_entry :: "cstring assoc \<Rightarrow> cstring" where
  "header_entry it = fst it @ '': '' @ fmt_s (snd it)"

definition status_line :: "int \<Rightarrow> cstring" where
  "status_line stat = ''HTTP/1.1 '' @ dec_int stat @ '' '' @ get_status_str stat"

text \<open>The loop over the cookie list: entries that hold no pointer are skipped.\<close>

fun send_cookies :: "client \<Rightarrow> cstring option list \<Rightarrow> client" where
  "send_cookies c [] = c"
| "send_cookies c (el # els) =
     (case el of
        None \<Rightarrow> send_cookies c els
      | Some ck \<Rightarrow> send_cookies (emit_line c (''Set-Cookie: '' @ ck)) els)"

text \<open>\<open>antd_send_header\<close>: it adds \<open>Server\<close>, sends everything and frees the header, whose
  fields are NULL afterwards.\<close>

definition antd_send_header :: "client \<Rightarrow> response_header \<Rightarrow> client \<times> response_header" where
  "antd_send_header c res =
     (let header0 = (case rh_header res of None \<Rightarrow> dict | Some h \<Rightarrow> h);
          header1 = dput header0 ''Server'' (Some SERVER_NAME);
          c1 = emit_line c (status_line (rh_status res));
          c2 = foldl (\<lambda>c it. emit_line c (header_entry it)) c1 (dict_items header1);
          c3 = send_cookies c2 (rh_cookie res);
          c4 = emit_bytes c3 (map byte_of CRLF)
      in (c4, res\<lparr>rh_header := None, rh_cookie := []\<rparr>))"

definition HTML_TPL :: "cstring \<Rightarrow> cstring \<Rightarrow> cstring" where
  "HTML_TPL title msg =
     ''<HTML><HEAD><TITLE>'' @ title @ ''</TITLE></HEAD><BODY><h2>'' @ msg @ ''</h2></BODY></HTML>''"

definition antd_error :: "client \<Rightarrow> int \<Rightarrow> cstring \<Rightarrow> client" where
  "antd_error c stat msg =
     (let stat_str = get_status_str stat;
          header0 = dput dict ''Content-Type'' (Some ''text/html; charset=utf-8'');
          res_str = HTML_TPL stat_str msg;
          clen = length res_str;
          header1 = dput header0 ''Content-Length'' (Some (dec_nat clen));
          (c1, rsh) = antd_send_header c \<lparr>rh_header = Some header1, rh_cookie = [], rh_status = stat\<rparr>
      in emit_bytes c1 (map byte_of res_str))"

text \<open>\<open>ws_enable\<close> on the string values of a request dictionary.\<close>

definition ws_enable :: "cstring dictionary option \<Rightarrow> bool" where
  "ws_enable dic =
     (case dic of
        None \<Rightarrow> False
      | Some d \<Rightarrow> (case dvalue d ''__web_socket__'' of None \<Rightarrow> False | Some v \<Rightarrow> atoi v = 1))"

section \<open>Lemmas\<close>

definition header_text :: "response_header \<Rightarrow> cstring list" where
  "header_text res =
     status_line (rh_status res)
     # map header_entry (dict_items (dput (case rh_header res of None \<Rightarrow> dict | Some h \<Rightarrow> h)
         ''Server'' (Some SERVER_NAME)))
     @ map ((@) ''Set-Cookie: '') (List.map_filter id (rh_cookie res))"

lemma send_cookies_lines:
  "send_cookies c els = foldl emit_line c (map ((@) ''Set-Cookie: '') (List.map_filter id els))"
  by (induction c els rule: send_cookies.induct) (auto simp: map_filter_def split: option.splits)

lemma foldl_map_line: "foldl (\<lambda>c it. emit_line c (f it)) c xs = foldl emit_line c (map f xs)"
  by (induction xs arbitrary: c) auto

lemma antd_send_header_lines:
  "fst (antd_send_header c res) =
     emit_bytes (foldl emit_line c (header_text res)) (map byte_of CRLF)"
  by (simp add: antd_send_header_def header_text_def send_cookies_lines
      foldl_map_line [of header_entry] Let_def)

lemma line_bytes_concat: "concat (map line_bytes ls) = map byte_of (concat (map (\<lambda>l. l @ CRLF) ls))"
  by (induction ls) (auto simp: line_bytes_def)

lemma antd_send_header_ready:
  assumes "tx_ready c"
  shows "tx_ready (fst (antd_send_header c res))"
    "sent (fst (antd_send_header c res)) =
      sent c @ map byte_of (concat (map (\<lambda>l. l @ CRLF) (header_text res)) @ CRLF)"
proof -
  have r: "tx_ready (foldl emit_line c (header_text res))"
    by (rule line_sink.ready_emit_all [OF assms])
  then show "tx_ready (fst (antd_send_header c res))"
    unfolding antd_send_header_lines by (rule raw_sink.ready_emit)
  show "sent (fst (antd_send_header c res)) =
      sent c @ map byte_of (concat (map (\<lambda>l. l @ CRLF) (header_text res)) @ CRLF)"
    unfolding antd_send_header_lines raw_sink.out_emit [OF r] line_sink.out_emit_all [OF assms]
      line_bytes_concat by simp
qed

lemma simple_hash_keys:
  "simple_hash ''Content-Type'' mod 16 = 14" "simple_hash ''Content-Length'' mod 16 = 10"
  "simple_hash ''Server'' mod 16 = 3"
  by (simp_all add: simple_hash_def char_int_def byte_of_def code_of_def)

lemma replicate_16: "replicate 16 x = [x, x, x, x, x, x, x, x, x, x, x, x, x, x, x, x]"
  by (simp add: numeral_eq_Suc)

lemma error_dict_items:
  "dict_items (dput (dput (dput dict ''Content-Type'' a) ''Content-Length'' b) ''Server'' d) =
     [(''Server'', d), (''Content-Length'', b), (''Content-Type'', a)]"
  by (simp add: dput_def put_el_with_key_def dlookup_def bucket_def hash_def Let_def dict_def
      dict_n_def dict_items_def simple_hash_keys replicate_16)

definition one_line :: "cstring \<Rightarrow> bool" where
  "one_line s \<longleftrightarrow> CR \<notin> set s \<and> LF \<notin> set s \<and> NUL \<notin> set s"

lemma one_line_append [simp]: "one_line (s @ t) \<longleftrightarrow> one_line s \<and> one_line t"
  by (auto simp: one_line_def)

lemma one_line_dec_nat [simp]: "one_line (dec_nat n)"
  using dec_nat_digits [of n] by (auto simp: one_line_def c_isdigit_def code_of_def)

lemma one_line_dec_int [simp]: "one_line (dec_int i)"
proof -
  have "one_line [CHR ''-'']" by (simp add: one_line_def)
  then have "one_line ([CHR ''-''] @ dec_nat n)" for n by (simp only: one_line_append one_line_dec_nat)
  then show ?thesis by (simp add: dec_int_def)
qed

lemma status_table_lines: "\<forall>(k, s) \<in> set status_table. one_line s \<and> s \<noteq> [] \<and> 100 \<le> k \<and> k < 600"
  by (simp add: status_table_def one_line_def)

lemma get_status_str_line: "one_line (get_status_str stat) \<and> get_status_str stat \<noteq> []"
proof (cases "map_of status_table stat")
  case None
  then show ?thesis by (simp add: get_status_str_def one_line_def)
next
  case (Some s)
  then have "(stat, s) \<in> set status_table" by (rule map_of_SomeD)
  with Some status_table_lines show ?thesis by (auto simp: get_status_str_def)
qed

lemma status_line_one_line: "one_line (status_line stat)"
proof -
  have "one_line ''HTTP/1.1 ''" "one_line '' ''" by (simp_all add: one_line_def)
  with get_status_str_line [of stat] show ?thesis by (simp add: status_line_def del: append.simps)
qed

section \<open>Properties\<close>

text \<open>C25. \<open>antd_send_header\<close> on a socket in order sends exactly one status line, one line per
  entry of the header dictionary with \<open>Server\<close> set by the server (a value the caller stored
  under that name is replaced), one \<open>Set-Cookie\<close> line per non-null cookie in list order, and the empty line; each
  header name appears once.  It leaves the response record without its header and cookies, which it freed.\<close>

theorem send_header_bytes:
  assumes "tx_ready c" "dict_ok h"
  shows "\<exists>items. distinct (map fst items) \<and>
    map_of items = (dict_abs h)(''Server'' \<mapsto> Some SERVER_NAME) \<and>
    (case antd_send_header c \<lparr>rh_header = Some h, rh_cookie = cks, rh_status = stat\<rparr> of (c', res') \<Rightarrow>
      sent c' = sent c @ map byte_of (concat (map (\<lambda>l. l @ CRLF)
         (status_line stat # map header_entry items @
          map ((@) ''Set-Cookie: '') (List.map_filter id cks))) @ CRLF) \<and>
      rh_header res' = None \<and> rh_cookie res' = [])"
proof -
  let ?d = "dput h ''Server'' (Some SERVER_NAME)"
  let ?res = "\<lparr>rh_header = Some h, rh_cookie = cks, rh_status = stat\<rparr>"
  have "dict_ok ?d" using assms(2) by (simp add: dict_laws)
  note it = dict_items_keys [OF this]
  have "rh_header (snd (antd_send_header c ?res)) = None" "rh_cookie (snd (antd_send_header c ?res)) = []"
    by (simp_all add: antd_send_header_def Let_def)
  with it antd_send_header_ready(2) [OF assms(1), of ?res] assms(2) show ?thesis
    by (intro exI [of _ "dict_items ?d"]) (simp add: header_text_def dict_laws split_beta)
qed

theorem send_header_bytes_witness:
  "\<exists>items c' res'. antd_send_header demo_client
       \<lparr>rh_header = Some dict, rh_cookie = [None, Some ''sid=1''], rh_status = 404\<rparr> = (c', res') \<and>
     map_of items = [''Server'' \<mapsto> Some SERVER_NAME] \<and>
     sent c' = map byte_of (concat (map (\<lambda>l. l @ CRLF)
        (status_line 404 # map header_entry items @ [''Set-Cookie: sid=1''])) @ CRLF)"
  using send_header_bytes [OF demo_ready(2) dict_ok_dict, of 404 "[None, Some ''sid=1'']"]
  by (auto simp: map_filter_simps split_beta intro: prod.collapse [symmetric])

text \<open>C26. \<open>antd_error\<close> sends a complete answer: for every status code and message, the bytes
  on the wire are the status line, the three headers in the order the hash table keeps them, an empty line and the
  page, and the \<open>Content-Length\<close> announced is the exact length of the page.  The status line
  is one line with a non-empty reason, also for codes the server does not know.\<close>

theorem error_response_bytes:
  assumes "tx_ready c"
  shows "sent (antd_error c stat msg) =
      sent c @ map byte_of (status_line stat @ CRLF @ ''Server: Antd'' @ CRLF @
        ''Content-Length: '' @ dec_nat (length (HTML_TPL (get_status_str stat) msg)) @ CRLF @
        ''Content-Type: text/html; charset=utf-8'' @ CRLF @ CRLF @ HTML_TPL (get_status_str stat) msg) \<and>
    one_line (status_line stat) \<and> get_status_str stat \<noteq> [] \<and>
    digits_val 0 (dec_nat (length (HTML_TPL (get_status_str stat) msg))) =
      int (length (HTML_TPL (get_status_str stat) msg))"
proof -
  let ?body = "HTML_TPL (get_status_str stat) msg"
  let ?h = "dput (dput dict ''Content-Type'' (Some ''text/html; charset=utf-8''))
      ''Content-Length'' (Some (dec_nat (length ?body)))"
  let ?res = "\<lparr>rh_header = Some ?h, rh_cookie = [], rh_status = stat\<rparr>"
  have "sent (antd_error c stat msg) = sent (fst (antd_send_header c ?res)) @ map byte_of ?body"
    using antd_send_header_ready(1) [OF assms, of ?res]
    by (simp add: antd_error_def Let_def raw_sink.out_emit split_beta)
  moreover have "header_text ?res = [status_line stat, ''Server: Antd'',
      ''Content-Length: '' @ dec_nat (length ?body), ''Content-Type: text/html; charset=utf-8'']"
    by (simp add: header_text_def error_dict_items header_entry_def fmt_s_def SERVER_NAME_def
        map_filter_simps)
  ultimately show ?thesis
    using antd_send_header_ready(2) [OF assms, of ?res] status_line_one_line get_status_str_line
    by (simp add: digits_val_dec_nat)
qed

theorem error_response_bytes_witness:
  "sent (antd_error demo_client 404 ''x'') = map byte_of (status_line 404 @ CRLF @
     ''Server: Antd'' @ CRLF @ ''Content-Length: '' @ dec_nat 73 @ CRLF @
     ''Content-Type: text/html; charset=utf-8'' @ CRLF @ CRLF @
     ''<HTML><HEAD><TITLE>Not Found</TITLE></HEAD><BODY><h2>x</h2></BODY></HTML>'')"
proof -
  have st: "get_status_str 404 = ''Not Found''" by (simp add: get_status_str_def status_table_def)
  have body: "HTML_TPL ''Not Found'' ''x'' =
      ''<HTML><HEAD><TITLE>Not Found</TITLE></HEAD><BODY><h2>x</h2></BODY></HTML>''"
    by (simp add: HTML_TPL_def)
  have "length ''<HTML><HEAD><TITLE>Not Found</TITLE></HEAD><BODY><h2>x</h2></BODY></HTML>'' = 73"
    by simp
  with error_response_bytes [OF demo_ready(2), of 404 "''x''"] show ?thesis
    unfolding st body demo_client_simps append_Nil by metis
qed

end
