(* ===== verification/Scheduler.thy ===== *)
theory Scheduler
  imports Bst "HOL-Library.Monad_Syntax" "HOL-Library.Signed_Division"
begin

text \<open>
  The task scheduler of \<open>lib/scheduler.c\<close> with the overrides of \<open>httpd.c\<close>
  (\<open>antd_scheduler_validate_data\<close>, \<open>antd_task_data_id\<close>).

  Tasks live in a heap \<open>s_heap\<close> of addresses that are never reused; the pending tree, the queue
  of the workers and the workers themselves hold addresses, as in the code.  A result \<open>None\<close>
  is undefined behaviour: an address that was freed, a call through a null handle, or an
  overflow of the id counter.  Handlers and callbacks are code outside the scheduler; their names are of
  the type \<open>'h\<close>, and \<open>run h d\<close> is the task the call of \<open>h\<close> on data \<open>d\<close> returns, if any.

  The threads interleave at the granularity of the operations below, each of which the
  code runs under one lock or on memory no other thread holds.
\<close>

section \<open>Queues\<close>

text \<open>What the scheduler relies on in its singly linked queues.\<close>

locale fifo =
  fixes enq :: "'q \<Rightarrow> 'a \<Rightarrow> 'q"
    and deq :: "'q \<Rightarrow> 'a option \<times> 'q"
    and items :: "'q \<Rightarrow> 'a list"
  assumes items_enq: "items (enq q x) = items q @ [x]"
    and deq_empty: "items q = [] \<Longrightarrow> deq q = (None, q)"
    and deq_cons: "items q = x # xs \<Longrightarrow> \<exists>q'. deq q = (Some x, q') \<and> items q' = xs"
begin

lemma items_enq_all: "items (foldl enq q xs) = items q @ xs"
  by (induction xs arbitrary: q) (auto simp: items_enq)

lemma deq_result: "fst (deq q) = (case items q of [] \<Rightarrow> None | x # _ \<Rightarrow> Some x)"
  using deq_empty [of q] deq_cons [of q] by (cases "items q") fastforce+

lemma deq_rest: "items (snd (deq q)) = tl (items q)"
  using deq_empty [of q] deq_cons [of q] by (cases "items q") fastforce+

end

fun enqueue :: "'a list \<Rightarrow> 'a \<Rightarrow> 'a list" where
  "enqueue [] x = [x]"
| "enqueue (it # q) x = it # enqueue q x"

fun dequeue :: "'a list \<Rightarrow> 'a option \<times> 'a list" where
  "dequeue [] = (None, [])"
| "dequeue (it # q) = (Some it, q)"

lemma enqueue_append [simp]: "enqueue q x = q @ [x]"
  by (induction q) auto

interpretation queue: fifo enqueue dequeue "\<lambda>q. q"
  by unfold_locales auto

section \<open>Tasks\<close>

definition TASK_EVT_ALWAY_ON :: u32 where "TASK_EVT_ALWAY_ON = 1"
definition TASK_EVT_ON_READABLE :: u32 where "TASK_EVT_ON_READABLE = 2"
definition TASK_EVT_ON_WRITABLE :: u32 where "TASK_EVT_ON_WRITABLE = 4"
definition TASK_EVT_ON_TIMEOUT :: u32 where "TASK_EVT_ON_TIMEOUT = 8"

definition has_flag :: "u32 \<Rightarrow> u32 \<Rightarrow> bool" where
  "has_flag flags f \<longleftrightarrow> flags AND f \<noteq> 0"

type_synonym ptr = nat

text \<open>\<open>antd_task_evt_item_t\<close>; the \<open>timeval\<close> stamp is in microseconds.\<close>

record evt =
  ev_flags :: u32
  ev_fd :: int
  ev_stamp :: int
  ev_timeout :: int
  ev_task :: ptr

text \<open>\<open>antd_task_t\<close>; a callback chain and an event list are lists, NULL being the empty one.\<close>

record ('h, 'd) task =
  t_id :: int
  t_stamp :: int
  t_access :: int
  t_handle :: "'h option"
  t_callback :: "'h list"
  t_events :: "evt list"
  t_data :: 'd

record ('h, 'd) sched =
  s_heap :: "ptr \<Rightarrow> ('h, 'd) task option"
  s_next :: ptr
  task_queue :: "ptr bst"
  workers_queue :: "ptr list"
  s_status :: bool
  n_workers :: int
  pending_task :: int
  id_allocator :: int
  scheduler_sem :: nat
  worker_sem :: nat
  s_usec :: int
  s_timeout :: int
  s_dead :: "'d list"

definition s_time :: "('h, 'd) sched \<Rightarrow> int" where
  "s_time s = s_usec s div 1000000"

definition store :: "ptr \<Rightarrow> ('h, 'd) task \<Rightarrow> ('h, 'd) sched \<Rightarrow> ('h, 'd) sched" where
  "store p t s = s\<lparr>s_heap := (s_heap s)(p := Some t)\<rparr>"

text \<open>The events bound to a task point back to it.\<close>

definition own_events :: "ptr \<Rightarrow> ('h, 'd) task \<Rightarrow> ('h, 'd) task" where
  "own_events p t = t\<lparr>t_events := map (\<lambda>e. e\<lparr>ev_task := p\<rparr>) (t_events t)\<rparr>"

text \<open>Allocation of a task with the events its creator binds to it.\<close>

definition new_task :: "('h, 'd) task \<Rightarrow> ('h, 'd) sched \<Rightarrow> ptr \<times> ('h, 'd) sched" where
  "new_task t s =
     (let p = s_next s in (p, (store p (own_events p t) s)\<lparr>s_next := Suc p\<rparr>))"

definition callback_of :: "'h option \<Rightarrow> 'h list" where
  "callback_of cb = (case cb of None \<Rightarrow> [] | Some f \<Rightarrow> [f])"

fun enqueue_callback :: "'h list \<Rightarrow> 'h list \<Rightarrow> 'h list" where
  "enqueue_callback [] el = []"
| "enqueue_callback [cb] el = cb # el"
| "enqueue_callback (cb # c2 # cbs) el = cb # enqueue_callback (c2 # cbs) el"

lemma enqueue_callback_append [simp]: "cb \<noteq> [] \<Longrightarrow> enqueue_callback cb el = cb @ el"
  by (induction cb el rule: enqueue_callback.induct) auto

text \<open>\<open>destroy_task\<close>: freeing what was freed is an error.\<close>

definition destroy_task :: "ptr \<Rightarrow> ('h, 'd) sched \<Rightarrow> ('h, 'd) sched option" where
  "destroy_task p s =
     (case s_heap s p of None \<Rightarrow> None | Some _ \<Rightarrow> Some (s\<lparr>s_heap := (s_heap s)(p := None)\<rparr>))"

section \<open>Task ids\<close>

definition INT_MAX :: int where "INT_MAX = 2147483647"

text \<open>The loop of \<open>antd_scheduler_next_id\<close>.\<close>

function next_id_loop :: "int \<Rightarrow> ('h, 'd) sched \<Rightarrow> (int \<times> ('h, 'd) sched) option" where
  "next_id_loop i s =
     (if bst_find (task_queue s) i \<noteq> BNull then
        (if id_allocator s \<ge> INT_MAX then None
         else next_id_loop (id_allocator s + 1) (s\<lparr>id_allocator := id_allocator s + 1\<rparr>))
      else Some (i, s))"
  by pat_completeness auto
termination
  by (relation "measure (\<lambda>(i, s). nat (INT_MAX - id_allocator s))") auto

declare next_id_loop.simps [simp del]

definition antd_scheduler_next_id :: "int \<Rightarrow> ('h, 'd) sched \<Rightarrow> (int \<times> ('h, 'd) sched) option" where
  "antd_scheduler_next_id input s =
     (let s0 = (if id_allocator s < 0 then s\<lparr>id_allocator := 0\<rparr> else s) in
      if input = 0 then
        (if id_allocator s0 \<ge> INT_MAX then None
         else let s1 = s0\<lparr>id_allocator := id_allocator s0 + 1\<rparr> in next_id_loop (id_allocator s1) s1)
      else next_id_loop input s0)"

text \<open>\<open>antd_task_data_id\<close>: the socket of the request, or 0 when there is no request.\<close>

definition antd_task_data_id ::
  "('d \<Rightarrow> int option) \<Rightarrow> 'd \<Rightarrow> ('h, 'd) sched \<Rightarrow> (int \<times> ('h, 'd) sched) option" where
  "antd_task_data_id sock_of d s =
     (case sock_of d of None \<Rightarrow> Some (0, s) | Some fd \<Rightarrow> antd_scheduler_next_id fd s)"

definition antd_create_task ::
  "('d \<Rightarrow> int option) \<Rightarrow> 'h option \<Rightarrow> 'd \<Rightarrow> 'h option \<Rightarrow> int \<Rightarrow> ('h, 'd) sched
    \<Rightarrow> (('h, 'd) task \<times> ('h, 'd) sched) option" where
  "antd_create_task sock_of h d cb atime s =
     do {
       (i, s1) \<leftarrow> antd_task_data_id sock_of d s;
       Some (\<lparr>t_id = i, t_stamp = s_time s, t_access = atime, t_handle = h,
              t_callback = callback_of cb, t_events = [], t_data = d\<rparr>, s1)
     }"

definition antd_task_bind_event ::
  "ptr \<Rightarrow> int \<Rightarrow> int \<Rightarrow> u32 \<Rightarrow> ('h, 'd) sched \<Rightarrow> ('h, 'd) sched option" where
  "antd_task_bind_event p fd timeout flags s =
     do {
       t \<leftarrow> s_heap s p;
       let eit = \<lparr>ev_flags = flags, ev_fd = fd, ev_stamp = s_usec s, ev_timeout = timeout, ev_task = p\<rparr>;
       Some (store p (t\<lparr>t_events := enqueue (t_events t) eit\<rparr>) s)
     }"

section \<open>Adding and running tasks\<close>

definition antd_scheduler_add_task :: "ptr \<Rightarrow> ('h, 'd) sched \<Rightarrow> ('h, 'd) sched option" where
  "antd_scheduler_add_task p s =
     do {
       t \<leftarrow> s_heap s p;
       (i, s1) \<leftarrow> (if t_id t = 0 then antd_scheduler_next_id (t_id t) s else Some (t_id t, s));
       let s2 = store p (t\<lparr>t_id := i\<rparr>) s1;
       let s3 = s2\<lparr>task_queue := bst_insert (task_queue s2) i (Some p)\<rparr>;
       Some (s3\<lparr>pending_task := pending_task s3 + 1, scheduler_sem := scheduler_sem s3 + 1\<rparr>)
     }"

definition execute_callback :: "ptr \<Rightarrow> ('h, 'd) sched \<Rightarrow> ('h, 'd) sched option" where
  "execute_callback p s =
     do {
       t \<leftarrow> s_heap s p;
       (case t_callback t of
          [] \<Rightarrow> destroy_task p s
        | cb # rest \<Rightarrow>
            antd_scheduler_add_task p (store p (t\<lparr>t_handle := Some cb, t_callback := rest\<rparr>) s))
     }"

text \<open>\<open>antd_execute_task\<close>.  The task the handler returns is a new one.\<close>

definition antd_execute_task ::
  "('h \<Rightarrow> 'd \<Rightarrow> ('h, 'd) task option) \<Rightarrow> ptr \<Rightarrow> ('h, 'd) sched \<Rightarrow> ('h, 'd) sched option" where
  "antd_execute_task run p s =
     do {
       t \<leftarrow> s_heap s p;
       h \<leftarrow> t_handle t;
       (case run h (t_data t) of
          None \<Rightarrow> execute_callback p s
        | Some rt \<Rightarrow>
            let (rp, s1) = new_task rt s;
                ot = own_events rp rt;
                s2 = (if t_callback t \<noteq> [] then
                        store p (t\<lparr>t_callback := []\<rparr>)
                         (store rp (ot\<lparr>t_callback :=
                            (if t_callback rt \<noteq> [] then enqueue_callback (t_callback rt) (t_callback t)
                             else t_callback t)\<rparr>) s1)
                      else s1)
            in if t_handle rt = None then
                 do { s3 \<leftarrow> execute_callback rp s2; destroy_task p s3 }
               else
                 do { s3 \<leftarrow> antd_scheduler_add_task rp s2; destroy_task p s3 })
     }"

definition antd_scheduler_busy :: "('h, 'd) sched \<Rightarrow> bool" where
  "antd_scheduler_busy s \<longleftrightarrow> pending_task s \<noteq> 0"

text \<open>\<open>antd_scheduler_validate_data\<close>; \<open>s_timeout\<close> is \<open>scheduler_timeout\<close> of the
  configuration.\<close>

definition validate_data :: "('h, 'd) sched \<Rightarrow> ('h, 'd) task \<Rightarrow> bool" where
  "validate_data s t \<longleftrightarrow> \<not> s_time s - t_access t > s_timeout s"

definition antd_task_schedule ::
  "('h \<Rightarrow> 'd \<Rightarrow> ('h, 'd) task option) \<Rightarrow> ptr \<Rightarrow> ('h, 'd) sched \<Rightarrow> ('h, 'd) sched option" where
  "antd_task_schedule run p s =
     do {
       let s1 = s\<lparr>pending_task := pending_task s - 1\<rparr>;
       t \<leftarrow> s_heap s1 p;
       (if \<not> validate_data s1 t then
          destroy_task p (s1\<lparr>s_dead := s_dead s1 @ [t_data t]\<rparr>)
        else if n_workers s1 \<le> 0 then antd_execute_task run p s1
        else Some (s1\<lparr>workers_queue := enqueue (workers_queue s1) p, worker_sem := worker_sem s1 + 1\<rparr>))
     }"

text \<open>\<open>antd_deploy_task\<close>\<close>

definition antd_deploy_task ::
  "('h \<Rightarrow> 'd \<Rightarrow> ('h, 'd) task option) \<Rightarrow> int \<Rightarrow> ptr option \<Rightarrow> ('h, 'd) sched \<Rightarrow> ('h, 'd) sched option" where
  "antd_deploy_task run key d s =
     (case d of
        None \<Rightarrow> Some s
      | Some p \<Rightarrow>
          do {
            t \<leftarrow> s_heap s p;
            antd_task_schedule run p (s\<lparr>task_queue := bst_delete (task_queue s) (t_id t)\<rparr>)
          })"

section \<open>The event loop\<close>

text \<open>The lists \<open>task_event_collect\<close> builds: the tasks to run, the events to poll and their
  number.\<close>

type_synonym collected = "ptr bst \<times> evt bst \<times> int"

text \<open>\<open>(int)(((now.tv_sec - stamp.tv_sec) * 1000000 + now.tv_usec - stamp.tv_usec) / 1000)\<close>\<close>

definition elapsed_ms :: "int \<Rightarrow> int \<Rightarrow> int" where
  "elapsed_ms now stamp = sint (word_of_int ((now - stamp) sdiv 1000) :: u32)"

fun collect_events :: "('h, 'd) sched \<Rightarrow> ptr \<Rightarrow> ('h, 'd) task \<Rightarrow> evt list \<Rightarrow> collected \<Rightarrow> collected" where
  "collect_events s p task [] acc = acc"
| "collect_events s p task (e # it) (exec_list, poll_list, pollsize) =
     collect_events s p task it
       (if has_flag (ev_flags e) TASK_EVT_ALWAY_ON \<or> \<not> validate_data s task then
          (bst_insert exec_list (t_id task) (Some p), poll_list, pollsize)
        else if has_flag (ev_flags e) TASK_EVT_ON_TIMEOUT then
          (if elapsed_ms (s_usec s) (ev_stamp e) \<ge> ev_timeout e then
             (bst_insert exec_list (t_id task) (Some p), poll_list, pollsize)
           else (exec_list, poll_list, pollsize))
        else (exec_list, bst_insert poll_list pollsize (Some e), pollsize + 1))"

definition task_event_collect ::
  "('h, 'd) sched \<Rightarrow> int \<Rightarrow> ptr option \<Rightarrow> collected option \<Rightarrow> collected option" where
  "task_event_collect s key d st =
     do {
       (exec_list, poll_list, pollsize) \<leftarrow> st;
       p \<leftarrow> d;
       task \<leftarrow> s_heap s p;
       Some (if t_events task = [] then (bst_insert exec_list (t_id task) (Some p), poll_list, pollsize)
             else collect_events s p task (t_events task) (exec_list, poll_list, pollsize))
     }"

text \<open>\<open>struct pollfd\<close>: what is asked for, and what \<open>poll\<close> reports; \<open>re_err\<close> stands for
  \<open>POLLERR\<close> or \<open>POLLHUP\<close>.\<close>

record pollfd =
  pf_fd :: int
  pf_in :: bool
  pf_out :: bool

record revents =
  re_in :: bool
  re_out :: bool
  re_err :: bool

definition task_polls_collect :: "int \<Rightarrow> evt option \<Rightarrow> pollfd list \<Rightarrow> pollfd list" where
  "task_polls_collect key d pfds =
     (case d of
        None \<Rightarrow> pfds
      | Some it \<Rightarrow>
          let i = nat key; pf = pfds ! i in
          pfds[i := \<lparr>pf_fd = ev_fd it,
                     pf_in = (pf_in pf \<or> has_flag (ev_flags it) TASK_EVT_ON_READABLE),
                     pf_out = (pf_out pf \<or> has_flag (ev_flags it) TASK_EVT_ON_WRITABLE)\<rparr>])"

definition poll_request :: "evt bst \<Rightarrow> int \<Rightarrow> pollfd list" where
  "poll_request poll_list pollsize =
     bst_for_each poll_list task_polls_collect
       (replicate (nat pollsize) \<lparr>pf_fd = 0, pf_in = False, pf_out = False\<rparr>)"

text \<open>One turn of the loop over the polled descriptors.\<close>

definition poll_event ::
  "evt bst \<Rightarrow> revents list \<Rightarrow> nat \<Rightarrow> ptr bst \<times> ('h, 'd) sched \<Rightarrow> (ptr bst \<times> ('h, 'd) sched) option" where
  "poll_event poll_list revs i = (\<lambda>(scheduled_list, s).
     case bst_find poll_list (int i) of
       BNode k (Some eit) l r \<Rightarrow>
         if has_flag (ev_flags eit) TASK_EVT_ON_READABLE \<and> re_in (revs ! i) \<or>
            has_flag (ev_flags eit) TASK_EVT_ON_WRITABLE \<and> re_out (revs ! i) then
           do {
             t \<leftarrow> s_heap s (ev_task eit);
             Some (if bst_find (task_queue s) (t_id t) \<noteq> BNull
                   then bst_insert scheduled_list (t_id t) (Some (ev_task eit)) else scheduled_list, s)
           }
         else if re_err (revs ! i) then
           do {
             t \<leftarrow> s_heap s (ev_task eit);
             Some (bst_insert scheduled_list (t_id t) (Some (ev_task eit)),
                   store (ev_task eit) (t\<lparr>t_access := 0, t_handle := None\<rparr>) s)
           }
         else Some (scheduled_list, s)
     | _ \<Rightarrow> Some (scheduled_list, s))"

fun poll_events ::
  "evt bst \<Rightarrow> revents list \<Rightarrow> nat list \<Rightarrow> ptr bst \<times> ('h, 'd) sched \<Rightarrow> (ptr bst \<times> ('h, 'd) sched) option" where
  "poll_events poll_list revs [] st = Some st"
| "poll_events poll_list revs (i # is) st =
     do { st' \<leftarrow> poll_event poll_list revs i st; poll_events poll_list revs is st' }"

definition collect_phase :: "('h, 'd) sched \<Rightarrow> collected option" where
  "collect_phase s = bst_for_each (task_queue s) (task_event_collect s) (Some (BNull, BNull, 0))"

text \<open>The \<open>if(pollsize > 0)\<close> part.  \<open>revs\<close> is what \<open>poll\<close> answers: \<open>None\<close> for an error
  or a timeout, otherwise one result per descriptor, as a function of what was asked.\<close>

definition poll_phase ::
  "(pollfd list \<Rightarrow> revents list option) \<Rightarrow> collected \<Rightarrow> ('h, 'd) sched
    \<Rightarrow> (ptr bst \<times> ('h, 'd) sched) option" where
  "poll_phase poll = (\<lambda>(scheduled_list, poll_list, pollsize) s.
     if pollsize > 0 then
       (case poll (poll_request poll_list pollsize) of
          None \<Rightarrow> Some (scheduled_list, s)
        | Some revs \<Rightarrow> poll_events poll_list revs [0..<nat pollsize] (scheduled_list, s))
     else Some (scheduled_list, s))"

definition deploy_phase ::
  "('h \<Rightarrow> 'd \<Rightarrow> ('h, 'd) task option) \<Rightarrow> ptr bst \<Rightarrow> ('h, 'd) sched \<Rightarrow> ('h, 'd) sched option" where
  "deploy_phase run scheduled_list s =
     bst_for_each scheduled_list
       (\<lambda>k d st. do { s1 \<leftarrow> st; antd_deploy_task run k d s1 }) (Some s)"

text \<open>One turn of \<open>antd_scheduler_wait\<close>; the flag says that the thread then waits on the
  semaphore because nothing is pending.\<close>

definition antd_scheduler_wait ::
  "('h \<Rightarrow> 'd \<Rightarrow> ('h, 'd) task option) \<Rightarrow> (pollfd list \<Rightarrow> revents list option)
    \<Rightarrow> ('h, 'd) sched \<Rightarrow> (bool \<times> ('h, 'd) sched) option" where
  "antd_scheduler_wait run poll s =
     do {
       c \<leftarrow> collect_phase s;
       (scheduled_list, s1) \<leftarrow> poll_phase poll c s;
       s2 \<leftarrow> deploy_phase run scheduled_list s1;
       Some (task_queue s2 = BNull, s2)
     }"

text \<open>A turn of the loop of a worker (\<open>work\<close>) in two steps, between which other threads may
  run: it takes a task from the queue, or none and sleeps; then it executes it.\<close>

definition work_take :: "('h, 'd) sched \<Rightarrow> ptr option \<times> ('h, 'd) sched" where
  "work_take s = (let (it, q) = dequeue (workers_queue s) in (it, s\<lparr>workers_queue := q\<rparr>))"

definition antd_scheduler_init :: "int \<Rightarrow> int \<Rightarrow> int \<Rightarrow> ('h, 'd) sched" where
  "antd_scheduler_init n timeout now =
     \<lparr>s_heap = \<lambda>_. None, s_next = 0, task_queue = BNull, workers_queue = [], s_status = True,
      n_workers = n, pending_task = 0, id_allocator = 0, scheduler_sem = 0, worker_sem = 0,
      s_usec = now, s_timeout = timeout, s_dead = []\<rparr>"

section \<open>The invariant\<close>

text \<open>
  \<open>sched_inv s D X\<close>: every live task is in exactly one place (pending, queued for the workers,
  or one of the detached tasks \<open>D\<close> that a thread works on), so none is lost and none is held
  twice; ids are unique; the counter is right; every task has a handle, except pending ones whose id is in
  \<open>X\<close> and which \<open>poll\<close> reported dead.
\<close>

definition queue_inv :: "('h, 'd) sched \<Rightarrow> bool" where
  "queue_inv s \<longleftrightarrow> bst_ok (task_queue s) \<and>
     pending_task s = int (card (bst_keys (task_queue s))) \<and>
     (\<forall>k d. bst_abs (task_queue s) k = Some d \<longrightarrow>
        (\<exists>p t. d = Some p \<and> s_heap s p = Some t \<and> t_id t = k))"

definition heap_inv :: "('h, 'd) sched \<Rightarrow> ptr list \<Rightarrow> int set \<Rightarrow> bool" where
  "heap_inv s W X \<longleftrightarrow> distinct W \<and>
     (\<forall>p \<in> set W. \<exists>t. s_heap s p = Some t \<and> bst_abs (task_queue s) (t_id t) = None \<and> t_handle t \<noteq> None) \<and>
     (\<forall>p t. s_heap s p = Some t \<longrightarrow>
        p < s_next s \<and> (p \<in> set W \<or> bst_abs (task_queue s) (t_id t) = Some (Some p)) \<and>
        (t_handle t = None \<longrightarrow> t_id t \<in> X \<and> t_access t = 0) \<and> (\<forall>e \<in> set (t_events t). ev_task e = p)) \<and>
     (\<forall>p p' t t'. s_heap s p = Some t \<longrightarrow> s_heap s p' = Some t' \<longrightarrow> t_id t = t_id t' \<longrightarrow> p = p')"

definition sched_inv :: "('h, 'd) sched \<Rightarrow> ptr list \<Rightarrow> int set \<Rightarrow> bool" where
  "sched_inv s D X \<longleftrightarrow> queue_inv s \<and> heap_inv s (workers_queue s @ D) X"

lemma queue_invD:
  assumes "queue_inv s" "bst_abs (task_queue s) k = Some d"
  obtains p t where "d = Some p" "s_heap s p = Some t" "t_id t = k"
  using assms unfolding queue_inv_def by blast

lemma heap_invD:
  assumes "heap_inv s W X" "s_heap s p = Some t"
  shows "p < s_next s" "p \<in> set W \<or> bst_abs (task_queue s) (t_id t) = Some (Some p)"
    "t_handle t = None \<Longrightarrow> t_id t \<in> X \<and> t_access t = 0" "e \<in> set (t_events t) \<Longrightarrow> ev_task e = p"
    "s_heap s p' = Some t' \<Longrightarrow> t_id t = t_id t' \<Longrightarrow> p = p'"
  using assms unfolding heap_inv_def by blast+

lemma heap_inv_detached:
  assumes "heap_inv s W X" "p \<in> set W"
  obtains t where "s_heap s p = Some t" "bst_abs (task_queue s) (t_id t) = None" "t_handle t \<noteq> None"
  using assms unfolding heap_inv_def by blast

text \<open>Only the queue, the heap and the counter matter.\<close>

lemma sched_inv_cong:
  assumes "s_heap s' = s_heap s" "task_queue s' = task_queue s" "workers_queue s' = workers_queue s"
    "pending_task s' = pending_task s" "s_next s \<le> s_next s'" "sched_inv s D X"
  shows "sched_inv s' D X"
  using assms by (fastforce simp: sched_inv_def queue_inv_def heap_inv_def)

lemma sched_inv_perm:
  assumes "sched_inv s D X" "workers_queue s' @ D' = W'" "distinct W'"
    "set W' = set (workers_queue s @ D)"
    "s_heap s' = s_heap s" "task_queue s' = task_queue s"
    "pending_task s' = pending_task s" "s_next s' = s_next s"
  shows "sched_inv s' D' X"
  using assms by (simp add: sched_inv_def queue_inv_def heap_inv_def)

lemma card_keys_insert:
  "bst_ok q \<Longrightarrow> bst_abs q k = None \<Longrightarrow> int (card (bst_keys (bst_insert q k d))) = int (card (bst_keys q)) + 1"
  by (simp add: bst_abs_keys)

lemma card_keys_delete:
  "bst_ok q \<Longrightarrow> bst_abs q k = Some d \<Longrightarrow> int (card (bst_keys (bst_delete q k))) = int (card (bst_keys q)) - 1"
  using bst_abs_keys [of q k] card_Diff_singleton [of k "bst_keys q"] card_gt_0_iff [of "bst_keys q"]
  by (auto simp: bst_delete_ok_abs Suc_leI of_nat_diff)

lemma queue_invI:
  assumes "bst_ok (task_queue s)" "pending_task s = int (card (bst_keys (task_queue s)))"
    "\<And>k d. bst_abs (task_queue s) k = Some d \<Longrightarrow> \<exists>p t. d = Some p \<and> s_heap s p = Some t \<and> t_id t = k"
  shows "queue_inv s"
  using assms unfolding queue_inv_def by blast

lemma heap_invI:
  assumes "distinct W"
    "\<And>p. p \<in> set W \<Longrightarrow>
       \<exists>t. s_heap s p = Some t \<and> bst_abs (task_queue s) (t_id t) = None \<and> t_handle t \<noteq> None"
    "\<And>p t. s_heap s p = Some t \<Longrightarrow>
       p < s_next s \<and> (p \<in> set W \<or> bst_abs (task_queue s) (t_id t) = Some (Some p)) \<and>
       (t_handle t = None \<longrightarrow> t_id t \<in> X \<and> t_access t = 0) \<and> (\<forall>e \<in> set (t_events t). ev_task e = p)"
    "\<And>p p' t t'. s_heap s p = Some t \<Longrightarrow> s_heap s p' = Some t' \<Longrightarrow> t_id t = t_id t' \<Longrightarrow> p = p'"
  shows "heap_inv s W X"
  using assms unfolding heap_inv_def by blast

lemma heap_invE:
  assumes "heap_inv s W X"
  obtains "distinct W"
    "\<And>p. p \<in> set W \<Longrightarrow>
       \<exists>t. s_heap s p = Some t \<and> bst_abs (task_queue s) (t_id t) = None \<and> t_handle t \<noteq> None"
    "\<And>p t. s_heap s p = Some t \<Longrightarrow>
       p < s_next s \<and> (p \<in> set W \<or> bst_abs (task_queue s) (t_id t) = Some (Some p)) \<and>
       (t_handle t = None \<longrightarrow> t_id t \<in> X \<and> t_access t = 0) \<and> (\<forall>e \<in> set (t_events t). ev_task e = p)"
    "\<And>p p' t t'. s_heap s p = Some t \<Longrightarrow> s_heap s p' = Some t' \<Longrightarrow> t_id t = t_id t' \<Longrightarrow> p = p'"
  using assms unfolding heap_inv_def by blast

lemma sched_inv_drop:
  assumes "sched_inv s (p # D) X"
  shows "sched_inv (s\<lparr>s_heap := (s_heap s)(p := None)\<rparr>) D X"
    (is "sched_inv ?s' D X")
proof -
  have inv: "queue_inv s" "heap_inv s (workers_queue s @ p # D) X"
    using assms(1) by (simp_all add: sched_inv_def)
  obtain t where t: "s_heap s p = Some t" "bst_abs (task_queue s) (t_id t) = None"
    using heap_inv_detached [OF inv(2), of p] by auto
  have "queue_inv ?s'"
  proof (rule queue_invI)
    fix k d assume "bst_abs (task_queue ?s') k = Some d"
    then have d: "bst_abs (task_queue s) k = Some d" by simp
    then obtain p' t' where p': "d = Some p'" "s_heap s p' = Some t'" "t_id t' = k"
      by (rule queue_invD [OF inv(1)])
    with t d have "p' \<noteq> p" by auto
    with p' show "\<exists>p t. d = Some p \<and> s_heap ?s' p = Some t \<and> t_id t = k" by auto
  qed (use inv(1) in \<open>simp_all add: queue_inv_def\<close>)
  moreover have "heap_inv ?s' (workers_queue s @ D) X"
  proof (rule heap_invE [OF inv(2)], rule heap_invI, goal_cases)
    case 1 then show ?case by simp
  next
    case (2 q) from 2(2) [of q] 2(1,5) show ?case by auto
  next
    case (3 q u) from 3(3) [of q u] 3(5) show ?case by (auto split: if_splits)
  next
    case (4 q q' u u') from 4(4) [of q u q' u'] 4(5-7) show ?case by (auto split: if_splits)
  qed
  ultimately show ?thesis by (simp add: sched_inv_def)
qed

lemma sched_inv_pend:
  assumes "sched_inv s D X" "s_heap s p = None" "p < s_next s" "t_handle t \<noteq> None"
    "\<forall>e \<in> set (t_events t). ev_task e = p" "\<And>p' t'. s_heap s p' = Some t' \<Longrightarrow> t_id t' \<noteq> t_id t"
  shows "sched_inv (s\<lparr>s_heap := (s_heap s)(p := Some t), task_queue := bst_insert (task_queue s) (t_id t) (Some p),
      pending_task := pending_task s + 1, scheduler_sem := n\<rparr>) D X"
    (is "sched_inv ?s' D X")
proof -
  have inv: "queue_inv s" "heap_inv s (workers_queue s @ D) X"
    using assms(1) by (simp_all add: sched_inv_def)
  have new: "bst_abs (task_queue s) (t_id t) = None"
    using inv(1) assms(6) by (metis not_None_eq queue_invD)
  have ok: "bst_ok (task_queue s)" using inv(1) by (simp add: queue_inv_def)
  have "queue_inv ?s'"
  proof (rule queue_invI)
    fix k d assume "bst_abs (task_queue ?s') k = Some d"
    then consider "k = t_id t" "d = Some p" | "k \<noteq> t_id t" "bst_abs (task_queue s) k = Some d"
      by (auto simp: bst_abs_insert split: if_splits)
    then show "\<exists>p t. d = Some p \<and> s_heap ?s' p = Some t \<and> t_id t = k"
    proof cases
      case 2
      then obtain p' t' where "d = Some p'" "s_heap s p' = Some t'" "t_id t' = k"
        using queue_invD [OF inv(1)] by metis
      with assms(2) show ?thesis by auto
    qed auto
  qed (use inv(1) ok new card_keys_insert [OF ok new] in
      \<open>simp_all add: queue_inv_def bst_ok_insert del: bst_insert_keys\<close>)
  moreover have W: "p \<notin> set (workers_queue s @ D)"
    using heap_inv_detached [OF inv(2), of p] assms(2) by auto
  have "heap_inv ?s' (workers_queue s @ D) X"
  proof (rule heap_invE [OF inv(2)], rule heap_invI, goal_cases)
    case 1 then show ?case by simp
  next
    case (2 q) 
    then obtain u where u: "s_heap s q = Some u" "bst_abs (task_queue s) (t_id u) = None" "t_handle u \<noteq> None"
      by blast
    with assms(6) [OF u(1)] 2(5) W show ?case by (auto simp: bst_abs_insert)
  next
    case (3 q u)
    show ?case
    proof (cases "q = p")
      case True
      with 3(5) assms(3-5) show ?thesis by (auto simp: bst_abs_insert)
    next
      case False
      with 3(5) have u: "s_heap s q = Some u" by simp
      with 3(3) [OF u] assms(6) [OF u] show ?thesis by (auto simp: bst_abs_insert)
    qed
  next
    case (4 q q' u u') 
    from 4(4) [of q u q' u'] 4(5-7) assms(6) show ?case by (auto split: if_splits)
  qed
  ultimately show ?thesis by (simp add: sched_inv_def)
qed

text \<open>Both ways to leave the pending tree.\<close>

lemma queue_delete:
  assumes "queue_inv s" "bst_abs (task_queue s) k = Some (Some p)"
  shows "bst_ok (bst_delete (task_queue s) k)"
    "pending_task s - 1 = int (card (bst_keys (bst_delete (task_queue s) k)))"
    "bst_abs (bst_delete (task_queue s) k) = (bst_abs (task_queue s))(k := None)"
  using assms card_keys_delete [of "task_queue s" k "Some p"]
  by (simp_all add: queue_inv_def bst_delete_ok_abs)

lemma sched_inv_expire:
  assumes "sched_inv s D X" "bst_abs (task_queue s) k = Some (Some p)"
  shows "sched_inv (s\<lparr>pending_task := pending_task s - 1, task_queue := bst_delete (task_queue s) k,
      s_dead := dd, s_heap := (s_heap s)(p := None)\<rparr>) D (X - {k})"
    (is "sched_inv ?s' D _")
proof -
  have inv: "queue_inv s" "heap_inv s (workers_queue s @ D) X"
    using assms(1) by (simp_all add: sched_inv_def)
  obtain t where t: "s_heap s p = Some t" "t_id t = k" using queue_invD [OF inv(1) assms(2)] by auto
  note del = queue_delete [OF inv(1) assms(2)]
  have off: "p' \<noteq> p \<Longrightarrow> s_heap s p' = Some t' \<Longrightarrow> t_id t' \<noteq> k" for p' t'
    using heap_invD(5) [OF inv(2) t(1)] t(2) by metis
  have "queue_inv ?s'"
  proof (rule queue_invI)
    fix k' d assume "bst_abs (task_queue ?s') k' = Some d"
    then have k': "k' \<noteq> k" "bst_abs (task_queue s) k' = Some d"
      using del(3) by (auto split: if_splits)
    then obtain p' t' where "d = Some p'" "s_heap s p' = Some t'" "t_id t' = k'"
      using queue_invD [OF inv(1)] by metis
    with k' t show "\<exists>p t. d = Some p \<and> s_heap ?s' p = Some t \<and> t_id t = k'" by auto
  qed (use del in simp_all)
  moreover have W: "p \<notin> set (workers_queue s @ D)"
    using heap_inv_detached [OF inv(2), of p] t assms(2) by auto
  have "heap_inv ?s' (workers_queue s @ D) (X - {k})"
  proof (rule heap_invE [OF inv(2)], rule heap_invI, goal_cases)
    case 1 then show ?case by simp
  next
    case (2 q) from 2(2) [OF 2(5)] 2(5) W del(3) show ?case by auto
  next
    case (3 q u)
    then have u: "q \<noteq> p" "s_heap s q = Some u" by (auto split: if_splits)
    with 3(3) [OF u(2)] off [OF u] del(3) show ?case by auto
  next
    case (4 q q' u u') from 4(4) [of q u q' u'] 4(5-7) show ?case by (auto split: if_splits)
  qed
  ultimately show ?thesis by (simp add: sched_inv_def)
qed

lemma sched_inv_detach:
  assumes "sched_inv s D X" "bst_abs (task_queue s) k = Some (Some p)"
    "s_heap s p = Some t" "t_handle t \<noteq> None"
  shows "sched_inv (s\<lparr>pending_task := pending_task s - 1, task_queue := bst_delete (task_queue s) k\<rparr>)
    (p # D) (X - {k})"
    (is "sched_inv ?s' _ _")
proof -
  have inv: "queue_inv s" "heap_inv s (workers_queue s @ D) X"
    using assms(1) by (simp_all add: sched_inv_def)
  obtain p' t' where "Some p = Some p'" "s_heap s p' = Some t'" "t_id t' = k"
    by (rule queue_invD [OF inv(1) assms(2)])
  with assms(3) have t: "t_id t = k" by simp
  note del = queue_delete [OF inv(1) assms(2)]
  have off: "p' \<noteq> p \<Longrightarrow> s_heap s p' = Some t' \<Longrightarrow> t_id t' \<noteq> k" for p' t'
    using heap_invD(5) [OF inv(2) assms(3)] t by metis
  have "queue_inv ?s'"
  proof (rule queue_invI)
    fix k' d assume "bst_abs (task_queue ?s') k' = Some d"
    then have "bst_abs (task_queue s) k' = Some d" using del(3) by (auto split: if_splits)
    then show "\<exists>p t. d = Some p \<and> s_heap ?s' p = Some t \<and> t_id t = k'"
      using queue_invD [OF inv(1)] by fastforce
  qed (use del in simp_all)
  moreover have W: "p \<notin> set (workers_queue s @ D)"
    using heap_inv_detached [OF inv(2), of p] assms(2,3) t by auto
  have "heap_inv ?s' (workers_queue s @ p # D) (X - {k})"
  proof (rule heap_invE [OF inv(2)], rule heap_invI, goal_cases)
    case 1 with W show ?case by auto
  next
    case (2 q)
    show ?case
    proof (cases "q = p")
      case True with assms(3,4) t del(3) show ?thesis by auto
    next
      case False
      with 2(5) have "q \<in> set (workers_queue s @ D)" by auto
      from 2(2) [OF this] del(3) show ?thesis by auto
    qed
  next
    case (3 q u)
    then have u: "s_heap s q = Some u" by simp
    show ?case
    proof (cases "q = p")
      case True
      with 3(3) [OF u] u assms(3,4) show ?thesis by auto
    next
      case False
      with 3(3) [OF u] off [OF False u] del(3) show ?thesis by auto
    qed
  next
    case (4 q q' u u') from 4(4) [of q u q' u'] 4(5-7) show ?case by simp
  qed
  ultimately show ?thesis by (simp add: sched_inv_def)
qed

section \<open>What executing a task amounts to\<close>

text \<open>
  The contract of \<open>antd_execute_task\<close>: the task that follows, if any.  With no result the next callback
  of the chain takes over the task; a returned task inherits the rest of the chain after its
  own callbacks, and one without a handle starts at the first callback.
\<close>

definition start_chain :: "('h, 'd) task \<Rightarrow> ('h, 'd) task option" where
  "start_chain t =
     (case t_callback t of
        [] \<Rightarrow> None
      | cb # rest \<Rightarrow> Some (t\<lparr>t_handle := Some cb, t_callback := rest\<rparr>))"

definition next_task ::
  "('h \<Rightarrow> 'd \<Rightarrow> ('h, 'd) task option) \<Rightarrow> ('h, 'd) task \<Rightarrow> ('h, 'd) task option" where
  "next_task run t =
     (case t_handle t of
        None \<Rightarrow> None
      | Some h \<Rightarrow>
          (case run h (t_data t) of
             None \<Rightarrow> start_chain t
           | Some rt \<Rightarrow>
               let nt = rt\<lparr>t_callback := t_callback rt @ t_callback t\<rparr> in
               if t_handle rt = None then start_chain nt else Some nt))"

definition finish :: "ptr \<Rightarrow> ('h, 'd) sched \<Rightarrow> ('h, 'd) sched" where
  "finish p s = s\<lparr>s_heap := (s_heap s)(p := None)\<rparr>"

definition launch :: "ptr \<Rightarrow> ('h, 'd) task \<Rightarrow> ('h, 'd) sched \<Rightarrow> ('h, 'd) sched" where
  "launch p t s =
     s\<lparr>s_heap := (s_heap s)(p := Some t), task_queue := bst_insert (task_queue s) (t_id t) (Some p),
       pending_task := pending_task s + 1, scheduler_sem := scheduler_sem s + 1\<rparr>"

text \<open>The address of the task that follows, and the state once the old one is gone.\<close>

definition next_ptr ::
  "('h \<Rightarrow> 'd \<Rightarrow> ('h, 'd) task option) \<Rightarrow> ptr \<Rightarrow> ('h, 'd) task \<Rightarrow> ('h, 'd) sched \<Rightarrow> ptr" where
  "next_ptr run p t s =
     (case t_handle t of None \<Rightarrow> p
      | Some h \<Rightarrow> (case run h (t_data t) of None \<Rightarrow> p | Some rt \<Rightarrow> s_next s))"

definition retired ::
  "('h \<Rightarrow> 'd \<Rightarrow> ('h, 'd) task option) \<Rightarrow> ptr \<Rightarrow> ('h, 'd) task \<Rightarrow> ('h, 'd) sched \<Rightarrow> ('h, 'd) sched" where
  "retired run p t s =
     (let s1 = finish p s in
      if next_ptr run p t s = p then s1 else s1\<lparr>s_next := Suc (s_next s)\<rparr>)"

definition settle :: "('h, 'd) task option \<Rightarrow> ptr \<Rightarrow> ('h, 'd) sched \<Rightarrow> ('h, 'd) sched" where
  "settle nt p s = (case nt of None \<Rightarrow> s | Some t \<Rightarrow> launch p (own_events p t) s)"

lemma own_events_simps [simp]:
  "t_id (own_events p t) = t_id t" "t_handle (own_events p t) = t_handle t"
  "t_callback (own_events p t) = t_callback t" "t_access (own_events p t) = t_access t"
  "t_data (own_events p t) = t_data t" "t_stamp (own_events p t) = t_stamp t"
  "\<forall>e \<in> set (t_events (own_events p t)). ev_task e = p"
  by (simp_all add: own_events_def)

lemma own_events_id: "(\<And>e. e \<in> set (t_events t) \<Longrightarrow> ev_task e = p) \<Longrightarrow> own_events p t = t"
proof -
  assume own: "\<And>e. e \<in> set (t_events t) \<Longrightarrow> ev_task e = p"
  have "map (\<lambda>e. e\<lparr>ev_task := p\<rparr>) (t_events t) = t_events t"
  proof (rule map_idI)
    fix e :: evt assume "e \<in> set (t_events t)"
    with own have "ev_task e = p" by blast
    then show "e\<lparr>ev_task := p\<rparr> = e" by (cases e) simp
  qed
  then show ?thesis by (simp add: own_events_def)
qed

lemma store_simps [simp]:
  "s_heap (store p t s) = (s_heap s)(p := Some t)" "s_next (store p t s) = s_next s"
  "task_queue (store p t s) = task_queue s" "pending_task (store p t s) = pending_task s"
  by (simp_all add: store_def)

lemma add_task_launch:
  assumes "s_heap s p = Some t" "t_id t \<noteq> 0"
  shows "antd_scheduler_add_task p s = Some (launch p t s)"
  using assms by (simp add: antd_scheduler_add_task_def launch_def store_def Let_def)

lemma destroy_launch:
  assumes "s_heap s p \<noteq> None" "p \<noteq> q"
  shows "destroy_task p (launch q t s) = Some (launch q t (finish p s))"
  using assms by (auto simp: destroy_task_def launch_def finish_def fun_upd_twist)

lemma callback_chain_result:
  assumes "s_heap s p = Some t" "t_id t \<noteq> 0" "\<And>e. e \<in> set (t_events t) \<Longrightarrow> ev_task e = p"
  shows "execute_callback p s = Some (settle (start_chain t) p (finish p s))"
proof (cases "t_callback t")
  case Nil
  with assms(1) show ?thesis
    by (simp add: execute_callback_def start_chain_def settle_def destroy_task_def finish_def)
next
  case (Cons cb rest)
  let ?t = "t\<lparr>t_handle := Some cb, t_callback := rest\<rparr>"
  have "own_events p ?t = ?t" using assms(3) by (intro own_events_id) simp
  moreover have "antd_scheduler_add_task p (store p ?t s) = Some (launch p ?t (store p ?t s))"
    using assms(2) by (intro add_task_launch) simp_all
  ultimately show ?thesis
    using Cons assms(1)
    by (simp add: execute_callback_def start_chain_def settle_def launch_def finish_def store_def)
qed

lemma execute_task_result:
  assumes p: "s_heap s p = Some t" "t_handle t \<noteq> None" "p < s_next s"
    "\<And>e. e \<in> set (t_events t) \<Longrightarrow> ev_task e = p"
    and nt: "\<And>rt. next_task run t = Some rt \<Longrightarrow> t_id rt \<noteq> 0"
    and free: "s_heap s (s_next s) = None"
  shows "antd_execute_task run p s =
    Some (settle (next_task run t) (next_ptr run p t s) (retired run p t s))"
proof -
  obtain h where h: "t_handle t = Some h" using p(2) by auto
  show ?thesis
  proof (cases "run h (t_data t)")
    case None
    have "execute_callback p s = Some (settle (start_chain t) p (finish p s))"
    proof (cases "t_callback t")
      case Nil
      with p(1) show ?thesis
        by (simp add: execute_callback_def start_chain_def settle_def destroy_task_def finish_def)
    next
      case (Cons cb rest)
      with nt None h have "t_id t \<noteq> 0" by (simp add: next_task_def start_chain_def)
      then show ?thesis by (rule callback_chain_result [OF p(1) _ p(4)])
    qed
    with None h p(1) show ?thesis
      by (simp add: antd_execute_task_def next_task_def next_ptr_def retired_def)
  next
    case (Some rt)
    let ?q = "s_next s"
    let ?ot = "own_events ?q rt"
    let ?nt = "?ot\<lparr>t_callback := t_callback rt @ t_callback t\<rparr>"
    define s2 where "s2 = (if t_callback t \<noteq> [] then
        store p (t\<lparr>t_callback := []\<rparr>) (store ?q ?nt (snd (new_task rt s))) else snd (new_task rt s))"
    have ne: "p \<noteq> ?q" using p(3) by simp
    have ot: "?ot\<lparr>t_callback := t_callback rt\<rparr> = ?ot" by (simp add: own_events_def)
    have s2: "s_heap s2 ?q = Some ?nt" "s_heap s2 p \<noteq> None"
      "finish p s2 = (finish p s)\<lparr>s_next := Suc ?q, s_heap := (s_heap (finish p s))(?q := Some ?nt)\<rparr>"
      using ne p(1)
      by (auto simp: s2_def new_task_def store_def finish_def fun_upd_twist Let_def ot)
    have ret: "retired run p t s = (finish p s)\<lparr>s_next := Suc ?q\<rparr>"
      using ne h Some by (simp add: retired_def next_ptr_def)
    have q: "next_ptr run p t s = ?q" using h Some by (simp add: next_ptr_def)
    have exec: "antd_execute_task run p s =
        (if t_handle rt = None then do { s3 \<leftarrow> execute_callback ?q s2; destroy_task p s3 }
         else do { s3 \<leftarrow> antd_scheduler_add_task ?q s2; destroy_task p s3 })"
      using p(1) h Some
      by (auto simp: antd_execute_task_def s2_def new_task_def Let_def split_beta)
    have fin: "finish ?q (finish p s2) = (finish p s)\<lparr>s_next := Suc ?q\<rparr>"
      using free ne by (auto simp: s2(3)) (auto simp: finish_def fun_upd_idem fun_upd_twist)
    show ?thesis
    proof (cases "t_handle rt = None")
      case True
      have chain: "start_chain ?nt = map_option (own_events ?q) (next_task run t)"
        using h Some True
        by (auto simp: next_task_def start_chain_def own_events_def Let_def split: list.splits)
      show ?thesis
      proof (cases "t_callback ?nt")
        case Nil
        then have nn: "next_task run t = None" using h Some True
          by (simp add: next_task_def start_chain_def)
        have "execute_callback ?q s2 = Some (finish ?q s2)"
          using s2(1) Nil by (simp add: execute_callback_def destroy_task_def finish_def)
        moreover have "destroy_task p (finish ?q s2) = Some (finish ?q (finish p s2))"
          using s2(2) ne by (auto simp: destroy_task_def finish_def fun_upd_twist)
        ultimately show ?thesis using exec True fin nn ret by (simp add: settle_def)
      next
        case (Cons cb rest)
        then obtain nx where nx: "next_task run t = Some nx" "start_chain ?nt = Some (own_events ?q nx)"
          using chain by (cases "next_task run t") (auto simp: start_chain_def)
        from nx(2) Cons have "?nt\<lparr>t_handle := Some cb, t_callback := rest\<rparr> = own_events ?q nx"
          by (simp add: start_chain_def)
        from arg_cong [OF this, of t_id] have "t_id nx = t_id rt" by simp
        with nt [OF nx(1)] have "t_id ?nt \<noteq> 0" by simp
        then have "execute_callback ?q s2 = Some (settle (start_chain ?nt) ?q (finish ?q s2))"
          by (intro callback_chain_result [OF s2(1)]) auto
        moreover have "settle (start_chain ?nt) ?q s' = launch ?q (own_events ?q nx) s'" for s'
          using nx(2) own_events_id [of "own_events ?q nx" ?q] by (simp add: settle_def)
        moreover have "destroy_task p (launch ?q (own_events ?q nx) (finish ?q s2)) =
            Some (launch ?q (own_events ?q nx) (finish ?q (finish p s2)))"
          using s2(2) ne by (subst destroy_launch) (auto simp: finish_def fun_upd_twist)
        ultimately show ?thesis using exec True nx(1) fin ret q by (simp add: settle_def)
      qed
    next
      case False
      have nx: "next_task run t = Some (rt\<lparr>t_callback := t_callback rt @ t_callback t\<rparr>)"
        using h Some False by (cases "t_handle rt") (simp_all add: next_task_def Let_def)
      have own: "own_events ?q (rt\<lparr>t_callback := t_callback rt @ t_callback t\<rparr>) = ?nt"
        by (simp add: own_events_def)
      have "antd_scheduler_add_task ?q s2 = Some (launch ?q ?nt s2)"
        using nt [OF nx] by (intro add_task_launch [OF s2(1)]) simp
      moreover have "destroy_task p (launch ?q ?nt s2) = Some (launch ?q ?nt (finish p s2))"
        using s2(2) ne by (rule destroy_launch)
      moreover have "launch ?q ?nt (finish p s2) = launch ?q ?nt (retired run p t s)"
        by (simp add: s2(3) ret launch_def)
      ultimately show ?thesis using exec False nx own q by (simp add: settle_def)
    qed
  qed
qed

text \<open>What is asked of the tasks handlers return: an id that no other live task has.\<close>

definition fresh_id :: "int \<Rightarrow> ptr \<Rightarrow> ('h, 'd) sched \<Rightarrow> bool" where
  "fresh_id i p s \<longleftrightarrow> i \<noteq> 0 \<and> (\<forall>p' t'. p' \<noteq> p \<longrightarrow> s_heap s p' = Some t' \<longrightarrow> t_id t' \<noteq> i)"

definition id_ok :: "('h \<Rightarrow> 'd \<Rightarrow> ('h, 'd) task option) \<Rightarrow> ptr \<Rightarrow> ('h, 'd) sched \<Rightarrow> bool" where
  "id_ok run p s \<longleftrightarrow>
     (\<forall>t nt. s_heap s p = Some t \<longrightarrow> next_task run t = Some nt \<longrightarrow> fresh_id (t_id nt) p s)"

lemma id_ok_heap: "s_heap s' = s_heap s \<Longrightarrow> id_ok run p s \<Longrightarrow> id_ok run p s'"
  by (simp only: id_ok_def fresh_id_def)

definition pending :: "('h, 'd) sched \<Rightarrow> int \<Rightarrow> ptr \<Rightarrow> ('h, 'd) task \<Rightarrow> bool" where
  "pending s k p t \<longleftrightarrow> bst_abs (task_queue s) k = Some (Some p) \<and> s_heap s p = Some t"

definition same_env :: "('h, 'd) sched \<Rightarrow> ('h, 'd) sched \<Rightarrow> bool" where
  "same_env s s' \<longleftrightarrow> s_usec s' = s_usec s \<and> s_timeout s' = s_timeout s \<and> n_workers s' = n_workers s \<and>
     set (workers_queue s) \<subseteq> set (workers_queue s') \<and> set (s_dead s) \<subseteq> set (s_dead s') \<and>
     (\<forall>p < s_next s. s_heap s p = None \<longrightarrow> s_heap s' p = None) \<and> s_next s \<le> s_next s'"

lemma same_env_refl [simp]: "same_env s s"
  by (simp add: same_env_def)

lemma same_env_trans: "same_env s s' \<Longrightarrow> same_env s' s'' \<Longrightarrow> same_env s s''"
  unfolding same_env_def by (auto dest: less_le_trans)

lemma next_task_handle: "next_task run t = Some nt \<Longrightarrow> t_handle nt \<noteq> None"
  by (auto simp: next_task_def start_chain_def Let_def split: option.splits list.splits if_splits)

lemma launch_inv:
  assumes "sched_inv s D X" "s_heap s q = None" "q < s_next s" "t_handle t \<noteq> None" "fresh_id (t_id t) q s"
  shows "sched_inv (launch q (own_events q t) s) D X"
proof -
  have "t_id t' \<noteq> t_id t" if "s_heap s p' = Some t'" for p' t'
    using that assms(2,5) by (cases "p' = q") (auto simp: fresh_id_def)
  with sched_inv_pend [OF assms(1-3), of "own_events q t"] assms(4) show ?thesis
    by (simp add: launch_def)
qed

lemma launch_pending:
  assumes "pending s k p t" "k \<noteq> t_id nt" "p \<noteq> q"
  shows "pending (launch q nt s) k p t"
  using assms by (simp add: pending_def launch_def bst_abs_insert)

lemma pending_id: "sched_inv s D X \<Longrightarrow> pending s k p t \<Longrightarrow> t_id t = k"
  by (auto simp: sched_inv_def pending_def elim!: queue_invD)

lemma execute_inv:
  assumes inv: "sched_inv s (p # D) X" and ok: "id_ok run p s"
  shows "\<exists>t s'. s_heap s p = Some t \<and> antd_execute_task run p s = Some s' \<and>
    s' = settle (next_task run t) (next_ptr run p t s) (retired run p t s) \<and>
    sched_inv s' D X \<and> same_env s s' \<and>
    (\<forall>k p' t'. pending s k p' t' \<longrightarrow> pending s' k p' t')"
proof -
  have hi: "heap_inv s (workers_queue s @ p # D) X" using inv by (simp add: sched_inv_def)
  obtain t where t: "s_heap s p = Some t" "bst_abs (task_queue s) (t_id t) = None" "t_handle t \<noteq> None"
    using heap_inv_detached [OF hi, of p] by auto
  note tp = heap_invD [OF hi t(1)]
  have free: "s_heap s (s_next s) = None"
    using heap_invD(1) [OF hi, of "s_next s"] by (cases "s_heap s (s_next s)") auto
  have new: "fresh_id (t_id nt) p s" if "next_task run t = Some nt" for nt
    using ok t(1) that by (auto simp: id_ok_def)
  then have "\<And>nt. next_task run t = Some nt \<Longrightarrow> t_id nt \<noteq> 0" by (auto simp: fresh_id_def)
  from execute_task_result [OF t(1,3) tp(1) tp(4) this free]
  have exec: "antd_execute_task run p s =
      Some (settle (next_task run t) (next_ptr run p t s) (retired run p t s))" by blast
  let ?q = "next_ptr run p t s" and ?r = "retired run p t s"
  have "sched_inv (finish p s) D X" using sched_inv_drop [OF inv] by (simp add: finish_def)
  then have r: "sched_inv ?r D X"
    by (rule sched_inv_cong [rotated -1]) (auto simp: retired_def finish_def Let_def)
  have q: "?q = p \<or> ?q = s_next s" by (auto simp: next_ptr_def split: option.splits)
  have rq: "s_heap ?r ?q = None" "?q < s_next ?r"
    using q free tp(1) by (auto simp: retired_def finish_def Let_def)
  have off: "s_heap s p' = Some t' \<Longrightarrow> p' \<noteq> p \<Longrightarrow> s_heap ?r p' = Some t'" for p' t'
    by (auto simp: retired_def finish_def Let_def)
  have old: "s_heap ?r p' = Some t' \<Longrightarrow> s_heap s p' = Some t' \<and> p' \<noteq> p" for p' t'
    by (auto simp: retired_def finish_def Let_def split: if_splits)
  have tq: "task_queue ?r = task_queue s" by (auto simp: retired_def finish_def Let_def)
  have keep: "pending s k p' t' \<Longrightarrow> pending ?r k p' t' \<and> p' \<noteq> p \<and> p' \<noteq> s_next s" for k p' t'
    using t off free tq pending_id [OF inv] by (fastforce simp: pending_def)
  have env: "same_env s ?r" by (auto simp: same_env_def retired_def finish_def Let_def)
  show ?thesis
  proof (cases "next_task run t")
    case None
    with exec r env keep t show ?thesis by (auto simp: settle_def)
  next
    case (Some nt)
    have fr: "fresh_id (t_id nt) ?q ?r"
      using new [OF Some] old by (fastforce simp: fresh_id_def)
    have "sched_inv (launch ?q (own_events ?q nt) ?r) D X"
      by (rule launch_inv [OF r rq next_task_handle [OF Some] fr])
    moreover have "pending (launch ?q (own_events ?q nt) ?r) k p' t'" if "pending s k p' t'" for k p' t'
    proof (rule launch_pending)
      from keep [OF that] show "pending ?r k p' t'" "p' \<noteq> ?q" using q by auto
      from new [OF Some] pending_id [OF inv that] that keep [OF that]
      show "k \<noteq> t_id (own_events ?q nt)" by (auto simp: fresh_id_def pending_def)
    qed
    moreover have "same_env s (launch ?q (own_events ?q nt) ?r)"
      if "?q = s_next s" using that env by (auto simp: same_env_def launch_def)
    moreover have "same_env s (launch ?q (own_events ?q nt) ?r)" if "?q = p"
      using that env t(1) by (auto simp: same_env_def launch_def)
    ultimately show ?thesis using exec Some t q by (auto simp: settle_def)
  qed
qed

section \<open>Deploying\<close>

text \<open>What deploying did to a task: killed with its data, or handed to the workers, or run by the
  scheduler itself when there are none.\<close>

definition dispatched :: "('h, 'd) sched \<Rightarrow> ptr \<Rightarrow> ('h, 'd) task \<Rightarrow> ('h, 'd) sched \<Rightarrow> bool" where
  "dispatched s p t s' \<longleftrightarrow>
     (if \<not> validate_data s t then t_data t \<in> set (s_dead s') \<and> s_heap s' p = None
      else n_workers s > 0 \<longrightarrow> p \<in> set (workers_queue s'))"

lemma dispatched_later:
  assumes "dispatched s p t s'" "same_env s' s''" "p < s_next s'"
  shows "dispatched s p t s''"
  using assms by (auto simp: dispatched_def same_env_def)

lemma sched_inv_heap: "sched_inv s D X \<Longrightarrow> heap_inv s (workers_queue s @ D) X"
  by (simp add: sched_inv_def)

lemma deploy_inv:
  assumes inv: "sched_inv s D X" and pend: "pending s k p t" and time: "s_timeout s < s_time s"
    and ok: "n_workers s \<le> 0 \<Longrightarrow> validate_data s t \<Longrightarrow> id_ok run p s"
  shows "\<exists>s'. antd_deploy_task run k (Some p) s = Some s' \<and> sched_inv s' D (X - {k}) \<and>
    same_env s s' \<and> dispatched s p t s' \<and>
    (\<forall>k' p' t'. k' \<noteq> k \<longrightarrow> pending s k' p' t' \<longrightarrow> pending s' k' p' t')"
proof -
  have t: "s_heap s p = Some t" "bst_abs (task_queue s) k = Some (Some p)" "t_id t = k"
    using pend pending_id [OF inv pend] by (auto simp: pending_def)
  have qi: "queue_inv s" using inv by (simp add: sched_inv_def)
  note del = queue_delete [OF qi t(2)]
  note tp = heap_invD [OF sched_inv_heap [OF inv] t(1)]
  let ?s1 = "s\<lparr>task_queue := bst_delete (task_queue s) k\<rparr>"
  have dep: "antd_deploy_task run k (Some p) s = antd_task_schedule run p ?s1"
    using t by (simp add: antd_deploy_task_def)
  have swap: "s\<lparr>task_queue := a, pending_task := b\<rparr> = s\<lparr>pending_task := b, task_queue := a\<rparr>" for a b
    by (rule sched.equality) simp_all
  have val: "validate_data (?s1\<lparr>pending_task := n\<rparr>) t = validate_data s t" for n
    by (simp add: validate_data_def s_time_def)
  show ?thesis
  proof (cases "validate_data s t")
    case False
    let ?s2 = "s\<lparr>pending_task := pending_task s - 1, task_queue := bst_delete (task_queue s) k,
      s_dead := s_dead s @ [t_data t], s_heap := (s_heap s)(p := None)\<rparr>"
    have "antd_task_schedule run p ?s1 = Some ?s2"
      using False val t(1) by (simp add: antd_task_schedule_def destroy_task_def Let_def swap)
    moreover have "sched_inv ?s2 D (X - {k})" by (rule sched_inv_expire [OF inv t(2)])
    moreover have "pending ?s2 k' p' t'" if "k' \<noteq> k" "pending s k' p' t'" for k' p' t'
      using that t pending_id [OF inv that(2)] del(3) by (auto simp: pending_def)
    ultimately show ?thesis
      using dep False by (auto simp: same_env_def dispatched_def)
  next
    case True
    have h: "t_handle t \<noteq> None"
      using tp(3) True time by (auto simp: validate_data_def)
    let ?s2 = "s\<lparr>pending_task := pending_task s - 1, task_queue := bst_delete (task_queue s) k\<rparr>"
    have i2: "sched_inv ?s2 (p # D) (X - {k})" by (rule sched_inv_detach [OF inv t(2,1) h])
    have p2: "pending ?s2 k' p' t'" if "k' \<noteq> k" "pending s k' p' t'" for k' p' t'
      using that del(3) by (auto simp: pending_def)
    show ?thesis
    proof (cases "n_workers s \<le> 0")
      case True
      have "id_ok run p ?s2"
        using ok [OF True \<open>validate_data s t\<close>] by (rule id_ok_heap [rotated]) simp
      from execute_inv [OF i2 this] obtain s' where
        s': "antd_execute_task run p ?s2 = Some s'" "sched_inv s' D (X - {k})" "same_env ?s2 s'"
          "\<And>k' p' t'. pending ?s2 k' p' t' \<Longrightarrow> pending s' k' p' t'" by blast
      have "antd_task_schedule run p ?s1 = antd_execute_task run p ?s2"
        using True \<open>validate_data s t\<close> val t(1) by (simp add: antd_task_schedule_def Let_def swap)
      moreover have "same_env s s'" using s'(3) by (simp add: same_env_def)
      ultimately show ?thesis
        using dep s' p2 True \<open>validate_data s t\<close> by (auto simp: dispatched_def)
    next
      case False
      let ?s3 = "?s2\<lparr>workers_queue := workers_queue s @ [p], worker_sem := worker_sem s + 1\<rparr>"
      have "antd_task_schedule run p ?s1 = Some ?s3"
        using False \<open>validate_data s t\<close> val t(1) by (simp add: antd_task_schedule_def Let_def swap)
      moreover have "sched_inv ?s3 D (X - {k})"
        by (rule sched_inv_perm [OF i2 refl])
          (use sched_inv_heap [OF i2] in \<open>auto simp: heap_inv_def\<close>)
      moreover have "pending ?s3 k' p' t'" if "k' \<noteq> k" "pending s k' p' t'" for k' p' t'
        using p2 [OF that] by (simp add: pending_def)
      ultimately show ?thesis
        using dep False \<open>validate_data s t\<close> by (auto simp: same_env_def dispatched_def)
    qed
  qed
qed

text \<open>The scheduled list: tasks that are pending under their id.\<close>

definition scheduled_ok :: "('h, 'd) sched \<Rightarrow> (int \<times> ptr option) list \<Rightarrow> bool" where
  "scheduled_ok s L \<longleftrightarrow> distinct (map fst L) \<and>
     (\<forall>(k, d) \<in> set L. \<exists>p t. d = Some p \<and> pending s k p t)"

lemma fold_deploy_none: "fold (\<lambda>(k, d) st. do { s1 \<leftarrow> st; antd_deploy_task run k d s1 }) L None = None"
  by (induction L) auto

lemma deploy_list_inv:
  assumes "sched_inv s D X" "scheduled_ok s L" "X \<subseteq> fst ` set L" "s_timeout s < s_time s" "n_workers s > 0"
  shows "\<exists>s'. fold (\<lambda>(k, d) st. do { s1 \<leftarrow> st; antd_deploy_task run k d s1 }) L (Some s) = Some s' \<and>
    sched_inv s' D {} \<and> same_env s s' \<and>
    (\<forall>k p t. (k, Some p) \<in> set L \<longrightarrow> pending s k p t \<longrightarrow> dispatched s p t s') \<and>
    (\<forall>k p t. k \<notin> fst ` set L \<longrightarrow> pending s k p t \<longrightarrow> pending s' k p t)"
  using assms
proof (induction L arbitrary: s X)
  case Nil
  then show ?case by (intro exI [of _ s]) simp
next
  case (Cons kd L)
  obtain k d where kd: "kd = (k, d)" by (cases kd)
  with Cons.prems(2) obtain p t where d: "d = Some p" "pending s k p t"
    by (auto simp: scheduled_ok_def)
  have "n_workers s \<le> 0 \<Longrightarrow> validate_data s t \<Longrightarrow> id_ok run p s" using Cons.prems(5) by simp
  from deploy_inv [OF Cons.prems(1) d(2) Cons.prems(4) this] obtain s1 where
    s1: "antd_deploy_task run k (Some p) s = Some s1" "sched_inv s1 D (X - {k})"
      "same_env s s1" "dispatched s p t s1"
      "\<And>k' p' t'. k' \<noteq> k \<Longrightarrow> pending s k' p' t' \<Longrightarrow> pending s1 k' p' t'"
    by blast
  have nk: "k \<notin> fst ` set L" using Cons.prems(2) kd by (simp add: scheduled_ok_def)
  have L: "scheduled_ok s1 L"
    using Cons.prems(2) kd nk s1(5) by (fastforce simp: scheduled_ok_def)
  have "X - {k} \<subseteq> fst ` set L" using Cons.prems(3) kd by auto
  moreover have "s_timeout s1 < s_time s1" "n_workers s1 > 0"
    using Cons.prems(4,5) s1(3) by (simp_all add: same_env_def s_time_def)
  ultimately obtain s' where
    s': "fold (\<lambda>(k, d) st. do { s1 \<leftarrow> st; antd_deploy_task run k d s1 }) L (Some s1) = Some s'"
      "sched_inv s' D {}" "same_env s1 s'"
      "\<And>k p t. (k, Some p) \<in> set L \<Longrightarrow> pending s1 k p t \<Longrightarrow> dispatched s1 p t s'"
      "\<And>k p t. k \<notin> fst ` set L \<Longrightarrow> pending s1 k p t \<Longrightarrow> pending s' k p t"
    using Cons.IH [OF s1(2) L] by blast
  have pn: "p < s_next s1"
    using heap_invD(1) [OF sched_inv_heap [OF Cons.prems(1)]] d(2) s1(3)
    by (fastforce simp: pending_def same_env_def)
  have disp: "dispatched s p' t' s'" if "(k', Some p') \<in> set (kd # L)" "pending s k' p' t'" for k' p' t'
  proof (cases "k' = k")
    case True
    with that d nk kd have "p' = p \<and> t' = t" by (auto simp: pending_def rev_image_eqI)
    with dispatched_later [OF s1(4) s'(3) pn] show ?thesis by simp
  next
    case False
    with that kd have "(k', Some p') \<in> set L" by auto
    from s'(4) [OF this s1(5) [OF False that(2)]] s1(3) show ?thesis
      by (simp add: dispatched_def validate_data_def s_time_def same_env_def)
  qed
  have keep: "pending s' k' p' t'" if "k' \<notin> fst ` set (kd # L)" "pending s k' p' t'" for k' p' t'
    using that kd s'(5) s1(5) by auto
  show ?case
    by (intro exI [of _ s'] conjI) (use s' s1 kd d disp keep same_env_trans [OF s1(3) s'(3)] in auto)
qed

section \<open>Collecting and polling\<close>

text \<open>A task that runs without waiting for a descriptor: it has no event, or one that is always on
  or has timed out, or it has expired.\<close>

definition due_event :: "('h, 'd) sched \<Rightarrow> ('h, 'd) task \<Rightarrow> evt \<Rightarrow> bool" where
  "due_event s t e \<longleftrightarrow> has_flag (ev_flags e) TASK_EVT_ALWAY_ON \<or> \<not> validate_data s t \<or>
     has_flag (ev_flags e) TASK_EVT_ON_TIMEOUT \<and> elapsed_ms (s_usec s) (ev_stamp e) \<ge> ev_timeout e"

definition due :: "('h, 'd) sched \<Rightarrow> ('h, 'd) task \<Rightarrow> bool" where
  "due s t \<longleftrightarrow> t_events t = [] \<or> (\<exists>e \<in> set (t_events t). due_event s t e)"

definition polled_ok :: "('h, 'd) sched \<Rightarrow> evt bst \<Rightarrow> bool" where
  "polled_ok s pl \<longleftrightarrow> (\<forall>i d. bst_abs pl i = Some d \<longrightarrow>
     (\<exists>e k t. d = Some e \<and> pending s k (ev_task e) t))"

definition chosen_ids :: "ptr bst \<Rightarrow> int set" where
  "chosen_ids sl = dom (bst_abs sl)"

lemma chosen_ids_simps [simp]:
  "chosen_ids BNull = {}" "chosen_ids (bst_insert sl k d) = insert k (chosen_ids sl)"
  by (auto simp: chosen_ids_def bst_abs_insert)

definition chosen_ok :: "('h, 'd) sched \<Rightarrow> ptr bst \<Rightarrow> bool" where
  "chosen_ok s sl \<longleftrightarrow> bst_ok sl \<and>
     (\<forall>k d. bst_abs sl k = Some d \<longrightarrow> (\<exists>p t. d = Some p \<and> pending s k p t))"

lemma chosen_ok_insert: "chosen_ok s sl \<Longrightarrow> pending s k p t \<Longrightarrow> chosen_ok s (bst_insert sl k (Some p))"
  by (auto simp: chosen_ok_def bst_ok_insert bst_abs_insert)

lemma polled_ok_insert:
  "polled_ok s pl \<Longrightarrow> pending s k (ev_task e) t \<Longrightarrow> polled_ok s (bst_insert pl i (Some e))"
  unfolding polled_ok_def by (auto simp: bst_abs_insert)

lemma collect_events_ok:
  assumes "chosen_ok s sl" "polled_ok s pl" "pending s (t_id t) p t" "\<forall>e \<in> set es. ev_task e = p"
  shows "\<exists>sl' pl' n'. collect_events s p t es (sl, pl, n) = (sl', pl', n') \<and> chosen_ok s sl' \<and>
    polled_ok s pl' \<and> chosen_ids sl \<subseteq> chosen_ids sl' \<and>
    ((\<exists>e \<in> set es. due_event s t e) \<longrightarrow> t_id t \<in> chosen_ids sl')"
  using assms
proof (induction es arbitrary: sl pl n)
  case Nil
  then show ?case by auto
next
  case (Cons e es)
  note hyp = Cons.prems(3) Cons.prems(4)
  have es: "\<forall>e \<in> set es. ev_task e = p" using Cons.prems(4) by simp
  show ?case
  proof (cases "due_event s t e")
    case True
    then have "collect_events s p t (e # es) (sl, pl, n) =
        collect_events s p t es (bst_insert sl (t_id t) (Some p), pl, n)"
      by (auto simp: due_event_def)
    moreover note Cons.IH [OF chosen_ok_insert [OF Cons.prems(1,3)] Cons.prems(2,3) es, of n]
    ultimately show ?thesis unfolding chosen_ids_simps(2)
      by auto
  next
    case False
    show ?thesis
    proof (cases "has_flag (ev_flags e) TASK_EVT_ON_TIMEOUT")
      case True
      with False have "collect_events s p t (e # es) (sl, pl, n) = collect_events s p t es (sl, pl, n)"
        by (auto simp: due_event_def)
      with Cons.IH [OF Cons.prems(1-3) es, of n] False show ?thesis by auto
    next
      case poll: False
      with False have "collect_events s p t (e # es) (sl, pl, n) =
          collect_events s p t es (sl, bst_insert pl n (Some e), n + 1)"
        by (auto simp: due_event_def)
      moreover have "polled_ok s (bst_insert pl n (Some e))"
        using polled_ok_insert [OF Cons.prems(2), of "t_id t" e t n] hyp by simp
      ultimately show ?thesis
        using Cons.IH [OF Cons.prems(1) _ Cons.prems(3) es, of "bst_insert pl n (Some e)" "n + 1"] False
        by auto
    qed
  qed
qed

lemma event_collect_ok:
  assumes "sched_inv s D X" "chosen_ok s sl" "polled_ok s pl" "pending s k p t"
  shows "\<exists>sl' pl' n'. task_event_collect s k (Some p) (Some (sl, pl, n)) = Some (sl', pl', n') \<and>
    chosen_ok s sl' \<and> polled_ok s pl' \<and> chosen_ids sl \<subseteq> chosen_ids sl' \<and>
    (due s t \<longrightarrow> k \<in> chosen_ids sl')"
proof -
  have t: "s_heap s p = Some t" "t_id t = k" "pending s (t_id t) p t"
    using assms(4) pending_id [OF assms(1,4)] by (auto simp: pending_def)
  show ?thesis
  proof (cases "t_events t = []")
    case True
    with t chosen_ok_insert [OF assms(2,4)] assms(3) show ?thesis
      by (auto simp: task_event_collect_def)
  next
    case False
    have own: "\<forall>e \<in> set (t_events t). ev_task e = p"
      using heap_invD(4) [OF sched_inv_heap [OF assms(1)] t(1)] by blast
    from collect_events_ok [OF assms(2,3) t(3) own, of n] t False show ?thesis
      by (auto simp: task_event_collect_def due_def)
  qed
qed

lemma collect_fold_ok:
  assumes "sched_inv s D X" "chosen_ok s sl" "polled_ok s pl"
    "\<forall>(k, d) \<in> set L. \<exists>p t. d = Some p \<and> pending s k p t"
  shows "\<exists>sl' pl' n'. fold (\<lambda>(k, d). task_event_collect s k d) L (Some (sl, pl, n)) = Some (sl', pl', n') \<and>
    chosen_ok s sl' \<and> polled_ok s pl' \<and> chosen_ids sl \<subseteq> chosen_ids sl' \<and>
    (\<forall>k p t. (k, Some p) \<in> set L \<longrightarrow> pending s k p t \<longrightarrow> due s t \<longrightarrow> k \<in> chosen_ids sl')"
  using assms(2-4)
proof (induction L arbitrary: sl pl n)
  case Nil
  then show ?case by simp
next
  case (Cons kd L)
  then obtain k p t where kd: "kd = (k, Some p)" "pending s k p t" by (cases kd) auto
  obtain sl1 pl1 n1 where c1: "task_event_collect s k (Some p) (Some (sl, pl, n)) = Some (sl1, pl1, n1)"
      "chosen_ok s sl1" "polled_ok s pl1" "chosen_ids sl \<subseteq> chosen_ids sl1"
      "due s t \<longrightarrow> k \<in> chosen_ids sl1"
    using event_collect_ok [OF assms(1) Cons.prems(1,2) kd(2), of n] by blast
  have "\<forall>(k, d) \<in> set L. \<exists>p t. d = Some p \<and> pending s k p t" using Cons.prems(3) by simp
  from Cons.IH [OF c1(2,3) this, of n1] obtain sl' pl' n' where
    c': "fold (\<lambda>(k, d). task_event_collect s k d) L (Some (sl1, pl1, n1)) = Some (sl', pl', n')"
      "chosen_ok s sl'" "polled_ok s pl'" "chosen_ids sl1 \<subseteq> chosen_ids sl'"
      "\<And>k p t. (k, Some p) \<in> set L \<Longrightarrow> pending s k p t \<Longrightarrow> due s t \<Longrightarrow> k \<in> chosen_ids sl'"
    by blast
  have all: "k' \<in> chosen_ids sl'" if "(k', Some p') \<in> set (kd # L)" "pending s k' p' t'" "due s t'" for k' p' t'
  proof (cases "(k', Some p') = kd")
    case True
    with that kd have "t' = t" "k' = k" by (auto simp: pending_def)
    with c1(5) c'(4) that(3) show ?thesis by blast
  next
    case False
    with that c'(5) show ?thesis by auto
  qed
  have "fold (\<lambda>(k, d). task_event_collect s k d) (kd # L) (Some (sl, pl, n)) = Some (sl', pl', n')"
    using c'(1) c1(1) kd(1) by simp
  moreover have "chosen_ids sl \<subseteq> chosen_ids sl'" using c'(4) c1(4) by blast
  ultimately show ?case using c'(2,3) all by blast
qed

lemma collect_phase_ok:
  assumes "sched_inv s D X"
  shows "\<exists>sl pl n. collect_phase s = Some (sl, pl, n) \<and> chosen_ok s sl \<and> polled_ok s pl \<and>
    (\<forall>k p t. pending s k p t \<longrightarrow> due s t \<longrightarrow> k \<in> chosen_ids sl)"
proof -
  have qi: "queue_inv s" and ok: "bst_ok (task_queue s)"
    using assms by (simp_all add: sched_inv_def queue_inv_def)
  have all: "\<forall>(k, d) \<in> set (bst_inorder (task_queue s)). \<exists>p t. d = Some p \<and> pending s k p t"
  proof (clarify)
    fix k d assume "(k, d) \<in> set (bst_inorder (task_queue s))"
    then have "bst_abs (task_queue s) k = Some d" by (simp add: bst_inorder_abs [OF ok])
    with queue_invD [OF qi this] show "\<exists>p t. d = Some p \<and> pending s k p t"
      by (metis pending_def)
  qed
  have "(k, Some p) \<in> set (bst_inorder (task_queue s))" if "pending s k p t" for k p t
    using that by (simp add: bst_inorder_abs [OF ok] pending_def)
  moreover have "chosen_ok s BNull" "polled_ok s BNull" by (simp_all add: chosen_ok_def polled_ok_def)
  ultimately show ?thesis
    using collect_fold_ok [OF assms _ _ all, of BNull BNull 0]
    by (simp add: collect_phase_def bst_for_each_fold) blast
qed

text \<open>What polling changes: tasks reported dead lose their handle and are chosen.\<close>

definition killed :: "('h, 'd) task \<Rightarrow> ('h, 'd) task" where
  "killed t = t\<lparr>t_access := 0, t_handle := None\<rparr>"

lemma killed_simps [simp]:
  "t_id (killed t) = t_id t" "t_data (killed t) = t_data t" "t_events (killed t) = t_events t"
  "t_access (killed t) = 0" "t_handle (killed t) = None" "killed (killed t) = killed t"
  by (simp_all add: killed_def)

lemma sched_inv_kill:
  assumes inv: "sched_inv s D X" and pend: "pending s k p t"
  shows "sched_inv (store p (killed t) s) D (insert k X)"
proof -
  have t: "s_heap s p = Some t" "bst_abs (task_queue s) k = Some (Some p)" "t_id t = k"
    using pend pending_id [OF inv pend] by (auto simp: pending_def)
  have qi: "queue_inv s" and hi: "heap_inv s (workers_queue s @ D) X"
    using inv by (simp_all add: sched_inv_def)
  have W: "p \<notin> set (workers_queue s @ D)"
    using heap_inv_detached [OF hi, of p] t by auto
  let ?s' = "store p (killed t) s"
  have "queue_inv ?s'"
  proof (rule queue_invI)
    fix k' d assume "bst_abs (task_queue ?s') k' = Some d"
    then obtain p' t' where "d = Some p'" "s_heap s p' = Some t'" "t_id t' = k'"
      using queue_invD [OF qi] by (metis store_simps(3))
    with t show "\<exists>p t. d = Some p \<and> s_heap ?s' p = Some t \<and> t_id t = k'"
      by (cases "p' = p") auto
  qed (use qi in \<open>simp_all add: queue_inv_def\<close>)
  moreover have "heap_inv ?s' (workers_queue s @ D) (insert k X)"
  proof (rule heap_invE [OF hi], rule heap_invI, goal_cases)
    case 1 then show ?case by simp
  next
    case (2 q) from 2(2) [OF 2(5)] 2(5) W show ?case by auto
  next
    case (3 q u) from 3(3) [of q u] 3(3) [OF t(1)] 3(5) t show ?case by (auto split: if_splits)
  next
    case (4 q q' u u')
    have "\<exists>v. s_heap s q = Some v \<and> t_id v = t_id u" using 4(5) t by (cases "q = p") auto
    moreover have "\<exists>v. s_heap s q' = Some v \<and> t_id v = t_id u'" using 4(6) t by (cases "q' = p") auto
    ultimately show ?case using 4(4,7) by metis
  qed
  ultimately show ?thesis by (simp add: sched_inv_def store_def)
qed

text \<open>The tasks stay where they are; those not chosen are not touched.\<close>

definition poll_frame :: "('h, 'd) sched \<Rightarrow> ptr bst \<Rightarrow> ('h, 'd) sched \<Rightarrow> bool" where
  "poll_frame s sl s' \<longleftrightarrow> same_env s s' \<and> task_queue s' = task_queue s \<and>
     (\<forall>k p t. pending s k p t \<longrightarrow> (pending s' k p t \<or> k \<in> chosen_ids sl \<and> pending s' k p (killed t)))"

lemma poll_frame_refl: "poll_frame s sl s"
  by (simp add: poll_frame_def)

lemma poll_frame_trans:
  assumes "poll_frame s sl s'" "poll_frame s' sl' s''" "chosen_ids sl \<subseteq> chosen_ids sl'"
  shows "poll_frame s sl' s''"
  unfolding poll_frame_def
proof (intro conjI allI impI)
  show "same_env s s''" "task_queue s'' = task_queue s"
    using assms by (auto simp: poll_frame_def intro: same_env_trans)
  fix k p t assume "pending s k p t"
  then consider "pending s' k p t" | "k \<in> chosen_ids sl" "pending s' k p (killed t)"
    using assms(1) unfolding poll_frame_def by blast
  then show "pending s'' k p t \<or> k \<in> chosen_ids sl' \<and> pending s'' k p (killed t)"
  proof cases
    case 1
    with assms(2) show ?thesis unfolding poll_frame_def by blast
  next
    case 2
    with assms(2) have "pending s'' k p (killed t) \<or> pending s'' k p (killed (killed t))"
      unfolding poll_frame_def by blast
    with 2(1) assms(3) show ?thesis by auto
  qed
qed

lemma poll_event_ok:
  assumes inv: "sched_inv s D X" "chosen_ok s sl" "polled_ok s pl" "X \<subseteq> chosen_ids sl"
  shows "\<exists>sl' s' X'. poll_event pl revs i (sl, s) = Some (sl', s') \<and> sched_inv s' D X' \<and>
    chosen_ok s' sl' \<and> polled_ok s' pl \<and> X' \<subseteq> chosen_ids sl' \<and> chosen_ids sl \<subseteq> chosen_ids sl' \<and>
    poll_frame s sl' s'"
proof (cases "\<exists>k e l r. bst_find pl (int i) = BNode k (Some e) l r")
  case False
  then have "poll_event pl revs i (sl, s) = Some (sl, s)"
    by (auto simp: poll_event_def split: bst.splits option.splits)
  with inv poll_frame_refl [of s sl] show ?thesis by blast
next
  case True
  then obtain k0 e l r where f: "bst_find pl (int i) = BNode k0 (Some e) l r" by blast
  then have "bst_abs pl (int i) = Some (Some e)" by (simp add: bst_abs_def)
  with inv(3) obtain k t where p: "pending s k (ev_task e) t" unfolding polled_ok_def by blast
  have t: "s_heap s (ev_task e) = Some t" "t_id t = k" "bst_find (task_queue s) k \<noteq> BNull"
    using p pending_id [OF inv(1) p] by (auto simp: pending_def bst_find_abs)
  let ?in = "has_flag (ev_flags e) TASK_EVT_ON_READABLE \<and> re_in (revs ! i) \<or>
     has_flag (ev_flags e) TASK_EVT_ON_WRITABLE \<and> re_out (revs ! i)"
  consider (ready) ?in | (dead) "\<not> ?in" "re_err (revs ! i)" | (none) "\<not> ?in" "\<not> re_err (revs ! i)"
    by blast
  then show ?thesis
  proof cases
    case ready
    let ?sl = "bst_insert sl k (Some (ev_task e))"
    have "poll_event pl revs i (sl, s) = Some (?sl, s)"
      using f t ready by (simp add: poll_event_def)
    moreover have "chosen_ok s ?sl" by (rule chosen_ok_insert [OF inv(2) p])
    moreover have "X \<subseteq> chosen_ids ?sl" "chosen_ids sl \<subseteq> chosen_ids ?sl" using inv(4) by auto
    ultimately show ?thesis using inv(1,3) poll_frame_refl [of s ?sl] by blast
  next
    case dead
    let ?sl = "bst_insert sl k (Some (ev_task e))" and ?s = "store (ev_task e) (killed t) s"
    have pp: "pending ?s k' p' (if p' = ev_task e then killed t' else t')"
      if "pending s k' p' t'" for k' p' t'
      using that t by (auto simp: pending_def)
    have "poll_event pl revs i (sl, s) = Some (?sl, ?s)"
      using f t dead by (auto simp: poll_event_def killed_def)
    moreover have "sched_inv ?s D (insert k X)" by (rule sched_inv_kill [OF inv(1) p])
    moreover have "chosen_ok ?s ?sl"
    proof (rule chosen_ok_insert [OF _ pp [OF p]])
      show "chosen_ok ?s sl" using inv(2) pp unfolding chosen_ok_def by blast
    qed
    moreover have "polled_ok ?s pl" using inv(3) pp unfolding polled_ok_def by meson
    moreover have "insert k X \<subseteq> chosen_ids ?sl" "chosen_ids sl \<subseteq> chosen_ids ?sl"
      using inv(4) by auto
    moreover have "poll_frame s ?sl ?s"
      unfolding poll_frame_def
    proof (intro conjI allI impI)
      show "same_env s ?s" using t by (auto simp: same_env_def store_def)
      fix k' p' t' assume a: "pending s k' p' t'"
      have "k' = k" if "p' = ev_task e"
        using that t a pending_id [OF inv(1) a] by (auto simp: pending_def)
      with pp [OF a] show "pending ?s k' p' t' \<or> k' \<in> chosen_ids ?sl \<and> pending ?s k' p' (killed t')"
        by (auto split: if_splits)
    qed simp
    ultimately show ?thesis by blast
  next
    case none
    have "poll_event pl revs i (sl, s) = Some (sl, s)"
      using f none by (auto simp: poll_event_def)
    with inv poll_frame_refl [of s sl] show ?thesis by blast
  qed
qed

lemma poll_events_ok:
  assumes "sched_inv s D X" "chosen_ok s sl" "polled_ok s pl" "X \<subseteq> chosen_ids sl"
  shows "\<exists>sl' s' X'. poll_events pl revs is (sl, s) = Some (sl', s') \<and> sched_inv s' D X' \<and>
    chosen_ok s' sl' \<and> X' \<subseteq> chosen_ids sl' \<and> chosen_ids sl \<subseteq> chosen_ids sl' \<and> poll_frame s sl' s'"
  using assms
proof (induction "is" arbitrary: s sl X)
  case Nil
  then show ?case using poll_frame_refl [of s sl] by auto
next
  case (Cons i "is")
  from poll_event_ok [OF Cons.prems, of revs i] obtain sl1 s1 X1 where
    1: "poll_event pl revs i (sl, s) = Some (sl1, s1)" "sched_inv s1 D X1" "chosen_ok s1 sl1"
      "polled_ok s1 pl" "X1 \<subseteq> chosen_ids sl1" "chosen_ids sl \<subseteq> chosen_ids sl1" "poll_frame s sl1 s1"
    by blast
  from Cons.IH [OF 1(2-5)] obtain sl' s' X' where
    2: "poll_events pl revs is (sl1, s1) = Some (sl', s')" "sched_inv s' D X'" "chosen_ok s' sl'"
      "X' \<subseteq> chosen_ids sl'" "chosen_ids sl1 \<subseteq> chosen_ids sl'" "poll_frame s1 sl' s'" by blast
  have "poll_events pl revs (i # is) (sl, s) = Some (sl', s')" using 1(1) 2(1) by simp
  moreover have "chosen_ids sl \<subseteq> chosen_ids sl'" using 1(6) 2(5) by blast
  ultimately show ?case using 2(2-4) poll_frame_trans [OF 1(7) 2(6,5)] by blast
qed

lemma poll_phase_ok:
  assumes "sched_inv s D {}" "chosen_ok s sl" "polled_ok s pl"
  shows "\<exists>sl' s' X'. poll_phase poll (sl, pl, n) s = Some (sl', s') \<and> sched_inv s' D X' \<and>
    chosen_ok s' sl' \<and> X' \<subseteq> chosen_ids sl' \<and> chosen_ids sl \<subseteq> chosen_ids sl' \<and> poll_frame s sl' s'"
proof (cases "n > 0 \<and> poll (poll_request pl n) \<noteq> None")
  case True
  then obtain revs where "poll_phase poll (sl, pl, n) s = poll_events pl revs [0..<nat n] (sl, s)"
    by (auto simp: poll_phase_def)
  with poll_events_ok [OF assms, of revs "[0..<nat n]"] show ?thesis by auto
next
  case False
  then have "poll_phase poll (sl, pl, n) s = Some (sl, s)" by (auto simp: poll_phase_def)
  with assms poll_frame_refl [of s sl] show ?thesis by blast
qed

section \<open>A turn of the loop\<close>

lemma chosen_scheduled:
  assumes "chosen_ok s sl"
  shows "scheduled_ok s (bst_inorder sl)" "fst ` set (bst_inorder sl) = chosen_ids sl"
proof -
  have ok: "bst_ok sl" using assms by (simp add: chosen_ok_def)
  show "scheduled_ok s (bst_inorder sl)"
    using assms tree.entries_distinct [OF ok] by (auto simp: scheduled_ok_def chosen_ok_def bst_inorder_abs [OF ok])
  show "fst ` set (bst_inorder sl) = chosen_ids sl"
    unfolding chosen_ids_def dom_bst_abs [OF ok] by (simp add: bst_keys_def)
qed

text \<open>Where a pending task is after a turn.\<close>

definition turned :: "('h, 'd) sched \<Rightarrow> int \<Rightarrow> ptr \<Rightarrow> ('h, 'd) task \<Rightarrow> ('h, 'd) sched \<Rightarrow> bool" where
  "turned s k p t s' \<longleftrightarrow>
     t_data t \<in> set (s_dead s') \<and> s_heap s' p = None \<or>
     validate_data s t \<and> p \<in> set (workers_queue s') \<or>
     validate_data s t \<and> \<not> due s t \<and> pending s' k p t"

lemma wait_turn_inv:
  assumes "sched_inv s D {}" "s_timeout s < s_time s" "n_workers s > 0"
  shows "\<exists>idle s'. antd_scheduler_wait run poll s = Some (idle, s') \<and> sched_inv s' D {} \<and>
    (idle \<longleftrightarrow> task_queue s' = BNull) \<and> (\<forall>k p t. pending s k p t \<longrightarrow> turned s k p t s')"
proof -
  obtain sl pl n where c: "collect_phase s = Some (sl, pl, n)" "chosen_ok s sl" "polled_ok s pl"
      "\<And>k p t. pending s k p t \<Longrightarrow> due s t \<Longrightarrow> k \<in> chosen_ids sl"
    using collect_phase_ok [OF assms(1)] by blast
  from poll_phase_ok [OF assms(1) c(2,3), of poll n] obtain sl1 s1 X where
    p1: "poll_phase poll (sl, pl, n) s = Some (sl1, s1)" "sched_inv s1 D X" "chosen_ok s1 sl1"
      "X \<subseteq> chosen_ids sl1" "chosen_ids sl \<subseteq> chosen_ids sl1" "poll_frame s sl1 s1" by blast
  have env: "same_env s s1" using p1(6) by (simp add: poll_frame_def)
  then have t1: "s_timeout s1 < s_time s1" "n_workers s1 > 0"
    using assms(2,3) by (simp_all add: same_env_def s_time_def)
  note sch = chosen_scheduled [OF p1(3)]
  have "X \<subseteq> fst ` set (bst_inorder sl1)" using p1(4) sch(2) by simp
  from deploy_list_inv [OF p1(2) sch(1) this t1, of run, unfolded sch(2)] obtain s' where
    d: "fold (\<lambda>(k, d) st. do { s1 \<leftarrow> st; antd_deploy_task run k d s1 }) (bst_inorder sl1) (Some s1) = Some s'"
      "sched_inv s' D {}" "same_env s1 s'"
      "\<And>k p t. (k, Some p) \<in> set (bst_inorder sl1) \<Longrightarrow> pending s1 k p t \<Longrightarrow> dispatched s1 p t s'"
      "\<And>k p t. k \<notin> chosen_ids sl1 \<Longrightarrow> pending s1 k p t \<Longrightarrow> pending s' k p t"
    by blast
  have "antd_scheduler_wait run poll s = Some (task_queue s' = BNull, s')"
    using c(1) p1(1) d(1) by (simp add: antd_scheduler_wait_def deploy_phase_def bst_for_each_fold)
  moreover have "turned s k p t s'" if pend: "pending s k p t" for k p t
  proof (cases "k \<in> chosen_ids sl1")
    case True
    then obtain d where d': "(k, d) \<in> set (bst_inorder sl1)" using sch(2) by force
    then obtain p' t' where "d = Some p'" "pending s1 k p' t'"
      using sch(1) unfolding scheduled_ok_def by blast
    moreover have "task_queue s1 = task_queue s" using p1(6) by (simp add: poll_frame_def)
    ultimately have pt: "d = Some p" "pending s1 k p t'" using pend by (auto simp: pending_def)
    have "pending s1 k p t \<or> pending s1 k p (killed t)"
      using p1(6) pend unfolding poll_frame_def by (elim conjE allE impE) auto
    with pt(2) have tt: "t' = t \<or> t' = killed t"
      unfolding pending_def by (metis option.inject)
    have val: "validate_data s1 u = validate_data s u" for u
      using env by (simp add: validate_data_def s_time_def same_env_def)
    have nv: "\<not> validate_data s (killed t)" using assms(2) by (simp add: validate_data_def)
    have disp: "dispatched s1 p t' s'" using d(4) [OF _ pt(2)] d' pt(1) by simp
    from tt show ?thesis
    proof
      assume "t' = t"
      with disp t1(2) show ?thesis unfolding dispatched_def turned_def val by (simp split: if_splits)
    next
      assume "t' = killed t"
      with disp nv show ?thesis unfolding dispatched_def turned_def val by simp
    qed
  next
    case False
    then have "pending s1 k p t" using p1(6) pend unfolding poll_frame_def by blast
    then have "pending s' k p t" by (rule d(5) [OF False])
    moreover have nd: "\<not> due s t" using c(4) [OF pend] False p1(5) by blast
    moreover have "validate_data s t" using nd by (cases "t_events t") (auto simp: due_def due_event_def)
    ultimately show ?thesis by (simp add: turned_def)
  qed
  ultimately show ?thesis using d(2) by blast
qed

section \<open>The threads together\<close>

text \<open>Where the scheduler thread is in its loop.\<close>

datatype pc = AtCollect | AtPoll "ptr bst" "evt bst" int | AtDeploy "(int \<times> ptr option) list"

text \<open>
  A configuration is the shared state, the tasks the workers are executing, and the place of the
  scheduler thread.  The main thread submits tasks, time passes, the scheduler thread collects,
  polls and deploys one task at a time, workers take and execute tasks, in any order.
\<close>

type_synonym ('h, 'd) conf = "('h, 'd) sched \<times> ptr list \<times> pc"

inductive sched_step :: "('h, 'd) conf \<Rightarrow> ('h, 'd) conf \<Rightarrow> bool" where
  submit: "t_handle t \<noteq> None \<Longrightarrow> fresh_id (t_id t) (s_next s) s \<Longrightarrow> new_task t s = (p, s1) \<Longrightarrow>
    antd_scheduler_add_task p s1 = Some s2 \<Longrightarrow> sched_step (s, D, pc) (s2, D, pc)"
| clock: "s_usec s \<le> us \<Longrightarrow> sched_step (s, D, pc) (s\<lparr>s_usec := us\<rparr>, D, pc)"
| collect: "collect_phase s = Some (sl, pl, n) \<Longrightarrow> sched_step (s, D, AtCollect) (s, D, AtPoll sl pl n)"
| poll: "poll_phase po (sl, pl, n) s = Some (sl', s') \<Longrightarrow>
    sched_step (s, D, AtPoll sl pl n) (s', D, AtDeploy (bst_inorder sl'))"
| deploy: "n_workers s \<le> 0 \<longrightarrow> (\<forall>p. d = Some p \<longrightarrow> id_ok run p s) \<Longrightarrow>
    antd_deploy_task run k d s = Some s' \<Longrightarrow>
    sched_step (s, D, AtDeploy ((k, d) # L)) (s', D, AtDeploy L)"
| again: "sched_step (s, D, AtDeploy []) (s, D, AtCollect)"
| take: "work_take s = (Some p, s') \<Longrightarrow> sched_step (s, D, pc) (s', p # D, pc)"
| execute: "p \<in> set D \<Longrightarrow> id_ok run p s \<Longrightarrow> antd_execute_task run p s = Some s' \<Longrightarrow>
    sched_step (s, D, pc) (s', remove1 p D, pc)"

inductive_cases collect_stepE: "sched_step (s, D, AtCollect) c"
inductive_simps deploy_done_simp: "sched_step (s, D, AtDeploy []) (s', D', AtCollect)"

inductive sched_reach :: "('h, 'd) conf \<Rightarrow> bool" where
  start: "timeout < now div 1000000 \<Longrightarrow> sched_reach (antd_scheduler_init n timeout now, [], AtCollect)"
| step: "sched_reach c \<Longrightarrow> sched_step c c' \<Longrightarrow> sched_reach c'"

definition conf_inv :: "('h, 'd) conf \<Rightarrow> bool" where
  "conf_inv c \<longleftrightarrow> (case c of (s, D, pc) \<Rightarrow> s_timeout s < s_time s \<and>
     (case pc of
        AtCollect \<Rightarrow> sched_inv s D {}
      | AtPoll sl pl n \<Rightarrow> sched_inv s D {} \<and> chosen_ok s sl \<and> polled_ok s pl
      | AtDeploy L \<Rightarrow> (\<exists>X. sched_inv s D X \<and> scheduled_ok s L \<and> X \<subseteq> fst ` set L)))"

lemma conf_inv_sched: "conf_inv (s, D, pc) \<Longrightarrow> \<exists>X. sched_inv s D X"
  by (auto simp: conf_inv_def split: pc.splits)

lemma conf_inv_keep:
  assumes "conf_inv (s, D, pc)" "s_timeout s' < s_time s'"
    "\<And>X. sched_inv s D X \<Longrightarrow> sched_inv s' D' X"
    "\<And>X k p t. sched_inv s D X \<Longrightarrow> pending s k p t \<Longrightarrow> pending s' k p t"
  shows "conf_inv (s', D', pc)"
proof (cases pc)
  case AtCollect
  with assms show ?thesis by (simp add: conf_inv_def)
next
  case (AtPoll sl pl n)
  with assms(1) have 1: "sched_inv s D {}" "chosen_ok s sl" "polled_ok s pl" by (auto simp: conf_inv_def)
  have "chosen_ok s' sl" using 1(2) assms(4) [OF 1(1)] unfolding chosen_ok_def by blast
  moreover have "polled_ok s' pl" using 1(3) assms(4) [OF 1(1)] unfolding polled_ok_def by meson
  ultimately show ?thesis using AtPoll assms(2) assms(3) [OF 1(1)] by (simp add: conf_inv_def)
next
  case (AtDeploy L)
  with assms(1) obtain X where 1: "sched_inv s D X" "scheduled_ok s L" "X \<subseteq> fst ` set L"
    by (auto simp: conf_inv_def)
  have "scheduled_ok s' L" using 1(2) assms(4) [OF 1(1)] unfolding scheduled_ok_def by fast
  then show ?thesis using AtDeploy assms(2) assms(3) [OF 1(1)] 1(3) by (auto simp: conf_inv_def)
qed

lemma submit_launch:
  assumes "new_task t s = (p, s1)" "antd_scheduler_add_task p s1 = Some s2" "t_id t \<noteq> 0"
  shows "p = s_next s \<and> s2 = launch p (own_events p t) (s\<lparr>s_next := Suc p\<rparr>)"
proof -
  have p: "p = s_next s" and s1: "s1 = (store p (own_events p t) s)\<lparr>s_next := Suc p\<rparr>"
    using assms(1) by (auto simp: new_task_def Let_def)
  have "antd_scheduler_add_task p s1 = Some (launch p (own_events p t) s1)"
    using assms(3) by (intro add_task_launch) (simp_all add: s1)
  with assms(2) have "s2 = launch p (own_events p t) s1" by simp
  with p s1 show ?thesis by (simp add: launch_def store_def)
qed

lemma submit_inv:
  assumes "sched_inv s D X" "t_handle t \<noteq> None" "fresh_id (t_id t) (s_next s) s"
    "s2 = launch (s_next s) (own_events (s_next s) t) (s\<lparr>s_next := Suc (s_next s)\<rparr>)"
  shows "sched_inv s2 D X" "pending s k p u \<Longrightarrow> pending s2 k p u"
proof -
  let ?s1 = "s\<lparr>s_next := Suc (s_next s)\<rparr>"
  have i1: "sched_inv ?s1 D X" by (rule sched_inv_cong [OF _ _ _ _ _ assms(1)]) simp_all
  have free: "s_heap s (s_next s) = None"
    using heap_invD(1) [OF sched_inv_heap [OF assms(1)], of "s_next s"]
    by (cases "s_heap s (s_next s)") auto
  have "fresh_id (t_id t) (s_next s) ?s1" using assms(3) by (simp add: fresh_id_def)
  from launch_inv [OF i1 _ _ assms(2) this] free show "sched_inv s2 D X" by (simp add: assms(4))
  assume pend: "pending s k p u"
  have ne: "p \<noteq> s_next s" using pend free by (auto simp: pending_def)
  have "t_id u \<noteq> t_id t" using assms(3) pend ne by (auto simp: fresh_id_def pending_def)
  then have "k \<noteq> t_id (own_events (s_next s) t)" using pending_id [OF assms(1) pend] by simp
  moreover have "pending ?s1 k p u" using pend by (simp add: pending_def)
  ultimately show "pending s2 k p u" unfolding assms(4) using ne by (intro launch_pending)
qed

lemma take_inv:
  assumes "sched_inv s D X" "work_take s = (Some p, s')"
  shows "sched_inv s' (p # D) X" "pending s k q u \<Longrightarrow> pending s' k q u" "s_usec s' = s_usec s"
    "s_timeout s' = s_timeout s"
proof -
  obtain q where w: "workers_queue s = p # q" "s' = s\<lparr>workers_queue := q\<rparr>"
    using assms(2) by (cases "workers_queue s") (auto simp: work_take_def)
  have "distinct (workers_queue s @ D)" using sched_inv_heap [OF assms(1)] by (simp add: heap_inv_def)
  then show "sched_inv s' (p # D) X"
    by (intro sched_inv_perm [OF assms(1) refl]) (auto simp: w)
  show "pending s k q u \<Longrightarrow> pending s' k q u" for q by (simp add: pending_def w)
  show "s_usec s' = s_usec s" "s_timeout s' = s_timeout s" by (simp_all add: w)
qed

lemma remove1_inv:
  assumes "sched_inv s D X" "p \<in> set D"
  shows "sched_inv s (p # remove1 p D) X"
proof -
  have "distinct (workers_queue s @ D)" using sched_inv_heap [OF assms(1)] by (simp add: heap_inv_def)
  then show ?thesis
    using assms(2) by (intro sched_inv_perm [OF assms(1) refl]) auto
qed

lemma step_inv:
  assumes "sched_step c c'" "conf_inv c"
  shows "conf_inv c'"
  using assms
proof (induction rule: sched_step.induct)
  case (submit t s p s1 s2 D pc)
  have t0: "t_id t \<noteq> 0" using submit(2) by (simp add: fresh_id_def)
  note s2 = submit_launch [OF submit(3,4) t0]
  then have e: "s2 = launch (s_next s) (own_events (s_next s) t) (s\<lparr>s_next := Suc (s_next s)\<rparr>)" by simp
  have "s_timeout s2 < s_time s2"
    using submit(5) e by (simp add: conf_inv_def launch_def s_time_def)
  with submit(5) show ?case
    by (rule conf_inv_keep) (rule submit_inv [OF _ submit(1,2) e]; assumption)+
next
  case (clock s us D pc)
  have "s_time s \<le> us div 1000000" using clock(1) by (simp add: s_time_def zdiv_mono1)
  then have "s_timeout (s\<lparr>s_usec := us\<rparr>) < s_time (s\<lparr>s_usec := us\<rparr>)"
    using clock(2) by (simp add: conf_inv_def s_time_def)
  with clock(2) show ?case
    by (rule conf_inv_keep)
      (simp_all add: sched_inv_def queue_inv_def heap_inv_def pending_def)
next
  case (collect s sl pl n D)
  then have inv: "sched_inv s D {}" by (simp add: conf_inv_def)
  from collect_phase_ok [OF inv] collect show ?case by (auto simp: conf_inv_def)
next
  case (poll po sl pl n s sl' s' D)
  then have inv: "sched_inv s D {}" "chosen_ok s sl" "polled_ok s pl" by (simp_all add: conf_inv_def)
  from poll_phase_ok [OF inv, of po n] poll(1) obtain X where
    p: "sched_inv s' D X" "chosen_ok s' sl'" "X \<subseteq> chosen_ids sl'" "poll_frame s sl' s'" by auto
  have "s_timeout s' < s_time s'"
    using poll(2) p(4) by (simp add: conf_inv_def poll_frame_def same_env_def s_time_def)
  with p(1,3) chosen_scheduled [OF p(2)] show ?case by (auto simp: conf_inv_def)
next
  case (deploy s d run k s' D L)
  then obtain X where inv: "sched_inv s D X" "scheduled_ok s ((k, d) # L)" "X \<subseteq> insert k (fst ` set L)"
      "s_timeout s < s_time s"
    by (auto simp: conf_inv_def)
  then obtain p t where d: "d = Some p" "pending s k p t" "k \<notin> fst ` set L"
    by (auto simp: scheduled_ok_def)
  have ok: "n_workers s \<le> 0 \<Longrightarrow> validate_data s t \<Longrightarrow> id_ok run p s" using deploy(1) d(1) by blast
  from deploy_inv [OF inv(1) d(2) inv(4) ok] deploy(2) d(1) have
    s': "sched_inv s' D (X - {k})" "same_env s s'"
      "\<And>k' p' t'. k' \<noteq> k \<Longrightarrow> pending s k' p' t' \<Longrightarrow> pending s' k' p' t'" by auto
  have "scheduled_ok s' L"
    unfolding scheduled_ok_def
  proof (intro conjI ballI, goal_cases)
    case 1 then show ?case using inv(2) by (simp add: scheduled_ok_def)
  next
    case (2 kd)
    obtain k1 d1 where kd: "kd = (k1, d1)" by (cases kd)
    with 2 inv(2) obtain p1 t1 where "d1 = Some p1" "pending s k1 p1 t1"
      by (auto simp: scheduled_ok_def)
    moreover have "k1 \<noteq> k" using 2 kd d(3) by force
    ultimately show ?case using s'(3) kd by blast
  qed
  moreover have "X - {k} \<subseteq> fst ` set L" using inv(3) by auto
  moreover have "s_timeout s' < s_time s'" using s'(2) inv(4) by (simp add: same_env_def s_time_def)
  ultimately show ?case using s'(1) by (auto simp: conf_inv_def)
next
  case (again s D)
  then show ?case by (auto simp: conf_inv_def scheduled_ok_def)
next
  case (take s p s' D pc)
  obtain X0 where i0: "sched_inv s D X0" using conf_inv_sched [OF take(2)] by blast
  have "s_timeout s' < s_time s'"
    using take(2) take_inv(3,4) [OF i0 take(1)] by (simp add: conf_inv_def s_time_def)
  with take(2) show ?case
    by (rule conf_inv_keep) (rule take_inv [OF _ take(1)]; assumption)+
next
  case (execute p D run s s' pc)
  obtain X0 where i0: "sched_inv s D X0" using conf_inv_sched [OF execute(4)] by blast
  have all: "sched_inv s' (remove1 p D) X \<and> same_env s s' \<and> (\<forall>k q u. pending s k q u \<longrightarrow> pending s' k q u)"
    if "sched_inv s D X" for X
    using execute_inv [OF remove1_inv [OF that execute(1)] execute(2)] execute(3) by auto
  have "s_timeout s' < s_time s'"
    using execute(4) all [OF i0] by (simp add: conf_inv_def same_env_def s_time_def)
  with execute(4) show ?case by (rule conf_inv_keep) (use all in blast)+
qed

lemma reach_inv: "sched_reach c \<Longrightarrow> conf_inv c"
proof (induction rule: sched_reach.induct)
  case (start timeout now n)
  have "sched_inv (antd_scheduler_init n timeout now) [] {}"
    by (simp add: sched_inv_def queue_inv_def heap_inv_def antd_scheduler_init_def)
  with start show ?case by (simp add: conf_inv_def antd_scheduler_init_def s_time_def)
next
  case (step c c')
  then show ?case by (blast intro: step_inv)
qed

section \<open>Fresh ids\<close>

lemma next_id_loop_sound:
  "next_id_loop i s = Some (j, s') \<Longrightarrow>
     bst_find (task_queue s) j = BNull \<and> (\<exists>a \<ge> id_allocator s. s' = s\<lparr>id_allocator := a\<rparr>)"
proof (induction i s rule: next_id_loop.induct)
  case (1 i s)
  show ?case
  proof (cases "bst_find (task_queue s) i = BNull")
    case True
    with 1(2) have "j = i" "s' = s" by (simp_all add: next_id_loop.simps [of i s])
    with True show ?thesis by (intro conjI exI [of _ "id_allocator s"]) simp_all
  next
    case False
    with 1(2) have lt: "\<not> id_allocator s \<ge> INT_MAX"
      by (auto simp: next_id_loop.simps [of i s] split: if_splits)
    with False 1(2) have "next_id_loop (id_allocator s + 1) (s\<lparr>id_allocator := id_allocator s + 1\<rparr>) = Some (j, s')"
      by (simp add: next_id_loop.simps [of i s])
    from 1(1) [OF False lt this] obtain a where
      "bst_find (task_queue s) j = BNull" "id_allocator s + 1 \<le> a" "s' = s\<lparr>id_allocator := a\<rparr>" by auto
    then show ?thesis by (intro conjI exI [of _ a]) simp_all
  qed
qed

lemma card_above_Suc:
  "finite K \<Longrightarrow> a \<in> K \<Longrightarrow> card {k \<in> K. a \<le> k} = Suc (card {k \<in> K. a + 1 \<le> (k::int)})"
proof -
  assume K: "finite K" "a \<in> K"
  then have "{k \<in> K. a \<le> k} = insert a {k \<in> K. a + 1 \<le> k}" by auto
  with K show ?thesis by simp
qed

lemma next_id_loop_total:
  assumes "bst_ok (task_queue s)"
    "id_allocator s + int (card {k \<in> bst_keys (task_queue s). id_allocator s \<le> k}) \<le> INT_MAX"
  shows "next_id_loop (id_allocator s) s \<noteq> None"
  using assms
proof (induction "id_allocator s" s rule: next_id_loop.induct)
  case (1 s)
  let ?K = "bst_keys (task_queue s)" and ?a = "id_allocator s"
  show ?case
  proof (cases "bst_find (task_queue s) ?a = BNull")
    case True
    then show ?thesis by (simp add: next_id_loop.simps [of _ s])
  next
    case False
    then have "?a \<in> ?K" using bst_abs_keys [OF 1(2)] by (simp add: bst_find_abs)
    then have "card {k \<in> ?K. ?a \<le> k} = Suc (card {k \<in> ?K. ?a + 1 \<le> k})"
      by (intro card_above_Suc) simp_all
    with 1(3) have le: "?a + 1 + int (card {k \<in> ?K. ?a + 1 \<le> k}) \<le> INT_MAX" by simp
    then have lt: "\<not> ?a \<ge> INT_MAX" by linarith
    from 1(1) [OF False lt] 1(2) le lt False show ?thesis
      by (simp add: next_id_loop.simps [of _ s])
  qed
qed

section \<open>Properties\<close>

text \<open>A scheduler with two workers and one task that was just submitted.\<close>

definition demo_task :: "(nat, nat) task" where
  "demo_task = \<lparr>t_id = 5, t_stamp = 1000, t_access = 1000, t_handle = Some 1, t_callback = [2],
     t_events = [], t_data = 7\<rparr>"

definition demo_sched :: "(nat, nat) sched" where
  "demo_sched = launch 0 (own_events 0 demo_task) ((antd_scheduler_init 2 20 1000000000)\<lparr>s_next := Suc 0\<rparr>)"

lemma demo_reach: "sched_reach (demo_sched, [], AtCollect)"
proof (rule sched_reach.step [OF sched_reach.start sched_step.submit])
  let ?i = "antd_scheduler_init 2 20 1000000000 :: (nat, nat) sched"
  show "(20::int) < 1000000000 div 1000000" by simp
  show "t_handle demo_task \<noteq> None" by (simp add: demo_task_def)
  show "fresh_id (t_id demo_task) (s_next ?i) ?i"
    by (simp add: fresh_id_def demo_task_def antd_scheduler_init_def)
  show "new_task demo_task ?i = (0, (store 0 (own_events 0 demo_task) ?i)\<lparr>s_next := Suc 0\<rparr>)"
    by (simp add: new_task_def antd_scheduler_init_def Let_def)
  show "antd_scheduler_add_task 0 ((store 0 (own_events 0 demo_task) ?i)\<lparr>s_next := Suc 0\<rparr>) = Some demo_sched"
    by (subst add_task_launch [of _ 0 "own_events 0 demo_task"])
      (simp_all add: demo_sched_def demo_task_def launch_def store_def)
qed

lemma demo_inv: "sched_inv demo_sched [] {}" "s_timeout demo_sched < s_time demo_sched"
  using reach_inv [OF demo_reach] by (simp_all add: conf_inv_def)

lemma demo_facts:
  "n_workers demo_sched = 2" "s_heap demo_sched 0 = Some demo_task" "pending demo_sched 5 0 demo_task"
proof -
  have "own_events 0 demo_task = demo_task" by (rule own_events_id) (simp add: demo_task_def)
  then show "s_heap demo_sched 0 = Some demo_task" "pending demo_sched 5 0 demo_task"
    by (simp_all add: demo_sched_def launch_def pending_def bst_abs_insert) (simp add: demo_task_def)
  show "n_workers demo_sched = 2" by (simp add: demo_sched_def launch_def antd_scheduler_init_def)
qed







text \<open>C8. Executing a task: the handler runs once, the task is gone afterwards and at most one task takes its
  place, pending with a handle: with no result, the task itself at its next callback; otherwise the returned
  task, which keeps its own callbacks and then the rest of the chain, so no callback is
  dropped, repeated or reordered.  No other task changes.\<close>

theorem execute_contract:
  assumes "sched_inv s (p # D) X" "s_heap s p = Some t" "id_ok run p s"
  shows "\<exists>s'. antd_execute_task run p s = Some s' \<and> sched_inv s' D X \<and>
    (case next_task run t of
       None \<Rightarrow> s_heap s' = (s_heap s)(p := None)
     | Some nt \<Rightarrow> \<exists>q. (q = p \<or> s_heap s q = None) \<and> t_handle nt \<noteq> None \<and>
         s_heap s' = (s_heap s)(p := None, q := Some (own_events q nt)) \<and>
         pending s' (t_id nt) q (own_events q nt))"
proof -
  have hi: "heap_inv s (workers_queue s @ p # D) X" by (rule sched_inv_heap [OF assms(1)])
  have free: "s_heap s (s_next s) = None"
    using heap_invD(1) [OF hi, of "s_next s"] by (cases "s_heap s (s_next s)") auto
  have q: "next_ptr run p t s = p \<or> s_heap s (next_ptr run p t s) = None"
    using free by (auto simp: next_ptr_def split: option.splits)
  from execute_inv [OF assms(1,3)] assms(2) obtain s' where
    s': "antd_execute_task run p s = Some s'" "sched_inv s' D X"
      "s' = settle (next_task run t) (next_ptr run p t s) (retired run p t s)" by auto
  show ?thesis
  proof (cases "next_task run t")
    case None
    with s' show ?thesis by (auto simp: settle_def retired_def finish_def Let_def)
  next
    case (Some nt)
    with s'(3) have "s_heap s' = (s_heap s)(p := None, next_ptr run p t s := Some (own_events (next_ptr run p t s) nt))"
      "pending s' (t_id nt) (next_ptr run p t s) (own_events (next_ptr run p t s) nt)"
      by (auto simp: settle_def retired_def finish_def launch_def pending_def bst_abs_insert Let_def)
    with s'(1,2) q Some next_task_handle [OF Some] show ?thesis by auto
  qed
qed

theorem execute_contract_witness:
  "\<exists>s s'. work_take (demo_sched\<lparr>task_queue := BNull, pending_task := 0, workers_queue := [0]\<rparr>) = (Some 0, s) \<and>
     antd_execute_task (\<lambda>h d. None) 0 s = Some s' \<and> pending s' 5 0 (demo_task\<lparr>t_handle := Some 2, t_callback := []\<rparr>)"
proof -
  let ?s = "demo_sched\<lparr>task_queue := BNull, pending_task := 0, workers_queue := []\<rparr>"
  have own: "own_events 0 demo_task = demo_task" by (rule own_events_id) (simp add: demo_task_def)
  have heap: "s_heap ?s = [0 \<mapsto> demo_task]" "s_next ?s = Suc 0"
    using own by (auto simp: demo_sched_def launch_def antd_scheduler_init_def)
  have inv: "sched_inv ?s [0] {}"
    using heap by (auto simp: sched_inv_def queue_inv_def heap_inv_def demo_task_def split: if_splits)
  have nt: "next_task (\<lambda>h d. None) demo_task = Some (demo_task\<lparr>t_handle := Some 2, t_callback := []\<rparr>)"
    by (simp add: next_task_def start_chain_def demo_task_def)
  have "id_ok (\<lambda>h d. None) 0 ?s"
    using heap nt by (auto simp: id_ok_def fresh_id_def) (simp add: demo_task_def)
  from execute_contract [OF inv _ this, of demo_task] heap nt obtain s' q where
    s': "antd_execute_task (\<lambda>h d. None) 0 ?s = Some s'"
      "pending s' 5 q (own_events q (demo_task\<lparr>t_handle := Some 2, t_callback := []\<rparr>))"
      "q = 0 \<or> s_heap ?s q = None" "s_heap s' = (s_heap ?s)(0 := None,
         q := Some (own_events q (demo_task\<lparr>t_handle := Some 2, t_callback := []\<rparr>)))"
    by (auto simp: demo_task_def)
  have "antd_execute_task (\<lambda>h d. None) 0 ?s =
      Some (settle (next_task (\<lambda>h d. None) demo_task) 0 (finish 0 ?s))"
    using execute_task_result [of ?s 0 demo_task "\<lambda>h d. None"] heap nt
    by (simp add: demo_task_def next_ptr_def retired_def)
  with s'(1) nt have "pending s' 5 0 (own_events 0 (demo_task\<lparr>t_handle := Some 2, t_callback := []\<rparr>))"
    by (auto simp: settle_def launch_def pending_def bst_abs_insert demo_task_def)
  moreover have "own_events 0 (demo_task\<lparr>t_handle := Some 2, t_callback := []\<rparr>) =
      demo_task\<lparr>t_handle := Some 2, t_callback := []\<rparr>"
    by (rule own_events_id) (simp add: demo_task_def)
  moreover have "work_take (demo_sched\<lparr>task_queue := BNull, pending_task := 0, workers_queue := [0]\<rparr>) = (Some 0, ?s)"
    by (simp add: work_take_def)
  ultimately show ?thesis using s'(1) by auto
qed

text \<open>\<open>antd_scheduler_next_id\<close> returns an id no pending task has and changes only the
  allocator; it returns whenever the counter has room for the pending tasks below \<open>INT_MAX\<close>.\<close>

lemma next_id_fresh:
  assumes "bst_ok (task_queue s)"
    "max 0 (id_allocator s) + int (card (bst_keys (task_queue s))) < INT_MAX"
  shows "\<exists>i a. antd_scheduler_next_id input s = Some (i, s\<lparr>id_allocator := a\<rparr>) \<and>
    i \<notin> bst_keys (task_queue s) \<and> (input \<noteq> 0 \<and> input \<notin> bst_keys (task_queue s) \<longrightarrow> i = input)"
proof -
  define s0 where "s0 = s\<lparr>id_allocator := max 0 (id_allocator s)\<rparr>"
  define s1 where "s1 = s\<lparr>id_allocator := max 0 (id_allocator s) + 1\<rparr>"
  have s0: "(if id_allocator s < 0 then s\<lparr>id_allocator := 0\<rparr> else s) = s0" by (auto simp: s0_def)
  have tq: "task_queue s0 = task_queue s" "task_queue s1 = task_queue s" by (simp_all add: s0_def s1_def)
  have room: "\<not> id_allocator s0 \<ge> INT_MAX" using assms(2) by (simp add: s0_def)
  have "card {k \<in> bst_keys (task_queue s). id_allocator s1 \<le> k} \<le> card (bst_keys (task_queue s))"
    by (intro card_mono) auto
  then have "next_id_loop (id_allocator s1) s1 \<noteq> None"
    using assms by (intro next_id_loop_total) (auto simp: s1_def)
  then obtain j1 where j1: "next_id_loop (id_allocator s1) s1 = Some j1" by auto
  have eq: "antd_scheduler_next_id input s =
      (if input = 0 then next_id_loop (id_allocator s1) s1 else next_id_loop input s0)"
    using room by (simp add: antd_scheduler_next_id_def s0 Let_def) (simp add: s0_def s1_def)
  have second: "next_id_loop input s0 =
      (if bst_find (task_queue s) input \<noteq> BNull then next_id_loop (id_allocator s1) s1 else Some (input, s0))"
    using room tq by (simp add: next_id_loop.simps [of input s0]) (simp add: s0_def s1_def)
  have out: "\<exists>i a. r = (i, s\<lparr>id_allocator := a\<rparr>) \<and> i \<notin> bst_keys (task_queue s)"
    if "next_id_loop (id_allocator s1) s1 = Some r" for r
  proof -
    obtain i t where r: "r = (i, t)" by (cases r)
    from next_id_loop_sound [OF that [unfolded r]] tq(2) r bst_abs_keys [OF assms(1)] show ?thesis
      by (auto simp: s1_def bst_find_abs)
  qed
  show ?thesis
  proof (cases "input = 0 \<or> bst_find (task_queue s) input \<noteq> BNull")
    case True
    then have "antd_scheduler_next_id input s = Some j1" using eq second j1 by auto
    with out [OF j1] True bst_abs_keys [OF assms(1)] show ?thesis by (auto simp: bst_find_abs)
  next
    case False
    then have "antd_scheduler_next_id input s = Some (input, s0)" using eq second by simp
    with False bst_abs_keys [OF assms(1)] show ?thesis by (auto simp: s0_def bst_find_abs)
  qed
qed

text \<open>Adding a task under the id of a pending one loses the pending one: it stays allocated
  and counted but no table holds it any more.  Ids are compared with the pending tree only, and
  only when they are handed out, so two tasks whose ids are drawn before either is added, or an id given
  out while its first owner is being executed, lead here.\<close>

lemma add_task_id_clash:
  assumes "bst_ok (task_queue s)" "s_heap s p = Some t" "t_id t \<noteq> 0"
    "pending s (t_id t) q u" "q \<noteq> p"
  shows "\<exists>s'. antd_scheduler_add_task p s = Some s' \<and> s_heap s' q = Some u \<and>
    bst_abs (task_queue s') (t_id t) = Some (Some p) \<and>
    card (bst_keys (task_queue s')) = card (bst_keys (task_queue s)) \<and>
    pending_task s' = pending_task s + 1 \<and>
    (queue_inv s \<longrightarrow> (\<forall>k. bst_abs (task_queue s') k \<noteq> Some (Some q)))"
proof -
  have key: "t_id t \<in> bst_keys (task_queue s)"
    using assms(4) bst_abs_keys [OF assms(1), of "t_id t"] by (auto simp: pending_def)
  have add: "antd_scheduler_add_task p s = Some (launch p t s)"
    by (rule add_task_launch [OF assms(2,3)])
  have "bst_abs (task_queue (launch p t s)) k \<noteq> Some (Some q)" if "queue_inv s" for k
  proof (cases "k = t_id t")
    case False
    have qid: "k' = t_id u" if qq: "bst_abs (task_queue s) k' = Some (Some q)" for k'
    proof -
      obtain p' t' where "Some q = Some p'" "s_heap s p' = Some t'" "t_id t' = k'"
        by (rule queue_invD [OF \<open>queue_inv s\<close> qq])
      with assms(4) show ?thesis by (simp add: pending_def)
    qed
    have "t_id t = t_id u" using qid assms(4) by (simp add: pending_def)
    with False qid [of k] show ?thesis
      by (auto simp: launch_def bst_abs_insert)
  qed (use assms(5) in \<open>simp add: launch_def bst_abs_insert\<close>)
  with add key assms(4,5) show ?thesis
    by (simp add: launch_def bst_abs_insert pending_def insert_absorb)
qed

end
