(* ===== verification/Utils.thy ===== *)
theory Utils
  imports Dict UrlCodec
begin

text \<open>
  String helpers of \<open>lib/utils.c\<close>: \<open>trim\<close>, \<open>ext\<close>, \<open>verify_header\<close>, \<open>match_int\<close>,
  \<open>match_float\<close> and the MIME lookup.  The two number patterns are fixed, so their regular
  expressions are written out; the pattern \<open>mime_from_ext\<close> builds from a file extension is
  matched by the regular expression library, a parameter \<open>regex\<close> here.
\<close>

section \<open>Operations\<close>

text \<open>\<open>trim\<close>: the delimiter is removed at the end, then at the start.\<close>

fun trim_end :: "char \<Rightarrow> nat \<Rightarrow> cstring \<Rightarrow> cstring" where
  "trim_end delim 0 s = take 0 s"
| "trim_end delim (Suc l) s = (if s ! l = delim then trim_end delim l s else take (Suc l) s)"

fun trim_start :: "char \<Rightarrow> cstring \<Rightarrow> cstring" where
  "trim_start delim [] = []"
| "trim_start delim (c # cs) = (if c = delim then trim_start delim cs else c # cs)"

definition trim :: "cstring \<Rightarrow> char \<Rightarrow> cstring" where
  "trim str delim = trim_start delim (trim_end delim (length str) str)"

text \<open>\<open>ext\<close>: the loop keeps the last token before an empty one.\<close>

definition ext :: "cstring option \<Rightarrow> cstring option" where
  "ext file =
     (case file of
        None \<Rightarrow> None
      | Some f \<Rightarrow>
          if \<not> strstr f ''.'' then None
          else let str_cpy = (if hd f = CHR ''.'' then trim f CHR ''.'' else f)
               in Some (last ([] # takeWhile (\<lambda>token. token \<noteq> []) (strsep_all ''.'' str_cpy))))"

definition verify_header :: "cstring \<Rightarrow> cstring" where
  "verify_header k =
     (let k0 = (case k of [] \<Rightarrow> [] | c # cs \<Rightarrow> c_toupper c # cs); len = length k0 in
      fold (\<lambda>i k. if k ! i = CHR ''-'' \<and> i < len - 1
                  then k[i + 1 := c_toupper (k ! (i + 1))] else k) [0..<len] k0)"

definition sign_opt :: "cstring \<Rightarrow> cstring" where
  "sign_opt s = (case s of c # cs \<Rightarrow> if c = CHR ''+'' \<or> c = CHR ''-'' then cs else s | [] \<Rightarrow> [])"

text \<open>\<open>^[-+]?[0-9]+$\<close> and \<open>^[+-]?[0-9]*[.][0-9]+$\<close>\<close>

definition match_int :: "cstring \<Rightarrow> bool" where
  "match_int search = (let ds = sign_opt search in ds \<noteq> [] \<and> list_all c_isdigit ds)"

definition match_float :: "cstring \<Rightarrow> bool" where
  "match_float search =
     (case dropWhile c_isdigit (sign_opt search) of
        c # ds \<Rightarrow> c = CHR ''.'' \<and> ds \<noteq> [] \<and> list_all c_isdigit ds
      | [] \<Rightarrow> False)"

record mime_t =
  mime_type :: "cstring option"
  mime_ext :: "cstring option"

definition ext_pattern :: "cstring \<Rightarrow> cstring" where
  "ext_pattern ex =
     (let ws = CHR 0x5C # ''s*'' in
      ''(^'' @ ws @ ex @ ws @ '',)|('' @ ws @ '','' @ ws @ ex @ ws @ '','' @ ws @
      '')|(^'' @ ws @ ex @ ws @ ''$)|(,'' @ ws @ ex @ ws @ ''$)'')"

definition octet_stream :: cstring where "octet_stream = ''application/octet-stream''"

text \<open>The MIME list is NULL until the configuration sets it.\<close>

definition mime_from_ext ::
  "(cstring \<Rightarrow> cstring option \<Rightarrow> bool) \<Rightarrow> cstring dictionary option \<Rightarrow> cstring \<Rightarrow> mime_t" where
  "mime_from_ext regex mime_list ex =
     (case mime_list of
        None \<Rightarrow> \<lparr>mime_type = Some octet_stream, mime_ext = None\<rparr>
      | Some ml \<Rightarrow>
          (case find (\<lambda>it. regex (ext_pattern ex) (snd it)) (dict_items ml) of
             None \<Rightarrow> \<lparr>mime_type = Some octet_stream, mime_ext = None\<rparr>
           | Some it \<Rightarrow> \<lparr>mime_type = Some (fst it), mime_ext = snd it\<rparr>))"

definition mime_from_type :: "cstring dictionary option \<Rightarrow> cstring \<Rightarrow> mime_t" where
  "mime_from_type mime_list type =
     (case mime_list of
        None \<Rightarrow> \<lparr>mime_type = None, mime_ext = None\<rparr>
      | Some ml \<Rightarrow>
          (case dlookup ml type of
             None \<Rightarrow> \<lparr>mime_type = None, mime_ext = None\<rparr>
           | Some it \<Rightarrow> \<lparr>mime_type = Some (fst it), mime_ext = snd it\<rparr>))"

definition mime ::
  "(cstring \<Rightarrow> cstring option \<Rightarrow> bool) \<Rightarrow> cstring dictionary option \<Rightarrow> cstring option \<Rightarrow> cstring option" where
  "mime regex mime_list file =
     (case ext file of
        None \<Rightarrow> Some octet_stream
      | Some ex \<Rightarrow> mime_type (mime_from_ext regex mime_list ex))"

section \<open>Lemmas\<close>

lemma trim_end_rev: "l \<le> length s \<Longrightarrow> trim_end d l s = rev (dropWhile (\<lambda>c. c = d) (rev (take l s)))"
  by (induction l) (auto simp: take_Suc_conv_app_nth)

lemma trim_start_dropWhile: "trim_start d s = dropWhile (\<lambda>c. c = d) s"
  by (induction s) auto

lemma trim_eq: "trim s d = dropWhile (\<lambda>c. c = d) (rev (dropWhile (\<lambda>c. c = d) (rev s)))"
  by (simp add: trim_def trim_end_rev trim_start_dropWhile)

lemma trim_decomp: "\<exists>m n. s = replicate m d @ trim s d @ replicate n d"
proof -
  let ?P = "\<lambda>c. c = d"
  have rep: "takeWhile ?P xs = replicate (length (takeWhile ?P xs)) d" for xs
    by (induction xs) auto
  let ?e = "rev (dropWhile ?P (rev s))"
  have "s = ?e @ rev (takeWhile ?P (rev s))"
    by (metis rev_append rev_rev_ident takeWhile_dropWhile_id)
  moreover have "rev (takeWhile ?P (rev s)) = replicate (length (takeWhile ?P (rev s))) d"
    by (subst rep) simp
  moreover have "?e = replicate (length (takeWhile ?P ?e)) d @ trim s d"
    by (metis rep takeWhile_dropWhile_id trim_eq)
  ultimately show ?thesis by (metis append_assoc)
qed

lemma trim_hd: "trim s d \<noteq> [] \<Longrightarrow> hd (trim s d) \<noteq> d"
  unfolding trim_eq by (metis (mono_tags, lifting) hd_dropWhile)

lemma trim_last:
  assumes "trim s d \<noteq> []"
  shows "last (trim s d) \<noteq> d"
proof -
  let ?P = "\<lambda>c. c = d"
  let ?e = "rev (dropWhile ?P (rev s))"
  have "dropWhile ?P ?e \<noteq> []" using assms by (simp add: trim_eq)
  then have "last (dropWhile ?P ?e) = last ?e" by (metis last_appendR takeWhile_dropWhile_id)
  moreover have "?e \<noteq> []" using \<open>dropWhile ?P ?e \<noteq> []\<close> by (metis dropWhile.simps(1))
  then have "last ?e \<noteq> d" by (metis (mono_tags, lifting) hd_dropWhile hd_rev rev_is_Nil_conv rev_rev_ident)
  ultimately show ?thesis by (simp add: trim_eq)
qed

lemma trim_idle: "s = [] \<or> hd s \<noteq> d \<and> last s \<noteq> d \<Longrightarrow> trim s d = s"
proof -
  assume s: "s = [] \<or> hd s \<noteq> d \<and> last s \<noteq> d"
  have idle: "xs = [] \<or> hd xs \<noteq> d \<Longrightarrow> dropWhile (\<lambda>c. c = d) xs = xs" for xs
    by (cases xs) auto
  have "dropWhile (\<lambda>c. c = d) (rev s) = rev s" using s by (intro idle) (auto simp: hd_rev)
  then show ?thesis using s idle [of s] by (auto simp: trim_eq)
qed

text \<open>The header name \<open>verify_header\<close> computes, position by position.\<close>

definition canonical :: "cstring \<Rightarrow> cstring" where
  "canonical k = map (\<lambda>i. if i = 0 \<or> k ! (i - 1) = CHR ''-'' then c_toupper (k ! i) else k ! i) [0..<length k]"

lemma c_toupper_dash [simp]: "c_toupper c = CHR ''-'' \<longleftrightarrow> c = CHR ''-''"
proof (cases "c_islower c")
  case True
  then have c: "97 \<le> code_of c" "code_of c \<le> 122" by (auto simp: c_islower_def)
  have "code_of (c_toupper c) = code_of c - 32" using True by (simp add: c_toupper_def)
  then have "code_of (c_toupper c) \<noteq> code_of CHR ''-''" using c by (simp add: code_of_def)
  moreover have "code_of c \<noteq> code_of CHR ''-''" using c by (simp add: code_of_def)
  ultimately show ?thesis by auto
qed (simp add: c_toupper_def)

lemma verify_header_canonical: "verify_header k = canonical k"
proof (cases k)
  case Nil
  then show ?thesis by (simp add: verify_header_def canonical_def)
next
  case (Cons c cs)
  define f where "f = (\<lambda>i k'. if k' ! i = CHR ''-'' \<and> i < length k - 1
     then k'[i + 1 := c_toupper (k' ! (i + 1))] else k')"
  define g where "g n = map (\<lambda>i. if i = 0 \<or> i \<le> n \<and> k ! (i - 1) = CHR ''-'' then c_toupper (k ! i) else k ! i)
     [0..<length k]" for n
  have step: "fold f [0..<n] (c_toupper c # cs) = g n" if "n \<le> length k" for n
    using that
  proof (induction n)
    case 0
    show ?case by (rule nth_equalityI) (auto simp: g_def Cons nth_Cons' simp del: upt_Suc)
  next
    case (Suc n)
    then have "fold f [0..<Suc n] (c_toupper c # cs) = f n (g n)" by simp
    also have "\<dots> = g (Suc n)"
    proof (rule nth_equalityI)
      show "length (f n (g n)) = length (g (Suc n))" by (simp add: f_def g_def)
      fix i assume "i < length (f n (g n))"
      then have i: "i < length k" by (simp add: f_def g_def split: if_splits)
      have gn: "g n ! n = CHR ''-'' \<longleftrightarrow> k ! n = CHR ''-''" using Suc.prems by (simp add: g_def)
      show "f n (g n) ! i = g (Suc n) ! i"
        using i gn by (cases "i = n + 1") (auto simp: f_def g_def nth_list_update le_Suc_eq)
    qed
    finally show ?case .
  qed
  have "verify_header k = fold f [0..<length k] (c_toupper c # cs)"
    by (simp add: verify_header_def f_def Cons Let_def)
  also have "\<dots> = canonical k"
    unfolding step [OF order_refl] g_def canonical_def by (rule map_cong) auto
  finally show ?thesis .
qed

lemma c_tolower_toupper: "c_tolower (c_toupper c) = c_tolower c"
proof (cases "c_islower c")
  case True
  then have c: "97 \<le> code_of c" "code_of c \<le> 122" by (auto simp: c_islower_def)
  then have "code_of (char_of (code_of c - 32)) = code_of c - 32" by simp
  then have "c_isupper (c_toupper c)" "code_of (c_toupper c) + 32 = code_of c" "\<not> c_isupper c"
    using True c by (auto simp: c_toupper_def c_isupper_def)
  then show ?thesis by (simp add: c_tolower_def)
qed (simp add: c_toupper_def)

lemma canonical_dash: "i < length k \<Longrightarrow> canonical k ! i = CHR ''-'' \<longleftrightarrow> k ! i = CHR ''-''"
  by (simp add: canonical_def)

section \<open>Properties\<close>

text \<open>Header names: \<open>verify_header\<close> turns the first letter and each letter after a hyphen
  to upper case and changes nothing else, so the result names the same header, and applying it
  again changes nothing.  Names that differ only in the case of other letters stay different,
  although header names are case insensitive.\<close>

lemma verify_header_spec:
  "length (verify_header k) = length k \<and>
   (\<forall>i < length k. verify_header k ! i =
      (if i = 0 \<or> k ! (i - 1) = CHR ''-'' then c_toupper (k ! i) else k ! i)) \<and>
   verify_header (verify_header k) = verify_header k \<and> strcasecmp_eq (verify_header k) k \<and>
   verify_header ''sec-websocket-key'' = ''Sec-Websocket-Key''"
proof (intro conjI)
  show "length (verify_header k) = length k"
    "\<forall>i < length k. verify_header k ! i =
      (if i = 0 \<or> k ! (i - 1) = CHR ''-'' then c_toupper (k ! i) else k ! i)"
    by (simp_all add: verify_header_canonical canonical_def)
  have len: "length (canonical j) = length j" for j by (simp add: canonical_def)
  show "verify_header (verify_header k) = verify_header k"
    unfolding verify_header_canonical
  proof (rule nth_equalityI)
    fix i assume "i < length (canonical (canonical k))"
    then have i: "i < length k" by (simp add: len)
    then have "canonical (canonical k) ! i =
        (if i = 0 \<or> canonical k ! (i - 1) = CHR ''-'' then c_toupper (canonical k ! i) else canonical k ! i)"
      by (subst canonical_def) (simp add: len)
    also have "\<dots> = canonical k ! i"
      using i canonical_dash [of "i - 1" k] by (auto simp: canonical_def)
    finally show "canonical (canonical k) ! i = canonical k ! i" .
  qed (simp add: len)
  show "strcasecmp_eq (verify_header k) k"
    unfolding strcasecmp_eq_def verify_header_canonical
    by (rule nth_equalityI) (auto simp: canonical_def c_tolower_toupper)
  show "verify_header ''sec-websocket-key'' = ''Sec-Websocket-Key''"
    unfolding verify_header_canonical canonical_def
    by (simp add: upt_rec c_toupper_def c_islower_def code_of_def char_of_def bit_0)
qed

end
