(* ===== verification/Websocket.thy ===== *)
theory Websocket
  imports ClientIo Utils
begin

text \<open>
  The WebSocket framing of \<open>lib/ws.c\<close>: frame headers (\<open>_send_header\<close>, \<open>ws_read_header\<close>),
  frames (\<open>ws_send_frame\<close>, \<open>ws_send_text\<close>, \<open>ws_send_binary\<close>, \<open>ws_send_file\<close>), reading and
  unmasking (\<open>ws_read_data\<close>) and the control frames (\<open>ws_ping\<close>, \<open>ws_pong\<close>,
  \<open>ws_send_close\<close>).  \<open>rnd\<close> is what \<open>rand()\<close> returns when a mask key is drawn.
\<close>

section \<open>Frame headers\<close>

definition WS_TEXT :: u8 where "WS_TEXT = 1"
definition WS_BIN :: u8 where "WS_BIN = 2"
definition WS_CLOSE :: u8 where "WS_CLOSE = 8"
definition WS_PING :: u8 where "WS_PING = 9"
definition WS_PONG :: u8 where "WS_PONG = 10"

record ws_header =
  fin :: u8
  opcode :: u8
  plen :: u32
  mask_bit :: u8
  mask_key :: "u8 list"

definition BITV :: "u8 \<Rightarrow> nat \<Rightarrow> u8" where
  "BITV v i = drop_bit i (v AND push_bit i 1)"

definition ws_gen_mask_key :: "u32 \<Rightarrow> u8 list" where
  "ws_gen_mask_key r = [ucast (drop_bit 24 r AND 255), ucast (drop_bit 16 r AND 255),
     ucast (drop_bit 8 r AND 255), ucast (r AND 255)]"

definition mask_bytes :: "u8 list \<Rightarrow> u8 list \<Rightarrow> u8 list" where
  "mask_bytes key data = map (\<lambda>i. data ! i XOR key ! (i mod 4)) [0..<length data]"

section \<open>Sending\<close>

text \<open>The length of a \<open>char *\<close> given to \<open>antd_send\<close> is an \<open>int\<close>; a negative one sends
  nothing.\<close>

definition send_int :: "client \<Rightarrow> u8 list \<Rightarrow> int \<Rightarrow> int \<times> client" where
  "send_int c data len = antd_send c (take (nat len) data)"

text \<open>\<open>_send_header\<close>\<close>

definition send_header :: "client \<Rightarrow> ws_header \<Rightarrow> int \<times> client" where
  "send_header c h =
     (case antd_send c [push_bit 7 (fin h) + opcode h] of (r1, c1) \<Rightarrow>
      if r1 \<noteq> 1 then (-1, c1) else
      case
        (if plen h \<le> 125 then
           (case antd_send c1 [push_bit 7 (mask_bit h) + ucast (plen h)] of (r2, c2) \<Rightarrow> (r2 = 1, c2))
         else if plen h < 65536 then
           (case antd_send c1 [push_bit 7 (mask_bit h) + 126] of (r2, c2) \<Rightarrow>
            if r2 \<noteq> 1 then (False, c2) else
            case antd_send c2 [ucast (drop_bit 8 (plen h)), ucast (plen h AND 255)] of (r3, c3) \<Rightarrow>
              (r3 = 2, c3))
         else
           (case antd_send c1 [push_bit 7 (mask_bit h) + 127] of (r2, c2) \<Rightarrow>
            if r2 \<noteq> 1 then (False, c2) else
            case antd_send c2 [0, 0, 0, 0, ucast (drop_bit 24 (plen h)), ucast (drop_bit 16 (plen h) AND 255),
                ucast (drop_bit 8 (plen h) AND 255), ucast (plen h AND 255)] of (r3, c3) \<Rightarrow>
              (r3 = 8, c3))) of (ok, c4) \<Rightarrow>
      if \<not> ok then (-1, c4)
      else if mask_bit h \<noteq> 0 then
        (case antd_send c4 (take 4 (mask_key h)) of (r5, c5) \<Rightarrow> if r5 \<noteq> 4 then (-1, c5) else (0, c5))
      else (0, c4))"

definition ws_send_frame :: "u32 \<Rightarrow> client \<Rightarrow> u8 list \<Rightarrow> ws_header \<Rightarrow> int \<times> client" where
  "ws_send_frame rnd c data header =
     (let h = (if mask_bit header \<noteq> 0 then header\<lparr>mask_key := ws_gen_mask_key rnd\<rparr> else header);
          masked = (if mask_bit header \<noteq> 0 then mask_bytes (mask_key h) data else data);
          (st, c1) = send_header c h
      in if st \<noteq> 0 then (-1, c1)
         else let (ret, c2) = send_int c1 masked (sint (plen h)) in
              if ret \<noteq> sint (plen h) then (-1, c2) else (0, c2))"

definition ws_send_text :: "u32 \<Rightarrow> client \<Rightarrow> cstring \<Rightarrow> u8 \<Rightarrow> int \<times> client" where
  "ws_send_text rnd c data msk =
     ws_send_frame rnd c (map byte_of data)
       \<lparr>fin = 1, opcode = WS_TEXT, plen = of_nat (length data), mask_bit = msk, mask_key = [0, 0, 0, 0]\<rparr>"

definition ws_send_binary :: "u32 \<Rightarrow> client \<Rightarrow> u8 list \<Rightarrow> int \<Rightarrow> u8 \<Rightarrow> int \<times> client" where
  "ws_send_binary rnd c data l msk =
     ws_send_frame rnd c data
       \<lparr>fin = 1, opcode = WS_BIN, plen = of_int l, mask_bit = msk, mask_key = [0, 0, 0, 0]\<rparr>"

definition ws_send_close :: "u32 \<Rightarrow> client \<Rightarrow> u32 \<Rightarrow> u8 \<Rightarrow> int \<times> client" where
  "ws_send_close rnd c status msk =
     ws_send_frame rnd c [ucast (drop_bit 8 status), ucast (status AND 255)]
       \<lparr>fin = 1, opcode = WS_CLOSE, plen = 2, mask_bit = msk, mask_key = [0, 0, 0, 0]\<rparr>"

definition ws_ping :: "u32 \<Rightarrow> client \<Rightarrow> cstring \<Rightarrow> u8 \<Rightarrow> int \<times> client" where
  "ws_ping rnd c echo msk =
     ws_send_frame rnd c (map byte_of echo)
       \<lparr>fin = 1, opcode = WS_PING, plen = of_nat (length echo), mask_bit = msk, mask_key = [0, 0, 0, 0]\<rparr>"

text \<open>The loop of \<open>ws_send_file\<close> over what is left of the file.  \<open>feof\<close> holds once a read came
  back short; every frame draws its own random number from \<open>rnds\<close>.\<close>

function ws_file_loop :: "(nat \<Rightarrow> u32) \<Rightarrow> nat \<Rightarrow> u8 \<Rightarrow> client \<Rightarrow> u8 list \<Rightarrow> int \<Rightarrow> int \<times> client" where
  "ws_file_loop rnds n msk c rest ret =
     (let buff = take 1024 rest;
          eof = (length rest < 1024);
          header = \<lparr>fin = (if eof then 1 else 0), opcode = (if n = 0 then WS_BIN else 0),
                    plen = of_nat (length buff), mask_bit = msk, mask_key = [0, 0, 0, 0]\<rparr>;
          (r, c1) = ws_send_frame (rnds n) c buff header
      in if eof then (ret + r, c1)
         else ws_file_loop rnds (Suc n) msk c1 (drop 1024 rest) (ret + r))"
  by pat_completeness auto
termination
  by (relation "measure (\<lambda>(rnds, n, msk, c, rest, ret). length rest)") auto

declare ws_file_loop.simps [simp del]

definition ws_send_file :: "(nat \<Rightarrow> u32) \<Rightarrow> client \<Rightarrow> u8 list option \<Rightarrow> u8 \<Rightarrow> int \<times> client" where
  "ws_send_file rnds c file msk =
     (case file of
        None \<Rightarrow> ws_send_close (rnds 0) c 1011 msk
      | Some data \<Rightarrow>
          let (ret, c1) = ws_file_loop rnds 0 msk c data 0 in (if ret \<noteq> 0 then -1 else 0, c1))"

section \<open>Receiving\<close>

text \<open>\<open>ws_read_data\<close>: the result, the bytes written to the caller's buffer (the terminator
  included), the header and the socket.\<close>

definition ws_read_data :: "client \<Rightarrow> ws_header \<Rightarrow> int \<Rightarrow> int \<times> u8 list \<times> ws_header \<times> client" where
  "ws_read_data c h len =
     (if plen h = 0 then (0, [], h, c)
      else
        let dlen = (if len = -1 \<or> len > sint (plen h) then sint (plen h) else len) in
        (case antd_recv c dlen of (r, bs, c1) \<Rightarrow>
           if r \<le> 0 then (-1, bs, h, c1)
           else
             (r, (if mask_bit h \<noteq> 0 then mask_bytes (mask_key h) bs else bs) @ [0],
              h\<lparr>plen := plen h - of_int r\<rparr>, c1)))"

definition ws_pong :: "u32 \<Rightarrow> client \<Rightarrow> ws_header \<Rightarrow> u8 \<Rightarrow> int \<times> ws_header \<times> client" where
  "ws_pong rnd c oheader msk =
     (let pheader = \<lparr>fin = 1, opcode = WS_PONG, plen = plen oheader, mask_bit = msk, mask_key = [0, 0, 0, 0]\<rparr> in
      case ws_read_data c oheader (sint (plen pheader)) of (r, data, h, c1) \<Rightarrow>
        if r = -1 then (-1, h, c1)
        else case ws_send_frame rnd c1 data pheader of (ret, c2) \<Rightarrow> (ret, h, c2))"

text \<open>The payload length of a header, by the seven bits of its second byte; \<open>None\<close> is a failed
  read.\<close>

definition read_plen :: "client \<Rightarrow> u8 \<Rightarrow> u32 option \<times> client" where
  "read_plen c len =
     (if len \<le> 125 then (Some (ucast len), c)
      else if len = 126 then
        (case antd_recv c 2 of (r, bs, c1) \<Rightarrow>
           (if r \<le> 0 then None else Some (push_bit 8 (ucast (bs ! 0)) + ucast (bs ! 1)), c1))
      else
        (case antd_recv c 8 of (r, bs, c1) \<Rightarrow>
           (if r \<le> 0 then None
            else Some (push_bit 24 (ucast (bs ! 4)) + push_bit 16 (ucast (bs ! 5))
              + push_bit 8 (ucast (bs ! 6)) + ucast (bs ! 7)), c1)))"

text \<open>\<open>ws_read_header\<close> up to its \<open>switch\<close>; \<open>None\<close> is the jump to \<open>fail\<close>.\<close>

definition ws_parse_header :: "client \<Rightarrow> ws_header option \<times> client" where
  "ws_parse_header c =
     (case antd_recv c 1 of (r1, b1, c1) \<Rightarrow>
      if r1 \<le> 0 then (None, c1)
      else let byte = hd b1 in
      if BITV byte 6 \<noteq> 0 \<or> BITV byte 5 \<noteq> 0 \<or> BITV byte 4 \<noteq> 0 then (None, c1)
      else case antd_recv c1 1 of (r2, b2, c2) \<Rightarrow>
      if r2 \<le> 0 then (None, c2)
      else let byte2 = hd b2 in
      case read_plen c2 (byte2 AND 127) of
        (None, c3) \<Rightarrow> (None, c3)
      | (Some len, c3) \<Rightarrow>
          (case (if BITV byte2 7 \<noteq> 0
                 then (case antd_recv c3 4 of (r4, b4, c4) \<Rightarrow> (if r4 \<le> 0 then None else Some b4, c4))
                 else (Some [0, 0, 0, 0], c3)) of
             (None, c4) \<Rightarrow> (None, c4)
           | (Some key, c4) \<Rightarrow>
               (Some \<lparr>fin = BITV byte 7, opcode = byte AND 15, plen = len, mask_bit = BITV byte2 7,
                      mask_key = key\<rparr>, c4)))"

text \<open>The \<open>switch\<close>: a close frame and a ping are answered, masked if the peer's frame was not.\<close>

definition ws_read_header :: "u32 \<Rightarrow> client \<Rightarrow> ws_header option \<times> client" where
  "ws_read_header rnd c =
     (case ws_parse_header c of
        (None, c1) \<Rightarrow> (None, c1)
      | (Some h, c1) \<Rightarrow>
          if opcode h = WS_CLOSE then
            (Some h, snd (ws_send_close rnd c1 1000 (if mask_bit h \<noteq> 0 then 0 else 1)))
          else if opcode h = WS_PING then
            (case ws_pong rnd c1 h (if mask_bit h \<noteq> 0 then 0 else 1) of (_, h', c2) \<Rightarrow> (Some h', c2))
          else (Some h, c1))"

section \<open>The wire format\<close>

text \<open>The header of RFC 6455, section 5.2, from the final bit, the opcode, the mask bit, the key and
  the payload length.\<close>

definition len_code :: "nat \<Rightarrow> nat" where
  "len_code n = (if n \<le> 125 then n else if n < 65536 then 126 else 127)"

definition len_bytes :: "nat \<Rightarrow> nat list" where
  "len_bytes n =
     (if n \<le> 125 then [] else if n < 65536 then [n div 256, n mod 256]
      else [0, 0, 0, 0, n div 2 ^ 24, n div 2 ^ 16 mod 256, n div 256 mod 256, n mod 256])"

definition wire_header :: "nat \<Rightarrow> nat \<Rightarrow> nat \<Rightarrow> u8 list \<Rightarrow> nat \<Rightarrow> u8 list" where
  "wire_header f op m key n =
     [of_nat (128 * f + op), of_nat (128 * m + len_code n)] @ map of_nat (len_bytes n)
       @ (if m \<noteq> 0 then key else [])"

lemma ucast_of_nat: "(ucast (w :: u32) :: u8) = of_nat (unat w)"
  by simp

lemma push_add_of_nat: "push_bit 7 (f :: u8) + of_nat k = of_nat (128 * unat f + k)"
  by (simp add: push_bit_eq_mult)

lemma unat_drop_bit: "unat (drop_bit k (w :: u32)) = unat w div 2 ^ k"
  by (rule trans [OF unat_drop_bit_eq drop_bit_eq_div])

lemma unat_and_255: "unat ((w :: u32) AND 255) = unat w mod 256"
proof -
  have "(w AND 255) = take_bit 8 w" by (simp add: take_bit_eq_mask mask_eq_exp_minus_1)
  then have "unat (w AND 255) = take_bit 8 (unat w)" by (simp only: unsigned_take_bit_eq)
  then show ?thesis by (simp add: take_bit_eq_mod)
qed

lemmas ucast_parts = ucast_of_nat unat_and_255 unat_drop_bit

text \<open>The bytes after the first one, up to the key.\<close>

definition len_part :: "ws_header \<Rightarrow> u8 list" where
  "len_part h =
     (if plen h \<le> 125 then [push_bit 7 (mask_bit h) + ucast (plen h)]
      else if plen h < 65536 then
        [push_bit 7 (mask_bit h) + 126, ucast (drop_bit 8 (plen h)), ucast (plen h AND 255)]
      else
        [push_bit 7 (mask_bit h) + 127, 0, 0, 0, 0, ucast (drop_bit 24 (plen h)),
         ucast (drop_bit 16 (plen h) AND 255), ucast (drop_bit 8 (plen h) AND 255), ucast (plen h AND 255)])"

lemma len_part_wire:
  "len_part h = of_nat (128 * unat (mask_bit h) + len_code (unat (plen h)))
     # map of_nat (len_bytes (unat (plen h)))"
proof -
  define n where "n = unat (plen h)"
  have n: "plen h \<le> 125 \<longleftrightarrow> n \<le> 125" "plen h < 65536 \<longleftrightarrow> n < 65536"
    by (simp_all add: n_def word_le_nat_alt word_less_nat_alt)
  have "len_part h =
     (if n \<le> 125 then [push_bit 7 (mask_bit h) + of_nat n]
      else if n < 65536 then [push_bit 7 (mask_bit h) + of_nat 126, of_nat (n div 2 ^ 8), of_nat (n mod 256)]
      else [push_bit 7 (mask_bit h) + of_nat 127, 0, 0, 0, 0, of_nat (n div 2 ^ 24), of_nat (n div 2 ^ 16 mod 256),
         of_nat (n div 2 ^ 8 mod 256), of_nat (n mod 256)])"
    unfolding len_part_def n ucast_of_nat unat_and_255 unat_drop_bit n_def by simp
  then show ?thesis
    unfolding push_add_of_nat n_def [symmetric] by (simp add: len_code_def len_bytes_def)
qed

lemma send_one:
  assumes "tx_ready c"
  shows "\<exists>c'. antd_send c data = (int (length data), c') \<and> tx_ready c' \<and>
    sent c' = sent c @ data \<and> tx_frame c c'"
  using antd_send_ready [OF assms, of data] by metis

lemma send_header_ready:
  assumes "tx_ready c" "length (mask_key h) = 4"
  shows "\<exists>c'. send_header c h = (0, c') \<and> tx_ready c' \<and> tx_frame c c' \<and>
    sent c' = sent c @ wire_header (unat (fin h)) (unat (opcode h)) (unat (mask_bit h)) (mask_key h)
      (unat (plen h))"
proof -
  have m: "unat (mask_bit h) \<noteq> 0 \<longleftrightarrow> mask_bit h \<noteq> 0" by (simp add: unat_eq_0)
  have "(of_nat (unat (opcode h)) :: u8) = opcode h" by simp
  then have first: "push_bit 7 (fin h) + opcode h = of_nat (128 * unat (fin h) + unat (opcode h))"
    using push_add_of_nat [of "fin h" "unat (opcode h)"] by metis
  obtain c1 where c1: "antd_send c [push_bit 7 (fin h) + opcode h] = (1, c1)" "tx_ready c1"
      "sent c1 = sent c @ [push_bit 7 (fin h) + opcode h]" "tx_frame c c1"
    using send_one [OF assms(1), of "[push_bit 7 (fin h) + opcode h]"] by auto
  obtain c2 where c2: "antd_send c1 (take 1 (len_part h)) = (1, c2)" "tx_ready c2"
      "sent c2 = sent c1 @ take 1 (len_part h)" "tx_frame c1 c2"
    using send_one [OF c1(2), of "take 1 (len_part h)"] by (auto simp: len_part_def)
  obtain c3 where c3: "antd_send c2 (drop 1 (len_part h)) = (int (length (len_part h)) - 1, c3)" "tx_ready c3"
      "sent c3 = sent c2 @ drop 1 (len_part h)" "tx_frame c2 c3"
    using send_one [OF c2(2), of "drop 1 (len_part h)"] by (auto simp: len_part_def)
  obtain c4 where c4: "antd_send c3 (mask_key h) = (4, c4)" "tx_ready c4"
      "sent c4 = sent c3 @ mask_key h" "tx_frame c3 c4"
    using send_one [OF c3(2), of "mask_key h"] assms(2) by auto
  have short: "c3 = c2" if "plen h \<le> 125"
    using that c3(1) by (simp add: len_part_def antd_send_def send_loop.simps io_chunk_def BUFFLEN_def)
  have fr: "tx_frame c c3" "tx_frame c c4"
    using c1(4) c2(4) c3(4) c4(4) by (blast intro: tx_frame_trans)+
  have "send_header c h = (if mask_bit h \<noteq> 0 then (0, c4) else (0, c3))"
    using c1(1) c2(1) c3(1) c4(1) short assms(2)
    by (auto simp: send_header_def len_part_def split: if_splits)
  moreover have "sent c3 = sent c @ [push_bit 7 (fin h) + opcode h] @ len_part h"
    using c1(3) c2(3) c3(3) by simp
  ultimately show ?thesis
    using fr c3(2) c4(2,3) m unfolding wire_header_def first len_part_wire by auto
qed

section \<open>Frames on the wire\<close>

definition frame_bytes :: "nat \<Rightarrow> nat \<Rightarrow> nat \<Rightarrow> u8 list \<Rightarrow> u8 list \<Rightarrow> u8 list" where
  "frame_bytes f op m key payload =
     wire_header f op m key (length payload) @ (if m \<noteq> 0 then mask_bytes key payload else payload)"

lemma length_mask_bytes [simp]: "length (mask_bytes key data) = length data"
  by (simp add: mask_bytes_def)

lemma mask_bytes_nth: "i < length data \<Longrightarrow> mask_bytes key data ! i = data ! i XOR key ! (i mod 4)"
  by (simp add: mask_bytes_def)

lemma mask_bytes_invol [simp]: "mask_bytes key (mask_bytes key data) = data"
  by (rule nth_equalityI) (simp_all add: mask_bytes_nth xor.assoc)

lemma mask_bytes_take: "take n (mask_bytes key data) = mask_bytes key (take n data)"
  by (rule nth_equalityI) (simp_all add: mask_bytes_nth)

lemma length_ws_gen_mask_key [simp]: "length (ws_gen_mask_key r) = 4"
  by (simp add: ws_gen_mask_key_def)

lemma sint_small: "unat (w :: u32) < 2 ^ 31 \<Longrightarrow> sint w = int (unat w)"
proof -
  assume "unat w < 2 ^ 31"
  then have "uint w < 2 ^ 31" by (metis of_nat_less_numeral_power_cancel_iff uint_nat)
  then have "signed_take_bit 31 (uint w) = uint w" using order_trans [OF _ uint_ge_0 [of w], of "- (2 ^ 31)"] by (intro signed_take_bit_int_eq_self) simp_all
  then show ?thesis by (simp add: sint_uint)
qed

lemma send_frame_ready:
  assumes "tx_ready c" "unat (plen h) \<le> length data" "unat (plen h) < 2 ^ 31" "length (mask_key h) = 4"
  shows "\<exists>c'. ws_send_frame rnd c data h = (0, c') \<and> tx_ready c' \<and> tx_frame c c' \<and>
    sent c' = sent c @ frame_bytes (unat (fin h)) (unat (opcode h)) (unat (mask_bit h))
      (if mask_bit h \<noteq> 0 then ws_gen_mask_key rnd else mask_key h) (take (unat (plen h)) data)"
proof -
  define k where "k = (if mask_bit h \<noteq> 0 then h\<lparr>mask_key := ws_gen_mask_key rnd\<rparr> else h)"
  define d where "d = (if mask_bit h \<noteq> 0 then mask_bytes (mask_key k) data else data)"
  have k: "fin k = fin h" "opcode k = opcode h" "plen k = plen h" "mask_bit k = mask_bit h"
      "mask_key k = (if mask_bit h \<noteq> 0 then ws_gen_mask_key rnd else mask_key h)" "length (mask_key k) = 4"
    using assms(4) by (simp_all add: k_def)
  obtain c1 where c1: "send_header c k = (0, c1)" "tx_ready c1" "tx_frame c c1"
      "sent c1 = sent c @ wire_header (unat (fin h)) (unat (opcode h)) (unat (mask_bit h)) (mask_key k) (unat (plen h))"
    using send_header_ready [OF assms(1) k(6)] k by auto
  have len: "sint (plen h) = int (unat (plen h))" using assms(3) by (rule sint_small)
  obtain c2 where c2: "antd_send c1 (take (unat (plen h)) d) = (int (unat (plen h)), c2)" "tx_ready c2"
      "sent c2 = sent c1 @ take (unat (plen h)) d" "tx_frame c1 c2"
    using send_one [OF c1(2), of "take (unat (plen h)) d"] assms(2) by (auto simp: d_def min_absorb2)
  have "ws_send_frame rnd c data h = (0, c2)"
    using c1(1) c2(1) k len
    by (simp add: ws_send_frame_def send_int_def Let_def split_beta k_def [symmetric] d_def [symmetric])
  moreover have "take (unat (plen h)) d =
      (if unat (mask_bit h) \<noteq> 0 then mask_bytes (mask_key k) (take (unat (plen h)) data) else take (unat (plen h)) data)"
    by (simp add: d_def mask_bytes_take unat_eq_0)
  ultimately show ?thesis
    using c1(3,4) c2(2-4) k(5) assms(2)
    by (auto simp: frame_bytes_def min_absorb2 intro: tx_frame_trans)
qed

section \<open>Reading frames\<close>

lemma recv_bytes:
  assumes "rx_ready c pre post" "rx_stream pre = bs @ rest"
  shows "\<exists>c' pre'. antd_recv c (int (length bs)) = (int (length bs), bs, c') \<and> rx_ready c' pre' post \<and>
    rx_stream pre' = rest \<and> rx_frame c c'"
proof -
  have "length bs \<le> length (rx_stream pre)" using assms(2) by simp
  then obtain c' pre' where c': "antd_recv c (int (length bs)) = (int (length bs), take (length bs) (rx_stream pre), c')"
      "rx_ready c' pre' post" "rx_stream pre' = drop (length bs) (rx_stream pre)"
    by (rule antd_recv_ready [OF assms(1)])
  with recv_loop_spec [of "int (length bs)" "[]" c _ _ c'] assms(2) show ?thesis
    by (auto simp: antd_recv_def)
qed

lemma BITV_odd: "i < 8 \<Longrightarrow> BITV v i = (if odd (unat v div 2 ^ i) then 1 else 0)"
proof -
  assume i: "i < 8"
  have "BITV v i = (if bit v i then 1 else 0)"
    using i by (intro bit_word_eqI) (auto simp: BITV_def bit_simps intro: gr0I)
  moreover have "bit v i = bit (unat v) i" using i by (simp add: bit_unsigned_iff)
  ultimately show ?thesis by (simp add: bit_iff_odd)
qed

lemma word_eq_unatI: "unat v = unat w \<Longrightarrow> v = w"
  by (simp add: word_unat_eq_iff)

lemma unat_and_mask8: "unat ((v :: u8) AND 127) = unat v mod 128" "unat (v AND 15) = unat v mod 16"
proof -
  have "v AND 127 = take_bit 7 v" "v AND 15 = take_bit 4 v"
    by (simp_all add: take_bit_eq_mask mask_eq_exp_minus_1)
  then have "unat (v AND 127) = take_bit 7 (unat v)" "unat (v AND 15) = take_bit 4 (unat v)"
    by (simp_all only: unsigned_take_bit_eq)
  then show "unat (v AND 127) = unat v mod 128" "unat (v AND 15) = unat v mod 16"
    by (simp_all add: take_bit_eq_mod)
qed

text \<open>The two first bytes, taken apart.\<close>

lemma first_byte:
  assumes "f \<le> 1" "op < 16"
  shows "BITV (of_nat (128 * f + op)) 7 = of_nat f" "(of_nat (128 * f + op) :: u8) AND 15 = of_nat op"
    "BITV (of_nat (128 * f + op)) 6 = 0" "BITV (of_nat (128 * f + op)) 5 = 0"
    "BITV (of_nat (128 * f + op)) 4 = 0"
proof -
  let ?b = "of_nat (128 * f + op) :: u8"
  have u: "unat ?b = 128 * f + op" unfolding unat_of_nat using assms by (intro mod_less) simp
  have B: "BITV ?b i = (if odd ((128 * f + op) div 2 ^ i) then 1 else 0)" if "i < 8" for i
    using BITV_odd [OF that, of ?b] unfolding u .
  have "(128 * f + op) div 2 ^ 7 = f" "(128 * f + op) div 2 ^ 6 = 2 * f"
    "(128 * f + op) div 2 ^ 5 = 4 * f" "(128 * f + op) div 2 ^ 4 = 8 * f"
    using assms(2) by auto
  moreover have "f = 0 \<or> f = 1" using assms(1) by auto
  ultimately show "BITV ?b 7 = of_nat f" "BITV ?b 6 = 0" "BITV ?b 5 = 0" "BITV ?b 4 = 0"
    using B [of 7] B [of 6] B [of 5] B [of 4] by (auto simp del: of_nat_add of_nat_mult)
  have "unat (?b AND 15) = unat (of_nat op :: u8)"
  proof -
    have "128 * f + op = op + 16 * (8 * f)" by simp
    then have "(128 * f + op) mod 16 = op" using assms(2) by (simp only: mod_mult_self2 mod_less)
    then show ?thesis
      unfolding unat_and_mask8 u using assms(2) by (simp add: unat_of_nat del: of_nat_add of_nat_mult)
  qed
  then show "?b AND 15 = of_nat op" by (rule word_eq_unatI)
qed

lemma second_byte:
  assumes "m \<le> 1" "l < 128"
  shows "BITV (of_nat (128 * m + l)) 7 = of_nat m" "(of_nat (128 * m + l) :: u8) AND 127 = of_nat l"
proof -
  let ?b = "of_nat (128 * m + l) :: u8"
  have u: "unat ?b = 128 * m + l" unfolding unat_of_nat using assms by (intro mod_less) simp
  have B: "BITV ?b 7 = (if odd ((128 * m + l) div 2 ^ 7) then 1 else 0)"
    using BITV_odd [of 7 ?b] unfolding u by simp
  have "(128 * m + l) div 2 ^ 7 = m" using assms(2) by auto
  moreover have "m = 0 \<or> m = 1" using assms(1) by auto
  ultimately show "BITV ?b 7 = of_nat m" using B by (auto simp del: of_nat_add of_nat_mult)
  have "unat (?b AND 127) = unat (of_nat l :: u8)"
  proof -
    have "128 * m + l = l + 128 * m" by simp
    then have "(128 * m + l) mod 128 = l" using assms(2) by (simp only: mod_mult_self2 mod_less)
    then show ?thesis
      unfolding unat_and_mask8 u using assms(2) by (simp add: unat_of_nat del: of_nat_add of_nat_mult)
  qed
  then show "?b AND 127 = of_nat l" by (rule word_eq_unatI)
qed

lemma unat_ucast_u32 [simp]: "unat (ucast (w :: u8) :: u32) = unat w"
  by (simp add: unsigned_ucast_eq take_bit_nat_eq_self order_less_trans [OF unat_u8_less])

lemma word16_join:
  assumes "a < 256" "b < 256"
  shows "push_bit 8 (ucast (of_nat a :: u8)) + ucast (of_nat b :: u8) = (of_nat (256 * a + b) :: u32)"
proof -
  have "(ucast (of_nat x :: u8) :: u32) = of_nat x" if "x < 256" for x
    using that by (intro word_eq_unatI) (simp only: unat_ucast_u32, simp add: unat_of_nat)
  with assms show ?thesis by (simp add: push_bit_eq_mult)
qed

lemma word32_join:
  assumes "a < 256" "b < 256" "c < 256" "d < 256"
  shows "push_bit 24 (ucast (of_nat a :: u8)) + push_bit 16 (ucast (of_nat b :: u8))
      + push_bit 8 (ucast (of_nat c :: u8)) + ucast (of_nat d :: u8)
    = (of_nat (2 ^ 24 * a + 2 ^ 16 * b + 256 * c + d) :: u32)"
proof -
  have "(ucast (of_nat x :: u8) :: u32) = of_nat x" if "x < 256" for x
    using that by (intro word_eq_unatI) (simp only: unat_ucast_u32, simp add: unat_of_nat)
  with assms show ?thesis by (simp add: push_bit_eq_mult)
qed

lemma base_256:
  fixes n :: nat
  assumes "n = 256 * a + d" "a = 256 * b + c" "b = 256 * e + f"
  shows "2 ^ 24 * e + 2 ^ 16 * f + 256 * c + d = n"
  using assms by simp

lemma read_plen_ready:
  assumes "rx_ready c pre post" "rx_stream pre = map of_nat (len_bytes n) @ rest" "n < 2 ^ 32"
  shows "\<exists>c' pre'. read_plen c (of_nat (len_code n)) = (Some (of_nat n), c') \<and> rx_ready c' pre' post \<and>
    rx_stream pre' = rest \<and> rx_frame c c'"
proof -
  consider (small) "n \<le> 125" | (mid) "125 < n" "n < 65536" | (large) "65536 \<le> n" by linarith
  then show ?thesis
  proof cases
    case small
    then have "(of_nat (len_code n) :: u8) \<le> 125" "unat (of_nat n :: u8) = n"
      by (simp_all add: len_code_def word_le_nat_alt unat_of_nat)
    moreover from this(2) small have "(ucast (of_nat n :: u8) :: u32) = of_nat n"
      by (intro word_eq_unatI) (simp only: unat_ucast_u32, simp add: unat_of_nat)
    ultimately show ?thesis
      using small assms by (auto simp: read_plen_def len_code_def len_bytes_def)
  next
    case mid
    let ?bs = "map of_nat [n div 256, n mod 256] :: u8 list"
    have "rx_stream pre = ?bs @ rest" using mid assms(2) by (simp add: len_bytes_def)
    from recv_bytes [OF assms(1) this] obtain c' pre' where
      c': "antd_recv c 2 = (2, ?bs, c')" "rx_ready c' pre' post" "rx_stream pre' = rest" "rx_frame c c'"
      by auto
    have "push_bit 8 (ucast (?bs ! 0)) + ucast (?bs ! 1) = (of_nat n :: u32)"
      using word16_join [of "n div 256" "n mod 256"] mid by simp
    moreover have "(of_nat (len_code n) :: u8) = 126" using mid by (simp add: len_code_def)
    ultimately show ?thesis using c' by (auto simp: read_plen_def)
  next
    case large
    let ?bs = "map of_nat [0, 0, 0, 0, n div 2 ^ 24, n div 2 ^ 16 mod 256, n div 256 mod 256, n mod 256] :: u8 list"
    have "rx_stream pre = ?bs @ rest" using large assms(2) by (simp add: len_bytes_def)
    from recv_bytes [OF assms(1) this] obtain c' pre' where
      c': "antd_recv c 8 = (8, ?bs, c')" "rx_ready c' pre' post" "rx_stream pre' = rest" "rx_frame c c'"
      by auto
    have "2 ^ 24 * (n div 2 ^ 24) + 2 ^ 16 * (n div 2 ^ 16 mod 256) + 256 * (n div 256 mod 256) + n mod 256 = n"
    proof -
      have "n = 256 * (n div 256) + n mod 256" by simp
      moreover have "n div 256 = 256 * (n div 2 ^ 16) + n div 256 mod 256"
        using div_mult_mod_eq [of "n div 256" 256] div_mult2_eq [of n 256 256] by simp
      moreover have "n div 2 ^ 16 = 256 * (n div 2 ^ 24) + n div 2 ^ 16 mod 256"
        using div_mult_mod_eq [of "n div 2 ^ 16" 256] div_mult2_eq [of n "2 ^ 16" 256] by simp
      ultimately show ?thesis by (rule base_256)
    qed
    moreover have "n div 2 ^ 24 < 256" using assms(3) by auto
    ultimately have "push_bit 24 (ucast (?bs ! 4)) + push_bit 16 (ucast (?bs ! 5))
        + push_bit 8 (ucast (?bs ! 6)) + ucast (?bs ! 7) = (of_nat n :: u32)"
      using word32_join [of "n div 2 ^ 24" "n div 2 ^ 16 mod 256" "n div 256 mod 256" "n mod 256"]
      by (simp del: of_nat_add of_nat_mult)
    moreover have "(of_nat (len_code n) :: u8) = 127" using large by (simp add: len_code_def)
    ultimately show ?thesis using c' by (auto simp: read_plen_def)
  qed
qed

definition parsed :: "nat \<Rightarrow> nat \<Rightarrow> nat \<Rightarrow> u8 list \<Rightarrow> nat \<Rightarrow> ws_header" where
  "parsed f op m key n =
     \<lparr>fin = of_nat f, opcode = of_nat op, plen = of_nat n, mask_bit = of_nat m,
      mask_key = (if m \<noteq> 0 then key else [0, 0, 0, 0])\<rparr>"

lemma parse_header_ready:
  assumes "rx_ready c pre post" "rx_stream pre = wire_header f op m key n @ rest"
    "f \<le> 1" "op < 16" "m \<le> 1" "n < 2 ^ 32" "length key = 4"
  shows "\<exists>c' pre'. ws_parse_header c = (Some (parsed f op m key n), c') \<and>
    rx_ready c' pre' post \<and> rx_stream pre' = rest \<and> rx_frame c c'"
proof -
  let ?b1 = "of_nat (128 * f + op) :: u8" and ?b2 = "of_nat (128 * m + len_code n) :: u8"
  let ?k = "if m \<noteq> 0 then key else []"
  have s0: "rx_stream pre = [?b1] @ [?b2] @ map of_nat (len_bytes n) @ ?k @ rest"
    using assms(2) by (simp add: wire_header_def)
  from recv_bytes [OF assms(1) s0] obtain c1 p1 where
    1: "antd_recv c 1 = (1, [?b1], c1)" "rx_ready c1 p1 post"
      "rx_stream p1 = [?b2] @ map of_nat (len_bytes n) @ ?k @ rest" "rx_frame c c1" by auto
  from recv_bytes [OF 1(2,3)] obtain c2 p2 where
    2: "antd_recv c1 1 = (1, [?b2], c2)" "rx_ready c2 p2 post"
      "rx_stream p2 = map of_nat (len_bytes n) @ ?k @ rest" "rx_frame c1 c2" by auto
  from read_plen_ready [OF 2(2,3) assms(6)] obtain c3 p3 where
    3: "read_plen c2 (of_nat (len_code n)) = (Some (of_nat n), c3)" "rx_ready c3 p3 post"
      "rx_stream p3 = ?k @ rest" "rx_frame c2 c3" by blast
  have lc: "len_code n < 128" by (simp add: len_code_def)
  note b1 = first_byte [OF assms(3,4)] and b2 = second_byte [OF assms(5) lc]
  have m: "m = 0 \<or> m = 1" using assms(5) by auto
  show ?thesis
  proof (cases "m = 0")
    case True
    with 1 2 3 b1 b2 have "ws_parse_header c = (Some (parsed f op m key n), c3)"
      by (simp add: ws_parse_header_def parsed_def Let_def del: of_nat_add of_nat_mult)
    moreover have "rx_frame c c3" using 1(4) 2(4) 3(4) by (blast intro: rx_frame_trans)
    ultimately show ?thesis using 3 True by auto
  next
    case False
    then have m1: "m = 1" using m by simp
    have "rx_stream p3 = key @ rest" using 3(3) m1 by simp
    from recv_bytes [OF 3(2) this] assms(7) obtain c4 p4 where
      4: "antd_recv c3 4 = (4, key, c4)" "rx_ready c4 p4 post" "rx_stream p4 = rest" "rx_frame c3 c4"
      by auto
    with 1 2 3 b1 b2 m1 have "ws_parse_header c = (Some (parsed f op m key n), c4)"
      by (simp add: ws_parse_header_def parsed_def Let_def del: of_nat_add of_nat_mult)
    moreover have "rx_frame c c4" using 1(4) 2(4) 3(4) 4(4) by (blast intro: rx_frame_trans)
    ultimately show ?thesis using 4 by blast
  qed
qed

lemma read_data_ready:
  assumes "rx_ready c pre post" "rx_stream pre = bs @ rest" "bs \<noteq> []" "plen h = of_nat (length bs)"
    "length bs < 2 ^ 31"
  shows "\<exists>c' pre'. ws_read_data c h (int (length bs)) =
      (int (length bs), (if mask_bit h \<noteq> 0 then mask_bytes (mask_key h) bs else bs) @ [0], h\<lparr>plen := 0\<rparr>, c') \<and>
    ws_read_data c h (-1) = ws_read_data c h (int (length bs)) \<and>
    rx_ready c' pre' post \<and> rx_stream pre' = rest \<and> rx_frame c c'"
proof -
  have u: "unat (plen h) = length bs" using assms(4,5) by (simp add: unat_of_nat)
  then have s: "sint (plen h) = int (length bs)" using sint_small [of "plen h"] assms(5) by simp
  have "plen h \<noteq> 0" using u assms(3) by (metis length_0_conv unat_eq_0)
  moreover obtain c' pre' where "antd_recv c (int (length bs)) = (int (length bs), bs, c')"
      "rx_ready c' pre' post" "rx_stream pre' = rest" "rx_frame c c'"
    using recv_bytes [OF assms(1,2)] by blast
  ultimately show ?thesis using s assms(3,4) by (auto simp: ws_read_data_def)
qed

lemma mask_bytes_split:
  assumes "a mod 4 = 0" "a \<le> length bs"
  shows "mask_bytes key bs = mask_bytes key (take a bs) @ mask_bytes key (drop a bs)"
proof (rule nth_equalityI)
  fix i assume i: "i < length (mask_bytes key bs)"
  show "mask_bytes key bs ! i = (mask_bytes key (take a bs) @ mask_bytes key (drop a bs)) ! i"
  proof (cases "i < a")
    case True
    with i assms(2) show ?thesis by (simp add: mask_bytes_nth nth_append)
  next
    case False
    then have "i = a + (i - a)" by simp
    then have "i mod 4 = (i - a) mod 4" using assms(1) by (metis add_0 mod_add_left_eq)
    with i assms(2) False show ?thesis by (simp add: mask_bytes_nth nth_append)
  qed
qed (use assms(2) in simp)

text \<open>The frames \<open>ws_send_file\<close> cuts a file into: final bit, opcode and payload.\<close>

function file_frames :: "nat \<Rightarrow> u8 list \<Rightarrow> (nat \<times> nat \<times> u8 list) list" where
  "file_frames n rest =
     (let op = (if n = 0 then 2 else 0) in
      if length rest < 1024 then [(1, op, rest)]
      else (0, op, take 1024 rest) # file_frames (Suc n) (drop 1024 rest))"
  by pat_completeness auto
termination
  by (relation "measure (\<lambda>(n, rest). length rest)") auto

declare file_frames.simps [simp del]

lemma file_frames_payload: "concat (map (snd \<circ> snd) (file_frames n rest)) = rest"
proof (induction n rest rule: file_frames.induct)
  case (1 n rest)
  then show ?case by (cases "length rest < 1024") (simp_all add: file_frames.simps [of n rest])
qed

lemma file_frames_shape:
  "\<exists>init op d. file_frames n rest = init @ [(1, op, d)] \<and> (\<forall>x \<in> set init. fst x = 0) \<and>
     length d < 1024 \<and> (\<forall>x \<in> set init. length (snd (snd x)) = 1024) \<and>
     map (fst \<circ> snd) (file_frames n rest) = (if n = 0 then 2 else 0) # replicate (length init) 0"
proof (induction n rest rule: file_frames.induct)
  case (1 n rest)
  show ?case
  proof (cases "length rest < 1024")
    case True
    then show ?thesis by (simp add: file_frames.simps [of n rest])
  next
    case False
    let ?f = "(0, if n = 0 then 2 else 0, take 1024 rest)"
    from 1 [OF refl False] obtain init op d where
      ih: "file_frames (Suc n) (drop 1024 rest) = init @ [(1, op, d)]" "\<forall>x \<in> set init. fst x = 0"
        "length d < 1024" "\<forall>x \<in> set init. length (snd (snd x)) = 1024"
        "map (fst \<circ> snd) (file_frames (Suc n) (drop 1024 rest)) = (if Suc n = 0 then 2 else 0) # replicate (length init) 0"
      by (elim exE conjE) (rule that)
    have cut: "file_frames n rest = ?f # file_frames (Suc n) (drop 1024 rest)"
      using False by (simp add: file_frames.simps [of n rest])
    show ?thesis
    proof (intro exI conjI)
      show "file_frames n rest = (?f # init) @ [(1, op, d)]" using cut ih(1) by simp
      show "\<forall>x \<in> set (?f # init). fst x = 0" "\<forall>x \<in> set (?f # init). length (snd (snd x)) = 1024"
        using ih(2,4) False by simp_all
      show "map (fst \<circ> snd) (file_frames n rest) = (if n = 0 then 2 else 0) # replicate (length (?f # init)) 0"
        using cut ih(5) by simp
    qed (rule ih(3))
  qed
qed

definition render_frames :: "nat \<Rightarrow> (nat \<Rightarrow> u8 list) \<Rightarrow> nat \<Rightarrow> (nat \<times> nat \<times> u8 list) list \<Rightarrow> u8 list" where
  "render_frames m keys n fs =
     concat (map (\<lambda>(i, f, op, d). frame_bytes f op m (keys i) d) (enumerate n fs))"

lemma file_loop_ready:
  assumes "tx_ready c"
  shows "\<exists>c'. ws_file_loop rnds n m c rest ret = (ret, c') \<and> tx_ready c' \<and> tx_frame c c' \<and>
    sent c' = sent c @ render_frames (unat m)
      (\<lambda>i. if m \<noteq> 0 then ws_gen_mask_key (rnds i) else [0, 0, 0, 0]) n (file_frames n rest)"
  using assms
proof (induction rnds n m c rest ret rule: ws_file_loop.induct)
  case (1 rnds n m c rest ret)
  let ?eof = "length rest < 1024"
  let ?h = "\<lparr>fin = (if ?eof then 1 else 0), opcode = (if n = 0 then WS_BIN else 0),
      plen = of_nat (length (take 1024 rest)), mask_bit = m, mask_key = [0, 0, 0, 0]\<rparr>"
  let ?key = "if m \<noteq> 0 then ws_gen_mask_key (rnds n) else [0, 0, 0, 0]"
  have len: "unat (plen ?h) = length (take 1024 rest)"
    by (simp add: unat_of_nat)
  obtain c1 where c1: "ws_send_frame (rnds n) c (take 1024 rest) ?h = (0, c1)" "tx_ready c1" "tx_frame c c1"
      "sent c1 = sent c @ frame_bytes (if ?eof then 1 else 0) (if n = 0 then 2 else 0) (unat m) ?key (take 1024 rest)"
    using send_frame_ready [OF 1(2), of ?h "take 1024 rest" "rnds n"] len
    by (auto simp: WS_BIN_def)
  show ?case
  proof (cases ?eof)
    case True
    with c1 show ?thesis
      by (simp add: ws_file_loop.simps [of rnds n] file_frames.simps [of n] render_frames_def Let_def)
  next
    case False
    from 1(1) [OF refl refl refl c1(1) [symmetric] refl False c1(2)] c1 False show ?thesis
      by (auto simp: ws_file_loop.simps [of rnds n] file_frames.simps [of n rest] render_frames_def Let_def
          intro: tx_frame_trans)
  qed
qed

lemma tx_ready_idle: "tx c = [] \<Longrightarrow> tx_ready c"
  by (simp add: tx_ready_def)

lemma pong_ready:
  assumes "rx_ready c pre post" "rx_stream pre = (if m \<noteq> 0 then mask_bytes key data else data) @ rest"
    "tx c = []" "m \<le> 1" "length data < 2 ^ 31" "h = parsed f op m key (length data)"
  shows "\<exists>c' pre'. ws_pong rnd c h msk = (0, h\<lparr>plen := 0\<rparr>, c') \<and> rx c' = pre' @ post \<and>
    rx_stream pre' = rest \<and>
    sent c' = sent c @ frame_bytes 1 10 (unat msk) (if msk \<noteq> 0 then ws_gen_mask_key rnd else [0, 0, 0, 0]) data"
proof -
  let ?bs = "if m \<noteq> 0 then mask_bytes key data else data"
  have m: "mask_bit h \<noteq> 0 \<longleftrightarrow> m \<noteq> 0" using assms(4,6) by (auto simp: parsed_def le_Suc_eq)
  have key: "m \<noteq> 0 \<Longrightarrow> mask_key h = key" using assms(6) by (simp add: parsed_def)
  have pl: "plen h = of_nat (length data)" using assms(6) by (simp add: parsed_def)
  have u: "unat (plen h) = length data" unfolding pl unat_of_nat using assms(5) by simp
  have si: "sint (plen h) = int (length data)" using sint_small [of "plen h"] u assms(5) by simp
  let ?ph = "\<lparr>fin = 1, opcode = WS_PONG, plen = plen h, mask_bit = msk, mask_key = [0, 0, 0, 0]\<rparr>"
  have "\<exists>d r c1 p1. ws_read_data c h (int (length data)) = (r, d, h\<lparr>plen := 0\<rparr>, c1) \<and> r \<noteq> -1 \<and>
      take (length data) d = data \<and> length data \<le> length d \<and> rx_ready c1 p1 post \<and> rx_stream p1 = rest \<and>
      tx c1 = [] \<and> sent c1 = sent c"
  proof (cases "data = []")
    case True
    then have "plen h = 0" using pl by simp
    moreover from this have "h\<lparr>plen := 0\<rparr> = h" by (metis ws_header.surjective ws_header.update_convs(3))
    ultimately have "ws_read_data c h (int (length data)) = (0, [], h\<lparr>plen := 0\<rparr>, c)"
      by (simp add: ws_read_data_def)
    with assms(1-3) True show ?thesis by (auto simp: mask_bytes_def)
  next
    case False
    have len: "length ?bs = length data" by simp
    then have ne: "?bs \<noteq> []" using False by (metis length_0_conv)
    have "plen h = of_nat (length ?bs)" "length ?bs < 2 ^ 31" unfolding len using pl assms(5) by simp_all
    from read_data_ready [OF assms(1,2) ne this] obtain c1 p1 where
      r: "ws_read_data c h (int (length ?bs)) = (int (length ?bs),
          (if mask_bit h \<noteq> 0 then mask_bytes (mask_key h) ?bs else ?bs) @ [0], h\<lparr>plen := 0\<rparr>, c1)"
        "rx_ready c1 p1 post" "rx_stream p1 = rest" "rx_frame c c1" by blast
    have "(if mask_bit h \<noteq> 0 then mask_bytes (mask_key h) ?bs else ?bs) = data" using m key by auto
    with r assms(3) len show ?thesis by (auto simp: rx_frame_def)
  qed
  then obtain d r c1 p1 where rd: "ws_read_data c h (int (length data)) = (r, d, h\<lparr>plen := 0\<rparr>, c1)" "r \<noteq> -1"
      "take (length data) d = data" "length data \<le> length d" "rx_ready c1 p1 post" "rx_stream p1 = rest"
      "tx c1 = []" "sent c1 = sent c" by blast
  have "unat (plen ?ph) \<le> length d" "unat (plen ?ph) < 2 ^ 31" "length (mask_key ?ph) = 4"
    using u rd(4) assms(5) by simp_all
  from send_frame_ready [OF tx_ready_idle [OF rd(7)] this, of rnd] obtain c2 where
    c2: "ws_send_frame rnd c1 d ?ph = (0, c2)" "tx_frame c1 c2"
      "sent c2 = sent c1 @ frame_bytes 1 10 (unat msk) (if msk \<noteq> 0 then ws_gen_mask_key rnd else [0, 0, 0, 0]) data"
    using u rd(3) by (auto simp: WS_PONG_def)
  have "ws_pong rnd c h msk = (0, h\<lparr>plen := 0\<rparr>, c2)"
    using rd(1,2) c2(1) si by (simp add: ws_pong_def Let_def)
  with c2 rd(5,6,8) show ?thesis by (auto simp: rx_ready_def tx_frame_def)
qed

lemma close_ready:
  assumes "tx c = []"
  shows "\<exists>c'. ws_send_close rnd c 1000 msk = (0, c') \<and>
    sent c' = sent c @ frame_bytes 1 8 (unat msk) (if msk \<noteq> 0 then ws_gen_mask_key rnd else [0, 0, 0, 0]) [3, 232]"
proof -
  let ?h = "\<lparr>fin = 1, opcode = WS_CLOSE, plen = 2, mask_bit = msk, mask_key = [0, 0, 0, 0]\<rparr>"
  have "[ucast (drop_bit 8 (1000 :: u32)), ucast ((1000 :: u32) AND 255)] = [3, 232 :: u8]" by simp
  with send_frame_ready [OF tx_ready_idle [OF assms], of ?h "[3, 232]" rnd] show ?thesis
    by (auto simp: ws_send_close_def WS_CLOSE_def)
qed

section \<open>Properties\<close>

definition demo_frame :: ws_header where
  "demo_frame = \<lparr>fin = 1, opcode = WS_TEXT, plen = 3, mask_bit = 1, mask_key = [0, 0, 0, 0]\<rparr>"

text \<open>C16. A frame that was sent can be read back.  On a socket in order, \<open>ws_send_frame\<close> sends
  the frame of RFC 6455, with the payload masked under a fresh key if asked; whoever receives these
  bytes, in any fragmentation, gets from \<open>ws_read_header\<close> the same final bit, opcode, mask bit and
  length, from \<open>ws_read_data\<close> the same payload, and what follows the frame stays unread.  This covers all three
  encodings of the length.\<close>

theorem ws_frame_roundtrip:
  assumes "tx_ready s" "unat (plen h) = length data" "data \<noteq> []" "length data < 2 ^ 31"
    "fin h \<le> 1" "opcode h < 16" "opcode h \<noteq> WS_CLOSE" "opcode h \<noteq> WS_PING" "mask_bit h \<le> 1"
    "length (mask_key h) = 4"
  shows "\<exists>s' wire. ws_send_frame rnd s data h = (0, s') \<and> sent s' = sent s @ wire \<and>
    wire = frame_bytes (unat (fin h)) (unat (opcode h)) (unat (mask_bit h))
      (if mask_bit h \<noteq> 0 then ws_gen_mask_key rnd else mask_key h) data \<and>
    (\<forall>c pre post rest r2. rx_ready c pre post \<and> rx_stream pre = wire @ rest \<longrightarrow>
      (\<exists>hh c1 c2 pre'. ws_read_header r2 c = (Some hh, c1) \<and>
        fin hh = fin h \<and> opcode hh = opcode h \<and> plen hh = plen h \<and> mask_bit hh = mask_bit h \<and>
        ws_read_data c1 hh (-1) = (int (length data), data @ [0], hh\<lparr>plen := 0\<rparr>, c2) \<and>
        rx_ready c2 pre' post \<and> rx_stream pre' = rest))"
proof -
  let ?f = "unat (fin h)" and ?op = "unat (opcode h)" and ?m = "unat (mask_bit h)"
  define key where "key = (if mask_bit h \<noteq> 0 then ws_gen_mask_key rnd else mask_key h)"
  define wire where "wire = frame_bytes ?f ?op ?m key data"
  have key: "length key = 4" using assms(10) by (simp add: key_def)
  have small: "?f \<le> 1" "?op < 16" "?m \<le> 1"
    using assms(5,6,9) by (simp_all add: word_le_nat_alt word_less_nat_alt)
  have "unat (plen h) \<le> length data" "unat (plen h) < 2 ^ 31" using assms(2,4) by simp_all
  from send_frame_ready [OF assms(1) this assms(10), of rnd] obtain s' where
    s': "ws_send_frame rnd s data h = (0, s')" "sent s' = sent s @ wire"
    unfolding wire_def key_def using assms(2) by auto
  have m: "?m \<noteq> 0 \<longleftrightarrow> mask_bit h \<noteq> 0" by (simp add: unat_eq_0)
  have "\<exists>hh c1 c2 pre'. ws_read_header r2 c = (Some hh, c1) \<and>
        fin hh = fin h \<and> opcode hh = opcode h \<and> plen hh = plen h \<and> mask_bit hh = mask_bit h \<and>
        ws_read_data c1 hh (-1) = (int (length data), data @ [0], hh\<lparr>plen := 0\<rparr>, c2) \<and>
        rx_ready c2 pre' post \<and> rx_stream pre' = rest"
    if rx: "rx_ready c pre post" "rx_stream pre = wire @ rest" for c pre post rest r2
  proof -
    let ?hh = "parsed ?f ?op ?m key (length data)"
    let ?bs = "if ?m \<noteq> 0 then mask_bytes key data else data"
    have "rx_stream pre = wire_header ?f ?op ?m key (length data) @ ?bs @ rest"
      using rx(2) by (simp add: wire_def frame_bytes_def)
    from parse_header_ready [OF rx(1) this small _ key] assms(4) obtain c1 p1 where
      1: "ws_parse_header c = (Some ?hh, c1)" "rx_ready c1 p1 post" "rx_stream p1 = ?bs @ rest" by auto
    have fields: "fin ?hh = fin h" "opcode ?hh = opcode h" "mask_bit ?hh = mask_bit h"
        "plen ?hh = of_nat (length data)" "mask_key ?hh = (if ?m \<noteq> 0 then key else [0, 0, 0, 0])"
      by (simp_all add: parsed_def)
    have "(of_nat (unat (plen h)) :: u32) = plen h" by simp
    then have pl: "plen ?hh = plen h" unfolding fields(4) assms(2) .
    have len: "length ?bs = length data" by simp
    then have ne: "?bs \<noteq> []" using assms(3) by (metis length_0_conv)
    have bs: "plen ?hh = of_nat (length ?bs)" "length ?bs < 2 ^ 31"
      unfolding len using fields(4) assms(4) by simp_all
    obtain c2 p2 where 2: "ws_read_data c1 ?hh (-1) =
        (int (length ?bs), (if mask_bit ?hh \<noteq> 0 then mask_bytes (mask_key ?hh) ?bs else ?bs) @ [0], ?hh\<lparr>plen := 0\<rparr>, c2)"
        "rx_ready c2 p2 post" "rx_stream p2 = rest"
      using read_data_ready [OF 1(2,3) ne bs] by metis
    have "(if mask_bit ?hh \<noteq> 0 then mask_bytes (mask_key ?hh) ?bs else ?bs) = data"
      using m unfolding fields by auto
    moreover have "ws_read_header r2 c = (Some ?hh, c1)"
      using 1(1) fields(2) assms(7,8) by (simp add: ws_read_header_def)
    ultimately show ?thesis using 2 fields pl len by auto
  qed
  with s' show ?thesis unfolding wire_def key_def by blast
qed

theorem ws_frame_roundtrip_witness:
  "\<exists>s' wire. ws_send_frame 7 demo_client [72, 105, 33] demo_frame = (0, s') \<and> sent s' = wire \<and>
     wire = frame_bytes 1 1 1 [0, 0, 0, 7] [72, 105, 33]"
proof -
  have pre: "unat (plen demo_frame) = length [72, 105, 33 :: u8]" "[72, 105, 33 :: u8] \<noteq> []"
    "length [72, 105, 33 :: u8] < 2 ^ 31" "fin demo_frame \<le> 1" "opcode demo_frame < 16"
    "opcode demo_frame \<noteq> WS_CLOSE" "opcode demo_frame \<noteq> WS_PING" "mask_bit demo_frame \<le> 1"
    "length (mask_key demo_frame) = 4"
    by (simp_all add: demo_frame_def WS_TEXT_def WS_CLOSE_def WS_PING_def)
  have key: "ws_gen_mask_key 7 = [0, 0, 0, 7]" by (simp add: ws_gen_mask_key_def)
  from ws_frame_roundtrip [OF demo_ready(2) pre, of 7] obtain s' wire where
    "ws_send_frame 7 demo_client [72, 105, 33] demo_frame = (0, s')" "sent s' = sent demo_client @ wire"
    "wire = frame_bytes (unat (fin demo_frame)) (unat (opcode demo_frame)) (unat (mask_bit demo_frame))
      (if mask_bit demo_frame \<noteq> 0 then ws_gen_mask_key 7 else mask_key demo_frame) [72, 105, 33]"
    by (elim exE conjE) (rule that)
  with key show ?thesis by (simp add: demo_frame_def WS_TEXT_def)
qed

lemma read_header_ping:
  assumes "rx_ready c pre post" "tx c = []" "length key = 4" "m \<le> 1" "length data < 2 ^ 31"
    "rx_stream pre = frame_bytes 1 9 m key data @ rest"
  shows "\<exists>h c' pre'. ws_read_header rnd c = (Some h, c') \<and> opcode h = WS_PING \<and> plen h = 0 \<and>
    sent c' = sent c @ frame_bytes 1 10 (1 - m) (if m = 0 then ws_gen_mask_key rnd else [0, 0, 0, 0]) data \<and>
    rx c' = pre' @ post \<and> rx_stream pre' = rest"
proof -
  let ?bs = "if m \<noteq> 0 then mask_bytes key data else data" and ?msk = "(if m = 0 then 1 else 0) :: u8"
  let ?h = "parsed 1 9 m key (length data)"
  have n: "length data < 2 ^ 32" using assms(5) by simp
  have bit: "(if mask_bit (parsed f op m key k) \<noteq> 0 then 0 else 1) = ?msk" "unat ?msk = 1 - m" for f op k
    using assms(4) by (auto simp: parsed_def le_Suc_eq)
  from assms(6) have "rx_stream pre = wire_header 1 9 m key (length data) @ ?bs @ rest"
    by (simp add: frame_bytes_def)
  from parse_header_ready [OF assms(1) this _ _ assms(4) n assms(3)] obtain c1 p1 where
    1: "ws_parse_header c = (Some ?h, c1)" "rx_ready c1 p1 post" "rx_stream p1 = ?bs @ rest" "rx_frame c c1"
    by auto
  have "tx c1 = []" "sent c1 = sent c" using 1(4) assms(2) by (simp_all add: rx_frame_def)
  from pong_ready [where rnd = rnd and msk = ?msk, OF 1(2,3) this(1) assms(4,5) refl] obtain c2 p2 where
    2: "ws_pong rnd c1 ?h ?msk = (0, ?h\<lparr>plen := 0\<rparr>, c2)" "rx c2 = p2 @ post" "rx_stream p2 = rest"
      "sent c2 = sent c1 @ frame_bytes 1 10 (1 - m) (if ?msk \<noteq> 0 then ws_gen_mask_key rnd else [0, 0, 0, 0]) data"
    unfolding bit(2) by blast
  have op: "opcode ?h = WS_PING" "WS_PING \<noteq> WS_CLOSE" by (simp_all add: parsed_def WS_PING_def WS_CLOSE_def)
  have "ws_read_header rnd c = (Some (?h\<lparr>plen := 0\<rparr>), c2)"
    using 1(1) 2(1) op by (simp add: ws_read_header_def bit)
  then show ?thesis using 2 op \<open>sent c1 = sent c\<close> by auto
qed

lemma read_header_close:
  assumes "rx_ready c pre post" "tx c = []" "length key = 4" "m \<le> 1" "length data < 2 ^ 31"
    "rx_stream pre = frame_bytes 1 8 m key data @ rest"
  shows "\<exists>h c'. ws_read_header rnd c = (Some h, c') \<and> opcode h = WS_CLOSE \<and>
    sent c' = sent c @ frame_bytes 1 8 (1 - m) (if m = 0 then ws_gen_mask_key rnd else [0, 0, 0, 0]) [3, 232]"
proof -
  let ?bs = "if m \<noteq> 0 then mask_bytes key data else data" and ?msk = "(if m = 0 then 1 else 0) :: u8"
  let ?h = "parsed 1 8 m key (length data)"
  have n: "length data < 2 ^ 32" using assms(5) by simp
  have bit: "(if mask_bit (parsed f op m key k) \<noteq> 0 then 0 else 1) = ?msk" "unat ?msk = 1 - m" for f op k
    using assms(4) by (auto simp: parsed_def le_Suc_eq)
  from assms(6) have "rx_stream pre = wire_header 1 8 m key (length data) @ ?bs @ rest"
    by (simp add: frame_bytes_def)
  from parse_header_ready [OF assms(1) this _ _ assms(4) n assms(3)] obtain c1 where
    1: "ws_parse_header c = (Some ?h, c1)" "rx_frame c c1" by auto
  have "tx c1 = []" "sent c1 = sent c" using 1(2) assms(2) by (simp_all add: rx_frame_def)
  from close_ready [OF this(1), of rnd ?msk] obtain c2 where
    2: "ws_send_close rnd c1 1000 ?msk = (0, c2)"
      "sent c2 = sent c1 @ frame_bytes 1 8 (1 - m) (if ?msk \<noteq> 0 then ws_gen_mask_key rnd else [0, 0, 0, 0]) [3, 232]"
    unfolding bit(2) by blast
  have op: "opcode ?h = WS_CLOSE" by (simp add: parsed_def WS_CLOSE_def)
  have "ws_read_header rnd c = (Some ?h, c2)"
    using 1(1) 2(1) op by (simp add: ws_read_header_def bit)
  then show ?thesis using 2(2) op \<open>sent c1 = sent c\<close> by auto
qed

text \<open>Control frames are answered while the header is read: a ping by a pong with the same
  payload, a close by a close frame with status 1000, each masked exactly when the peer's frame
  was not.  Nothing after the ping's payload is consumed.\<close>

lemma ws_control_answers:
  assumes "rx_ready c pre post" "tx c = []" "length key = 4" "m \<le> 1" "length data < 2 ^ 31"
  shows "(rx_stream pre = frame_bytes 1 9 m key data @ rest \<longrightarrow>
      (\<exists>h c' pre'. ws_read_header rnd c = (Some h, c') \<and> opcode h = WS_PING \<and> plen h = 0 \<and>
         sent c' = sent c @ frame_bytes 1 10 (1 - m) (if m = 0 then ws_gen_mask_key rnd else [0, 0, 0, 0]) data \<and>
         rx c' = pre' @ post \<and> rx_stream pre' = rest)) \<and>
    (rx_stream pre = frame_bytes 1 8 m key data @ rest \<longrightarrow>
      (\<exists>h c'. ws_read_header rnd c = (Some h, c') \<and> opcode h = WS_CLOSE \<and>
         sent c' = sent c @ frame_bytes 1 8 (1 - m)
           (if m = 0 then ws_gen_mask_key rnd else [0, 0, 0, 0]) [3, 232]))"
  using read_header_ping [OF assms(1-5)] read_header_close [OF assms(1-5)] by blast

definition ping_client :: client where
  "ping_client = demo_client\<lparr>rx := [(0, RxData 137 [1, 65])], tx := []\<rparr>"

lemma xor_two_keys:
  fixes a b c :: u8
  assumes "(a XOR b) XOR c = a"
  shows "b = c"
proof -
  have "a XOR (a XOR (b XOR c)) = a XOR a" using assms by (simp only: xor.assoc)
  then have "b XOR c = 0" by (simp flip: xor.assoc)
  then have "b XOR (b XOR c) = b" by simp
  then show ?thesis by (simp flip: xor.assoc)
qed

text \<open>Reading a masked payload in pieces.  Each call of \<open>ws_read_data\<close> starts again at the
  first byte of the key, so two calls give the payload when the first one ends at a multiple of four, and give
  something else when the key byte due next differs from the first one.  Every successful call also
  stores a terminator, one byte beyond the bytes it reports, so a buffer of exactly that size, such as the one
  \<open>ws_pong\<close> allocates, is overrun.\<close>

lemma ws_read_in_parts:
  assumes "rx_ready c pre post" "rx_stream pre = mask_bytes key (p @ q) @ rest" "length key = 4"
    "p \<noteq> []" "q \<noteq> []" "length (p @ q) < 2 ^ 31" "plen h = of_nat (length (p @ q))" "mask_bit h = 1"
    "mask_key h = key"
  shows "\<exists>d1 d2 h1 h2 c1 c2.
    ws_read_data c h (int (length p)) = (int (length p), d1 @ [0], h1, c1) \<and>
    ws_read_data c1 h1 (-1) = (int (length q), d2 @ [0], h2, c2) \<and> d1 = p \<and>
    (length p mod 4 = 0 \<longrightarrow> d2 = q) \<and>
    (key ! (length p mod 4) \<noteq> key ! 0 \<longrightarrow> d2 \<noteq> q)"
proof -
  let ?w = "mask_bytes key (p @ q)"
  let ?a = "take (length p) ?w" and ?b = "drop (length p) ?w"
  have a: "?a = mask_bytes key p" by (simp add: mask_bytes_take)
  have u: "unat (plen h) = length (p @ q)" unfolding assms(7) unat_of_nat using assms(6) by simp
  then have si: "sint (plen h) = int (length p + length q)" using sint_small [of "plen h"] assms(6) by simp
  have "plen h \<noteq> 0" using u assms(4) by (metis append_is_Nil_conv length_0_conv unat_eq_0)
  have "rx_stream pre = ?a @ ?b @ rest" using assms(2) by (metis append_assoc append_take_drop_id)
  from recv_bytes [OF assms(1) this] obtain c1 p1 where
    1: "antd_recv c (int (length p)) = (int (length p), ?a, c1)" "rx_ready c1 p1 post" "rx_stream p1 = ?b @ rest"
    by auto
  let ?h1 = "h\<lparr>plen := plen h - of_int (int (length p))\<rparr>"
  have r1: "ws_read_data c h (int (length p)) = (int (length p), p @ [0], ?h1, c1)"
    using 1(1) si assms(4,8,9) \<open>plen h \<noteq> 0\<close> by (simp add: ws_read_data_def a)
  have pl: "plen ?h1 = of_nat (length ?b)" using assms(7) by simp
  have b: "?b \<noteq> []" "length ?b < 2 ^ 31" "length ?b = length q" using assms(5,6) by simp_all
  from read_data_ready [OF 1(2,3) b(1) pl b(2)] obtain c2 where
    r2: "ws_read_data c1 ?h1 (-1) = (int (length q), mask_bytes key ?b @ [0], ?h1\<lparr>plen := 0\<rparr>, c2)"
    using assms(8,9) b(3) by auto
  have good: "mask_bytes key ?b = q" if "length p mod 4 = 0"
    using mask_bytes_split [of "length p" "p @ q" key] that by simp
  have bad: "mask_bytes key ?b \<noteq> q" if "key ! (length p mod 4) \<noteq> key ! 0"
  proof
    assume eq: "mask_bytes key ?b = q"
    have q0: "0 < length q" using assms(5) by simp
    then have "mask_bytes key ?b ! 0 = ?b ! 0 XOR key ! 0" by (simp add: mask_bytes_nth)
    moreover have "?b ! 0 = q ! 0 XOR key ! (length p mod 4)"
      using q0 by (simp add: mask_bytes_nth nth_append)
    ultimately have "(q ! 0 XOR key ! (length p mod 4)) XOR key ! 0 = q ! 0" unfolding eq by simp
    then show False using that by (metis xor_two_keys)
  qed
  show ?thesis
    by (rule exI [of _ p], rule exI [of _ "mask_bytes key ?b"], rule exI [of _ ?h1],
      rule exI [of _ "?h1\<lparr>plen := 0\<rparr>"], rule exI [of _ c1], rule exI [of _ c2]) (intro conjI impI r1 r2 good bad refl; assumption)
qed

text \<open>\<open>ws_send_file\<close> on a socket in order sends the file as one fragmented message: the
  payloads of the frames put together are the file, only the first frame has the binary opcode and
  the others continue it, only the last has the final bit, all others carry 1024 bytes, and each is masked under a
  key of its own.  An empty file is one empty final frame.\<close>

lemma ws_send_file_message:
  assumes "tx_ready c"
  shows "\<exists>c' frames. ws_send_file rnds c (Some data) m = (0, c') \<and>
    sent c' = sent c @ render_frames (unat m)
      (\<lambda>i. if m \<noteq> 0 then ws_gen_mask_key (rnds i) else [0, 0, 0, 0]) 0 frames \<and>
    concat (map (snd \<circ> snd) frames) = data \<and>
    (\<exists>init d. map fst frames = replicate (length init) 0 @ [1] \<and> frames = init @ [(1, fst (snd (last frames)), d)] \<and>
       length d < 1024 \<and> (\<forall>x \<in> set init. length (snd (snd x)) = 1024) \<and>
       map (fst \<circ> snd) frames = 2 # replicate (length init) 0)"
proof -
  obtain c' where c': "ws_file_loop rnds 0 m c data 0 = (0, c')"
      "sent c' = sent c @ render_frames (unat m)
        (\<lambda>i. if m \<noteq> 0 then ws_gen_mask_key (rnds i) else [0, 0, 0, 0]) 0 (file_frames 0 data)"
    using file_loop_ready [OF assms, of rnds 0 m data 0] by blast
  have all: "concat (map (snd \<circ> snd) (file_frames 0 data)) = data"
    by (rule file_frames_payload)
  obtain init op d where sh: "file_frames 0 data = init @ [(1, op, d)]" "\<forall>x \<in> set init. fst x = 0"
      "length d < 1024" "\<forall>x \<in> set init. length (snd (snd x)) = 1024"
      "map (fst \<circ> snd) (file_frames 0 data) = 2 # replicate (length init) 0"
    using file_frames_shape [of 0 data] unfolding if_P [OF refl] by (elim exE conjE) (rule that)
  have "map fst init = replicate (length init) 0" using sh(2) by (induction init) auto
  with sh have "\<exists>init d. map fst (file_frames 0 data) = replicate (length init) 0 @ [1] \<and>
      file_frames 0 data = init @ [(1, fst (snd (last (file_frames 0 data))), d)] \<and>
      length d < 1024 \<and> (\<forall>x \<in> set init. length (snd (snd x)) = 1024) \<and>
      map (fst \<circ> snd) (file_frames 0 data) = 2 # replicate (length init) 0"
    by (intro exI [of _ init] exI [of _ d]) simp
  moreover have "ws_send_file rnds c (Some data) m = (0, c')" using c'(1) by (simp add: ws_send_file_def)
  ultimately show ?thesis using c'(2) all
    by - (rule exI [of _ c'], rule exI [of _ "file_frames 0 data"], intro conjI, assumption+)
qed

end
