(* ===== verification/FormFields.thy ===== *)
theory FormFields
  imports Utils
begin

text \<open>
  The two field formats of \<open>decode.c\<close>: the query string (\<open>decode_url_request\<close>) and the
  cookie header (\<open>decode_cookie\<close>).  Both cut a line at a separator and store the pieces in a
  dictionary; the lemmas show which lines give which entries.
\<close>

section \<open>Operations\<close>

text \<open>One turn of the loop of \<open>decode_cookie\<close>.\<close>

definition cookie_field :: "cstring dictionary \<Rightarrow> cstring \<Rightarrow> cstring dictionary" where
  "cookie_field dic token =
     (case strsep ''='' (trim token SP) of
        (token1, Some rest) \<Rightarrow> (if length rest > 0 then dput dic token1 (Some rest) else dic)
      | (token1, None) \<Rightarrow> dic)"

definition decode_cookie :: "cstring \<Rightarrow> cstring dictionary \<Rightarrow> cstring dictionary" where
  "decode_cookie line dic =
     foldl cookie_field dic (strsep_all '';'' (trim (trim (trim line SP) LF) CR))"

text \<open>One turn of the loop of \<open>decode_url_request\<close>: the value ends at a second \<open>=\<close> and is
  percent-decoded, the key is not.\<close>

definition url_field :: "cstring dictionary \<Rightarrow> cstring \<Rightarrow> cstring dictionary" where
  "url_field dic token =
     (if length token > 0 then
        (case strsep ''='' token of
           (key, rest) \<Rightarrow>
             if length key > 0 then
               let val = (case rest of None \<Rightarrow> [] | Some r \<Rightarrow> fst (strsep ''='' r))
               in dput dic key (url_decode (Some val))
             else dic)
      else dic)"

definition decode_url_request :: "cstring option \<Rightarrow> cstring dictionary \<Rightarrow> cstring dictionary" where
  "decode_url_request query dic =
     (case query of
        None \<Rightarrow> dic
      | Some q \<Rightarrow> if length q = 0 then dic else foldl url_field dic (strsep_all ''&'' q))"

section \<open>Cutting a line at a separator\<close>

fun join_with :: "char \<Rightarrow> cstring list \<Rightarrow> cstring" where
  "join_with d [] = []"
| "join_with d [x] = x"
| "join_with d (x # y # xs) = x @ d # join_with d (y # xs)"

lemma strsep_here [str_simps]: "d \<notin> set t \<Longrightarrow> strsep [d] (t @ d # r) = (t, Some r)"
  by (induction t) (auto simp: strsep_def)

lemma strsep_none [str_simps]: "d \<notin> set t \<Longrightarrow> strsep [d] t = (t, None)"
  by (induction t) (auto simp: strsep_def)

lemma strsep_all_join:
  "\<forall>x \<in> set (x # xs). d \<notin> set x \<Longrightarrow> strsep_all [d] (join_with d (x # xs)) = x # xs"
proof (induction xs arbitrary: x)
  case Nil
  then show ?case by (simp add: strsep_all.simps [of _ x] str_simps)
next
  case (Cons y ys)
  then show ?case by (simp add: strsep_all.simps [of _ "x @ _"] str_simps)
qed

lemma trim_padded [str_simps]:
  assumes "s = [] \<or> hd s \<noteq> d \<and> last s \<noteq> d"
  shows "trim (d # s) d = s" "trim s d = s"
proof -
  show "trim s d = s" using trim_idle [OF assms] .
  show "trim (d # s) d = s"
  proof (cases "s = []")
    case False
    with assms have "dropWhile (\<lambda>c. c = d) (rev s) = rev s" "dropWhile (\<lambda>c. c = d) s = s"
      by (simp_all add: dropWhile_eq_self_iff hd_rev)
    moreover have "\<exists>x \<in> set s. x \<noteq> d" using assms False hd_in_set by blast
    ultimately show ?thesis by (auto simp add: trim_eq dropWhile_append)
  qed (simp add: trim_eq)
qed

text \<open>A walk over fields each of which stores one pair stores the pairs in turn.\<close>

lemma foldl_fields:
  assumes "dict_ok dic" "\<And>d x. x \<in> set xs \<Longrightarrow> f d (g x) = (case h x of (k, v) \<Rightarrow> dput d k v)"
  shows "dict_ok (foldl f dic (map g xs)) \<and>
    dict_abs (foldl f dic (map g xs)) = dict_abs dic ++ map_of (rev (map h xs))"
proof -
  have "foldl f dic (map g xs) = foldl (\<lambda>d (k, v). dput d k v) dic (map h xs)"
    using assms(2) by (induction xs arbitrary: dic) simp_all
  then show ?thesis using cdict.ok_put_all [OF assms(1)] cdict.lookup_put_all [OF assms(1)] by simp
qed

section \<open>Query strings\<close>

definition query_pair :: "cstring \<times> cstring \<Rightarrow> cstring" where
  "query_pair kv = fst kv @ CHR ''='' # url_encode (snd kv)"

lemma url_encode_no_sep: "c \<in> set ''/?&=;:# '' \<Longrightarrow> c \<notin> set (url_encode s)"
proof
  assume "c \<in> set ''/?&=;:# ''" "c \<in> set (url_encode s)"
  then have "url_safe c" "c \<in> set ''/?&=;:# ''" using url_encode_safe [of c s] by simp_all
  then show False by (auto simp: url_safe_def url_plain_def ctype_defs code_of_def)
qed

lemma url_field_pair:
  assumes "k \<noteq> []" "CHR ''='' \<notin> set k" "is_cstr v"
  shows "url_field dic (query_pair (k, v)) = dput dic k (Some v)"
proof -
  have "CHR ''='' \<notin> set (url_encode v)" by (rule url_encode_no_sep) simp
  with assms show ?thesis
    by (simp add: url_field_def query_pair_def str_simps url_decode_def url_decode_buf_encode cstr_id)
qed

lemma decode_query_pairs:
  assumes "dict_ok dic" "\<forall>(k, v) \<in> set kvs. k \<noteq> [] \<and> set k \<inter> {CHR ''&'', CHR ''=''} = {} \<and> is_cstr v"
  shows "dict_ok (decode_url_request (Some (join_with CHR ''&'' (map query_pair kvs))) dic) \<and>
    dict_abs (decode_url_request (Some (join_with CHR ''&'' (map query_pair kvs))) dic) =
      dict_abs dic ++ map_of (rev (map (\<lambda>(k, v). (k, Some v)) kvs))"
proof (cases kvs)
  case Nil
  with assms(1) show ?thesis by (simp add: decode_url_request_def)
next
  case (Cons kv rest)
  have amp: "\<forall>x \<in> set (map query_pair kvs). CHR ''&'' \<notin> set x"
    using assms(2) url_encode_no_sep [of "CHR ''&''"] by (auto simp: query_pair_def)
  have "join_with CHR ''&'' (map query_pair kvs) \<noteq> []"
    unfolding Cons by (cases rest) (simp_all add: query_pair_def)
  then have dec: "decode_url_request (Some (join_with CHR ''&'' (map query_pair kvs))) dic =
      foldl url_field dic (map query_pair kvs)"
    using strsep_all_join [of "query_pair kv" "map query_pair rest" "CHR ''&''"] amp
    by (simp add: decode_url_request_def Cons)
  show ?thesis unfolding dec
  proof (rule foldl_fields [OF assms(1)])
    fix d :: "cstring dictionary" and x assume "x \<in> set kvs"
    with assms(2) show "url_field d (query_pair x) = (case (case x of (k, v) \<Rightarrow> (k, Some v)) of (k, v) \<Rightarrow> dput d k v)"
      by (cases x) (auto intro: url_field_pair)
  qed
qed

section \<open>Cookie headers\<close>

definition cookie_pair :: "cstring \<times> cstring \<Rightarrow> cstring" where
  "cookie_pair kv = fst kv @ CHR ''='' # snd kv"

definition cookie_safe :: "cstring \<times> cstring \<Rightarrow> bool" where
  "cookie_safe kv \<longleftrightarrow> CHR '';'' \<notin> set (fst kv) \<union> set (snd kv) \<and> CHR ''='' \<notin> set (fst kv) \<and> snd kv \<noteq> [] \<and>
     (fst kv = [] \<or> hd (fst kv) \<notin> {SP, LF, CR}) \<and> last (snd kv) \<notin> {SP, LF, CR}"

lemma cookie_pair_ends:
  assumes "cookie_safe kv"
  shows "cookie_pair kv \<noteq> []" "hd (cookie_pair kv) \<notin> {SP, LF, CR}" "last (cookie_pair kv) \<notin> {SP, LF, CR}"
  using assms by (cases "fst kv"; simp add: cookie_safe_def cookie_pair_def)+

lemma cookie_field_pair:
  assumes "cookie_safe kv"
  shows "cookie_field dic (cookie_pair kv) = dput dic (fst kv) (Some (snd kv))"
    "cookie_field dic (SP # cookie_pair kv) = dput dic (fst kv) (Some (snd kv))"
  using assms cookie_pair_ends [OF assms]
  by (simp_all add: cookie_field_def str_simps) (simp_all add: cookie_pair_def cookie_safe_def str_simps)

text \<open>The line a browser sends: the pairs separated by a semicolon and a space.\<close>

definition cookie_line :: "(cstring \<times> cstring) list \<Rightarrow> cstring" where
  "cookie_line kvs = join_with CHR '';'' (map (\<lambda>kv. SP # cookie_pair kv) kvs)"

lemma join_with_last:
  "xs \<noteq> [] \<Longrightarrow> last xs \<noteq> [] \<Longrightarrow> last (join_with d xs) = last (last xs) \<and> join_with d xs \<noteq> []"
  by (induction d xs rule: join_with.induct) auto

lemma cookie_line_fields:
  assumes "\<forall>kv \<in> set (kv # kvs). cookie_safe kv"
  shows "strsep_all '';'' (trim (trim (trim (cookie_line (kv # kvs)) SP) LF) CR) =
    cookie_pair kv # map (\<lambda>kv. SP # cookie_pair kv) kvs"
proof -
  let ?fs = "cookie_pair kv # map (\<lambda>kv. SP # cookie_pair kv) kvs"
  let ?l = "join_with CHR '';'' ?fs"
  have line: "cookie_line (kv # kvs) = SP # ?l"
    by (cases kvs) (simp_all add: cookie_line_def)
  have ends: "cookie_pair x \<noteq> []" "hd (cookie_pair x) \<notin> {SP, LF, CR}" "last (cookie_pair x) \<notin> {SP, LF, CR}"
    if "x \<in> set (kv # kvs)" for x
    using cookie_pair_ends assms that by blast+
  have hd: "hd ?l = hd (cookie_pair kv)"
    using ends(1) [of kv] by (cases kvs) (simp_all add: hd_append)
  have "last ?fs = cookie_pair kv \<or> (\<exists>x \<in> set kvs. last ?fs = SP # cookie_pair x)"
    by (cases kvs rule: rev_cases) simp_all
  then have "last ?fs \<noteq> [] \<and> last (last ?fs) = last (cookie_pair (last (kv # kvs)))"
    using ends(1) by (cases kvs rule: rev_cases) simp_all
  then have "last ?fs \<noteq> []" "last (last ?fs) \<notin> {SP, LF, CR}"
    using ends(3) [OF last_in_set [of "kv # kvs"]] by simp_all
  then have "?l \<noteq> []" "last ?l \<notin> {SP, LF, CR}" using join_with_last [of ?fs] by simp_all
  then have "trim (trim (trim (cookie_line (kv # kvs)) SP) LF) CR = ?l"
    using ends(2) [of kv] unfolding line by (simp add: str_simps hd)
  moreover have "\<forall>x \<in> set ?fs. CHR '';'' \<notin> set x"
    using assms by (auto simp: cookie_pair_def cookie_safe_def)
  ultimately show ?thesis using strsep_all_join [of "cookie_pair kv" _ "CHR '';''"] by simp
qed

section \<open>Properties\<close>

text \<open>C34. A query string as browsers write it, percent-encoded values under plain names joined by
  ampersands, gives exactly the encoded pairs: the last value of a name wins, and the entries of other
  names stay.\<close>

theorem query_string_roundtrip:
  assumes "dict_ok dic" "\<forall>(k, v) \<in> set kvs. k \<noteq> [] \<and> set k \<inter> {CHR ''&'', CHR ''=''} = {} \<and> is_cstr v"
  shows "dict_ok (decode_url_request (Some (join_with CHR ''&'' (map query_pair kvs))) dic) \<and>
    dict_abs (decode_url_request (Some (join_with CHR ''&'' (map query_pair kvs))) dic) =
      dict_abs dic ++ map_of (rev (map (\<lambda>(k, v). (k, Some v)) kvs))"
  using assms by (rule decode_query_pairs)

theorem query_string_roundtrip_witness:
  "dvalue (decode_url_request (Some (join_with CHR ''&'' (map query_pair [(''q'', ''a&b=c''), (''n'', ''1'')]))) dict)
     ''q'' = Some ''a&b=c''"
  using query_string_roundtrip [of dict "[(''q'', ''a&b=c''), (''n'', ''1'')]"]
  by (simp add: dvalue_abs)

text \<open>A cookie header as browsers write it gives exactly its pairs: the spaces after the
  semicolons are dropped, a value may hold equals signs, and the last value of a name wins.\<close>

lemma cookie_roundtrip:
  assumes "dict_ok dic" "\<forall>kv \<in> set kvs. cookie_safe kv" "kvs \<noteq> []"
  shows "dict_ok (decode_cookie (cookie_line kvs) dic) \<and>
    dict_abs (decode_cookie (cookie_line kvs) dic) =
      dict_abs dic ++ map_of (rev (map (\<lambda>(k, v). (k, Some v)) kvs))"
proof -
  obtain kv rest where kvs: "kvs = kv # rest" using assms(3) by (cases kvs) auto
  have dec: "decode_cookie (cookie_line kvs) dic = foldl cookie_field dic (map (\<lambda>kv. SP # cookie_pair kv) kvs)"
    using cookie_line_fields [of kv rest] cookie_field_pair [of kv dic] assms(2)
    by (simp add: decode_cookie_def kvs)
  show ?thesis unfolding dec
  proof (rule foldl_fields [OF assms(1)])
    fix d :: "cstring dictionary" and x assume "x \<in> set kvs"
    with assms(2) show "cookie_field d (SP # cookie_pair x) = (case (case x of (k, v) \<Rightarrow> (k, Some v)) of (k, v) \<Rightarrow> dput d k v)"
      by (simp add: cookie_field_pair split_beta)
  qed
qed

end
