(* ===== verification/Rules.thy ===== *)
theory Rules
  imports Utils ClientIo
begin

text \<open>
  URL rewriting of \<open>decode.c\<close>: \<open>rule_check\<close> expands one rule, \<open>apply_rules\<close> runs the rules of
  a port over the request, and \<open>check_proxy\<close> recognises the address of another server.

  The key of a rule is a regular expression of the configuration, matched by the C library: a
  parameter \<open>rgx\<close>, which gives the ten \<open>regmatch_t\<close> of a match.  The three patterns of the
  code itself are fixed and written out.  \<open>None\<close> is an access outside a buffer or array.
\<close>

section \<open>Patterns\<close>

type_synonym regmatch = "int \<times> int"

text \<open>\<open>regex_match("<([a-zA-Z0-9]+)>", tmp, 2, val_matches)\<close>: \<open>val_matches[1]\<close>, the leftmost
  name in angle brackets.\<close>

fun find_name :: "nat \<Rightarrow> cstring \<Rightarrow> (nat \<times> nat) option" where
  "find_name i [] = None"
| "find_name i (c # cs) =
     (let name = takeWhile c_isalnum cs in
      if c = CHR ''<'' \<and> name \<noteq> [] \<and> is_prefix_of ''>'' (drop (length name) cs)
      then Some (Suc i, Suc i + length name)
      else find_name (Suc i) cs)"

lemma find_name_bounds: "find_name i s = Some (so, eo) \<Longrightarrow> i < so \<and> so < eo \<and> eo < i + length s"
proof (induction i s rule: find_name.induct)
  case (2 i c cs)
  let ?name = "takeWhile c_isalnum cs"
  show ?case
  proof (cases "c = CHR ''<'' \<and> ?name \<noteq> [] \<and> is_prefix_of ''>'' (drop (length ?name) cs)")
    case True
    then have "drop (length ?name) cs \<noteq> []" by auto
    then have "length ?name < length cs" by (simp only: drop_eq_Nil not_le)
    moreover have "0 < length ?name" using True by simp
    ultimately show ?thesis using 2(2) True by (auto simp: Let_def simp del: length_greater_0_conv)
  next
    case False
    with 2 show ?thesis by (auto simp: Let_def)
  qed
qed simp

text \<open>\<open>regex_match("<break>$", v, 0, NULL)\<close>\<close>

definition ends_with_break :: "cstring \<Rightarrow> bool" where
  "ends_with_break v = strcasecmp_eq (drop (length v - 7) v) ''<break>''"

section \<open>One rule\<close>

text \<open>The bytes copied for one name; \<open>r\<close> is \<open>rep\<close> as a C string.\<close>

definition replacement ::
  "cstring \<Rightarrow> cstring \<Rightarrow> cstring \<Rightarrow> regmatch list \<Rightarrow> cstring \<Rightarrow> nat \<Rightarrow> nat \<Rightarrow> cstring \<Rightarrow> cstring option" where
  "replacement url query target ms tmp so eo r =
     (if strcasecmp_eq r ''url'' then Some url
      else if strcasecmp_eq r ''query'' then Some query
      else if match_int r then
        (let i = atoi r in
         if 0 \<le> i \<and> i < int (length ms) then
           (case ms ! nat i of (s, e) \<Rightarrow> Some (take (nat (e - s)) (drop (nat s) target)))
         else None)
      else if strcasecmp_eq r ''break'' then Some []
      else Some (take (eo + 2 - so) (drop (so - 1) tmp)))"

text \<open>The \<open>while\<close> loop.  \<open>rep\<close> holds ten characters and keeps the end of an earlier longer name;
  a name of ten characters leaves it without terminator, a longer one overruns it.\<close>

function subst_loop ::
  "cstring \<Rightarrow> cstring \<Rightarrow> cstring \<Rightarrow> regmatch list \<Rightarrow> cstring \<Rightarrow> char list \<Rightarrow> cstring \<Rightarrow> (cstring \<times> cstring) option" where
  "subst_loop url query target ms tmp rep out =
     (case find_name 0 tmp of
        None \<Rightarrow> Some (out, tmp)
      | Some (so, eo) \<Rightarrow>
          let rep' = take (eo - so) (drop so tmp) @ drop (eo - so) rep in
          if eo - so > length rep \<or> NUL \<notin> set rep' then None
          else (case replacement url query target ms tmp so eo (cstr rep') of
                  None \<Rightarrow> None
                | Some x \<Rightarrow>
                    subst_loop url query target ms (drop (eo + 1) tmp) rep' (out @ take (so - 1) tmp @ x)))"
  by pat_completeness auto

termination
  by (relation "measure (\<lambda>(url, query, target, ms, tmp, rep, out). length tmp)")
    (auto dest!: find_name_bounds)

declare subst_loop.simps [simp del]

text \<open>The size of the caller's \<open>buf[2 * BUFFLEN]\<close>.\<close>

definition URI_SIZE :: nat where "URI_SIZE = 2 * BUFFLEN"

text \<open>\<open>rule_check\<close>: whether the rule matched, and the contents of the buffer, which holds
  \<open>url\<close> when it is called.\<close>

definition rule_check ::
  "(cstring \<Rightarrow> cstring \<Rightarrow> regmatch list option) \<Rightarrow> cstring \<Rightarrow> cstring \<Rightarrow> cstring option \<Rightarrow> cstring \<Rightarrow> cstring
    \<Rightarrow> (bool \<times> cstring) option" where
  "rule_check rgx k v host url query =
     (case (case Option.bind host (rgx k) of
              None \<Rightarrow> map_option (Pair url) (rgx k url)
            | Some ms \<Rightarrow> Some (the host, ms)) of
        None \<Rightarrow> Some (False, url)
      | Some (target, ms) \<Rightarrow>
          (case subst_loop url query target ms v (replicate 10 NUL) [] of
             None \<Rightarrow> None
           | Some (out, tmp) \<Rightarrow>
               if length out > 0 then
                 (if length out + length tmp < URI_SIZE then Some (True, out @ tmp) else None)
               else Some (True, url)))"

section \<open>The rules of a port\<close>

text \<open>The scan for the question mark: the buffer is cut there.\<close>

definition split_query :: "cstring \<Rightarrow> cstring \<times> cstring" where
  "split_query u = (takeWhile (\<lambda>c. c \<noteq> CHR ''?'') u, drop 1 (dropWhile (\<lambda>c. c \<noteq> CHR ''?'') u))"

text \<open>The walk over the rules, with the buffer and \<open>query_string\<close>.\<close>

fun apply_loop ::
  "(cstring \<Rightarrow> cstring \<Rightarrow> regmatch list option) \<Rightarrow> cstring option \<Rightarrow> cstring assoc list \<Rightarrow> bool
    \<Rightarrow> cstring \<times> cstring \<Rightarrow> (cstring \<times> cstring) option" where
  "apply_loop rgx host [] should_break (url, query) = Some (url, query)"
| "apply_loop rgx host ((k, None) # its) should_break (url, query) =
     apply_loop rgx host its should_break (url, query)"
| "apply_loop rgx host ((k, Some v) # its) should_break (url, query) =
     (let should_break' = (should_break \<or> ends_with_break v) in
      case rule_check rgx k v host url query of
        None \<Rightarrow> None
      | Some (True, buf) \<Rightarrow>
          if should_break' then Some (split_query buf)
          else apply_loop rgx host its should_break' (split_query buf)
      | Some (False, _) \<Rightarrow> apply_loop rgx host its should_break' (url, query))"

text \<open>\<open>apply_rules\<close>: the rewritten buffer and the query string returned.\<close>

definition apply_rules ::
  "(cstring \<Rightarrow> cstring \<Rightarrow> regmatch list option) \<Rightarrow> cstring dictionary \<Rightarrow> cstring option \<Rightarrow> cstring
    \<Rightarrow> (cstring \<times> cstring) option" where
  "apply_rules rgx rules host url = apply_loop rgx host (dict_items rules) False (split_query url)"

section \<open>Addresses of other servers\<close>

text \<open>\<open>regex_match("^(https?)://([^:]+):([0-9]+)(.*)$", path, 5, matches)\<close>: the lengths of the
  four groups are those of the four parts.\<close>

definition proxy_match :: "cstring \<Rightarrow> (cstring \<times> cstring \<times> cstring \<times> cstring) option" where
  "proxy_match path =
     (let n = (if strcasecmp_eq (take 8 path) ''https://'' then 5
               else if strcasecmp_eq (take 7 path) ''http://'' then 4 else 0);
          r = drop (n + 3) path;
          host = takeWhile (\<lambda>c. c \<noteq> CHR '':'') r;
          p = drop (length host + 1) r;
          port = takeWhile c_isdigit p
      in if n > 0 \<and> host \<noteq> [] \<and> port \<noteq> []
         then Some (take n path, host, port, drop (length port) p) else None)"

section \<open>What a rule means\<close>

text \<open>The value of a rule as pieces of text without angle brackets, each followed by a name in
  brackets, and the text after the last name.\<close>

definition render_rule :: "(cstring \<times> cstring) list \<Rightarrow> cstring \<Rightarrow> cstring" where
  "render_rule ps end_text = concat (map (\<lambda>(l, n). l @ ''<'' @ n @ ''>'') ps) @ end_text"

definition group_text :: "cstring \<Rightarrow> regmatch \<Rightarrow> cstring" where
  "group_text target m = take (nat (snd m - fst m)) (drop (nat (fst m)) target)"

definition expand_name :: "cstring \<Rightarrow> cstring \<Rightarrow> cstring \<Rightarrow> regmatch list \<Rightarrow> cstring \<Rightarrow> cstring option" where
  "expand_name url query target ms n =
     (if strcasecmp_eq n ''url'' then Some url
      else if strcasecmp_eq n ''query'' then Some query
      else if \<forall>c \<in> set n. c_isdigit c then
        (if digits_val 0 n < int (length ms) then Some (group_text target (ms ! nat (digits_val 0 n))) else None)
      else if strcasecmp_eq n ''break'' then Some []
      else Some (''<'' @ n @ ''>''))"

definition good_name :: "cstring \<Rightarrow> bool" where
  "good_name n \<longleftrightarrow> n \<noteq> [] \<and> length n \<le> 9 \<and> (\<forall>c \<in> set n. c_isalnum c)"

lemma alnum_facts: "c_isalnum c \<Longrightarrow> c \<noteq> NUL \<and> c \<noteq> CHR ''+'' \<and> c \<noteq> CHR ''-'' \<and> \<not> c_isspace c"
  by (auto simp: ctype_defs code_of_def)

lemma not_alnum [simp]: "\<not> c_isalnum (CHR ''>'')" "\<not> c_isalnum (CHR ''<'')"
  by (simp_all add: ctype_defs code_of_def)

lemma find_name_text: "CHR ''<'' \<notin> set l \<Longrightarrow> find_name i l = None"
  by (induction l arbitrary: i) (auto simp: Let_def)

lemma find_name_here:
  assumes "CHR ''<'' \<notin> set l" "n \<noteq> []" "\<forall>c \<in> set n. c_isalnum c"
  shows "find_name i (l @ ''<'' @ n @ ''>'' @ rest) = Some (Suc (i + length l), Suc (i + length l) + length n)"
  using assms(1)
proof (induction l arbitrary: i)
  case Nil
  have "takeWhile c_isalnum (n @ ''>'' @ rest) = n" using assms(3) by (simp add: takeWhile_append)
  then show ?case using assms(2) by simp
qed (auto simp: Let_def)

lemma digits_val_bound:
  "0 \<le> acc \<Longrightarrow> 0 \<le> digits_val acc n \<and> digits_val acc n < (acc + 1) * 10 ^ length n"
proof (induction n arbitrary: acc)
  case (Cons c n)
  show ?case
  proof (cases "c_isdigit c")
    case True
    let ?d = "int (code_of c - 48)"
    have d: "?d \<le> 9" using True by (simp add: c_isdigit_def)
    have "(10 * acc + ?d + 1) * 10 ^ length n \<le> (10 * acc + 10) * 10 ^ length n"
      using d by (intro mult_right_mono) simp_all
    moreover have "(10 * acc + 10) * 10 ^ length n = (acc + 1) * 10 ^ length (c # n)" by (simp add: algebra_simps)
    moreover have "0 \<le> digits_val (10 * acc + ?d) n \<and>
        digits_val (10 * acc + ?d) n < (10 * acc + ?d + 1) * 10 ^ length n"
      using Cons.IH [of "10 * acc + ?d"] Cons.prems by simp
    ultimately have "0 \<le> digits_val (10 * acc + ?d) n \<and>
        digits_val (10 * acc + ?d) n < (acc + 1) * 10 ^ length (c # n)" by linarith
    with True show ?thesis by simp
  next
    case False
    have "(1 :: int) \<le> 10 ^ length (c # n)" by (rule one_le_power) simp
    then have "(acc + 1) * 1 \<le> (acc + 1) * 10 ^ length (c # n)" using Cons.prems by (intro mult_left_mono) simp_all
    then have "acc < (acc + 1) * 10 ^ length (c # n)" unfolding mult_1_right add1_zle_eq .
    with False Cons.prems show ?thesis by simp
  qed
qed simp

text \<open>\<open>match_int\<close> and \<open>atoi\<close> on a name.\<close>

lemma good_name_int:
  assumes "good_name n"
  shows "match_int n \<longleftrightarrow> (\<forall>c \<in> set n. c_isdigit c)" "\<forall>c \<in> set n. c_isdigit c \<Longrightarrow> atoi n = digits_val 0 n"
proof -
  obtain c cs where n: "n = c # cs" using assms by (cases n) (auto simp: good_name_def)
  have c: "c \<noteq> CHR ''+''" "c \<noteq> CHR ''-''" "\<not> c_isspace c"
    using assms alnum_facts [of c] by (auto simp: good_name_def n)
  then show "match_int n \<longleftrightarrow> (\<forall>c \<in> set n. c_isdigit c)"
    by (simp add: match_int_def sign_opt_def n list_all_iff)
  have "(10 :: int) ^ length n \<le> 10 ^ 9" using assms by (intro power_increasing) (auto simp: good_name_def)
  then have b: "0 \<le> digits_val 0 n" "digits_val 0 n < 10 ^ 9" using digits_val_bound [of 0 n] by simp_all
  have "strtol n = digits_val 0 n" using b c by (simp add: strtol_def n Let_def)
  then show "atoi n = digits_val 0 n"
    using b by (simp add: atoi_def signed_of_int signed_take_bit_int_eq_self)
qed

section \<open>The loop meets the meaning\<close>

lemma cstr_name: "\<forall>c \<in> set n. c_isalnum c \<Longrightarrow> cstr (n @ replicate k NUL) = n"
  by (induction n; cases k) (auto simp: cstr_def alnum_facts)

lemma replacement_name:
  assumes "good_name n" "tmp = l @ ''<'' @ n @ ''>'' @ rest"
  shows "replacement url query target ms tmp (Suc (length l)) (Suc (length l) + length n) n =
    expand_name url query target ms n"
proof -
  have "take (Suc (length l) + length n + 2 - Suc (length l)) (drop (Suc (length l) - 1) tmp) = ''<'' @ n @ ''>''"
    unfolding assms(2) by simp
  moreover have "\<forall>c \<in> set n. c_isdigit c \<Longrightarrow> 0 \<le> digits_val 0 n"
    using digits_val_bound [of 0 n] by simp
  ultimately show ?thesis
    using good_name_int [OF assms(1)]
    by (auto simp: replacement_def expand_name_def group_text_def Let_def split_beta)
qed

lemma subst_step:
  assumes "find_name 0 tmp = Some (so, eo)" "take (eo - so) (drop so tmp) @ drop (eo - so) rep = rep'"
    "eo - so \<le> length rep" "NUL \<in> set rep'" "replacement url query target ms tmp so eo (cstr rep') = Some x"
  shows "subst_loop url query target ms tmp rep out =
    subst_loop url query target ms (drop (eo + 1) tmp) rep' (out @ take (so - 1) tmp @ x)"
  using assms(1,3-5) unfolding assms(2) [symmetric]
  by (auto simp: subst_loop.simps [of _ _ _ _ tmp])

lemma subst_loop_render:
  assumes "\<forall>(l, n) \<in> set ps. CHR ''<'' \<notin> set l \<and> good_name n \<and> expand_name url query target ms n \<noteq> None"
    "sorted (length old # map (length \<circ> snd) ps)" "length old \<le> 9" "CHR ''<'' \<notin> set end_text"
  shows "subst_loop url query target ms (render_rule ps end_text) (old @ replicate (10 - length old) NUL) out =
    Some (out @ concat (map (\<lambda>(l, n). l @ the (expand_name url query target ms n)) ps), end_text)"
  using assms(1-3)
proof (induction ps arbitrary: old out)
  case Nil
  then show ?case using assms(4) by (simp add: subst_loop.simps [of _ _ _ _ end_text] render_rule_def find_name_text)
next
  case (Cons p ps)
  obtain l n where p: "p = (l, n)" by (cases p)
  have l: "CHR ''<'' \<notin> set l" and n: "good_name n" and x: "expand_name url query target ms n \<noteq> None"
    using Cons.prems(1) p by auto
  then have n': "n \<noteq> []" "\<forall>c \<in> set n. c_isalnum c" "length n \<le> 9" by (auto simp: good_name_def)
  have old: "length old \<le> length n" using Cons.prems(2) p by simp
  let ?tmp = "render_rule (p # ps) end_text" and ?rest = "render_rule ps end_text"
  let ?rep = "n @ replicate (10 - length n) NUL"
  have tmp: "?tmp = l @ ''<'' @ n @ ''>'' @ ?rest" by (simp add: render_rule_def p)
  have f: "find_name 0 ?tmp = Some (Suc (length l), Suc (length l) + length n)"
    unfolding tmp using find_name_here [OF l n'(1,2), of 0 ?rest] by simp
  have rep: "take (Suc (length l) + length n - Suc (length l)) (drop (Suc (length l)) ?tmp) @
      drop (Suc (length l) + length n - Suc (length l)) (old @ replicate (10 - length old) NUL) = ?rep"
    unfolding tmp using old by simp
  have rest: "drop (Suc (length l) + length n + 1) ?tmp = ?rest" unfolding tmp by simp
  have len: "Suc (length l) + length n - Suc (length l) \<le> length (old @ replicate (10 - length old) NUL)"
    using Cons.prems(3) n'(3) by simp
  have nul: "NUL \<in> set ?rep" using n'(3) by simp
  have x': "replacement url query target ms ?tmp (Suc (length l)) (Suc (length l) + length n) (cstr ?rep) =
      Some (the (expand_name url query target ms n))"
    unfolding cstr_name [OF n'(2)] replacement_name [OF n tmp] using x by simp
  have "subst_loop url query target ms ?tmp (old @ replicate (10 - length old) NUL) out =
      subst_loop url query target ms ?rest ?rep
        (out @ take (Suc (length l) - 1) ?tmp @ the (expand_name url query target ms n))"
    unfolding rest [symmetric]
    by (rule subst_step [OF f rep len nul x'])
  also have "take (Suc (length l) - 1) ?tmp = l" by (simp add: tmp)
  finally show ?case
    using Cons.IH [of n "out @ l @ the (expand_name url query target ms n)"] Cons.prems(1,2) n'(3)
    by (simp add: p)
qed

section \<open>Rules that do not match, or say nothing\<close>

lemma split_query_url [simp]: "split_query (fst (split_query u)) = (fst (split_query u), [])"
proof -
  have "\<forall>c \<in> set (takeWhile (\<lambda>c. c \<noteq> CHR ''?'') u). c \<noteq> CHR ''?''" by (auto dest: set_takeWhileD)
  then have "takeWhile (\<lambda>c. c \<noteq> CHR ''?'') (takeWhile (\<lambda>c. c \<noteq> CHR ''?'') u) = takeWhile (\<lambda>c. c \<noteq> CHR ''?'') u"
    "dropWhile (\<lambda>c. c \<noteq> CHR ''?'') (takeWhile (\<lambda>c. c \<noteq> CHR ''?'') u) = []"
    by (simp_all only: takeWhile_eq_all_conv dropWhile_eq_Nil_conv)
  then show ?thesis unfolding split_query_def fst_conv by (simp only: drop_Nil)
qed

lemma rule_check_no_match: "Option.bind host (rgx k) = None \<Longrightarrow> rgx k url = None \<Longrightarrow>
    rule_check rgx k v host url query = Some (False, url)"
  by (simp add: rule_check_def)

lemma rule_check_plain:
  assumes "Option.bind host (rgx k) \<noteq> None \<or> rgx k url \<noteq> None" "CHR ''<'' \<notin> set v"
  shows "rule_check rgx k v host url query = Some (True, url)"
proof -
  have "subst_loop url query target ms v rep out = Some (out, v)" for target ms rep out
    using assms(2) by (simp add: subst_loop.simps [of _ _ _ _ v] find_name_text)
  then show ?thesis using assms(1) by (auto simp: rule_check_def split: option.splits)
qed

lemma apply_loop_no_match:
  assumes "\<forall>(k, v) \<in> set its. v \<noteq> None \<longrightarrow> Option.bind host (rgx k) = None \<and> rgx k url = None"
  shows "apply_loop rgx host its b (url, query) = Some (url, query)"
  using assms
proof (induction its arbitrary: b)
  case (Cons it its)
  obtain k v where "it = (k, v)" by (cases it)
  with Cons show ?case by (cases v) (auto simp: rule_check_no_match Let_def)
qed simp

section \<open>Properties\<close>



text \<open>The buffer \<open>rep\<close> is not cleared between two names, so a rule whose second name is shorter is
  expanded wrongly: in \<open><url><1>\<close> the digit is read as \<open>1rl\<close>, and the brackets are copied
  where the matched group should be.\<close>

lemma rule_check_stale_name:
  assumes "c_isdigit d" "url \<noteq> []" "length url + 3 < URI_SIZE"
    "Option.bind host (rgx k) \<noteq> None \<or> rgx k url \<noteq> None"
  shows "rule_check rgx k (''<url><'' @ [d] @ ''>'') host url query = Some (True, url @ ''<'' @ [d] @ ''>'')"
proof -
  let ?v = "''<url><'' @ [d] @ ''>''" and ?r1 = "''url'' @ replicate 7 NUL" and ?r2 = "d # ''rl'' @ replicate 7 NUL"
  have d: "c_isalnum d" "d \<noteq> NUL" "c_tolower d = d" "d \<noteq> CHR ''u''" "d \<noteq> CHR ''+''" "d \<noteq> CHR ''-''"
    using assms(1) by (auto simp: ctype_defs c_tolower_def code_of_def)
  have f1: "find_name 0 ?v = Some (1, 4)" and f2: "find_name 0 (''<'' @ [d] @ ''>'') = Some (1, 2)"
    using d by (simp_all add: ctype_defs code_of_def)
  have rep: "cstr ?r1 = ''url''" "cstr ?r2 = d # ''rl''"
    using d by (simp_all add: cstr_def numeral_eq_Suc)
  have x1: "replacement url query target ms ?v 1 4 (cstr ?r1) = Some url" for target ms
    unfolding rep by (simp add: replacement_def strcasecmp_eq_def)
  have x2: "replacement url query target ms (''<'' @ [d] @ ''>'') 1 2 (cstr ?r2) = Some (''<'' @ [d] @ ''>'')" for target ms
    unfolding rep using d by (auto simp: replacement_def strcasecmp_eq_def match_int_def sign_opt_def c_tolower_def
        ctype_defs code_of_def)
  have "subst_loop url query target ms ?v (replicate 10 NUL) [] =
      subst_loop url query target ms (drop (4 + 1) ?v) ?r1 ([] @ take (1 - 1) ?v @ url)" for target ms
    by (rule subst_step [OF f1 _ _ _ x1]) (simp_all add: numeral_eq_Suc)
  also have "subst_loop url query target ms (drop (4 + 1) ?v) ?r1 ([] @ take (1 - 1) ?v @ url) =
      subst_loop url query target ms [] ?r2 (url @ ''<'' @ [d] @ ''>'')" for target ms
    using subst_step [OF f2 _ _ _ x2, of ?r1 target ms url] by (simp add: numeral_eq_Suc)
  finally have "subst_loop url query target ms ?v (replicate 10 NUL) [] = Some (url @ ''<'' @ [d] @ ''>'', [])" for target ms
    by (simp add: subst_loop.simps [of _ _ _ _ "[]"])
  then show ?thesis using assms(2-4) by (auto simp: rule_check_def split: option.splits)
qed

text \<open>When no rule of the port matches the host or the URL, the request goes on unchanged: the buffer
  holds the part of the target before the first question mark and the query string is the
  part after it.\<close>

lemma apply_rules_unmatched:
  assumes "\<forall>(k, v) \<in> set (dict_items rules). Option.bind host (rgx k) = None \<and> rgx k (fst (split_query url)) = None"
  shows "apply_rules rgx rules host url = Some (split_query url) \<and>
    (CHR ''?'' \<in> set url \<longrightarrow> fst (split_query url) @ ''?'' @ snd (split_query url) = url) \<and>
    (CHR ''?'' \<notin> set url \<longrightarrow> split_query url = (url, []))"
proof -
  obtain u q where uq: "split_query url = (u, q)" by (cases "split_query url")
  have "apply_rules rgx rules host url = Some (split_query url)"
    using assms apply_loop_no_match [of "dict_items rules" host rgx u False q]
    by (auto simp: apply_rules_def uq)
  moreover have "fst (split_query url) @ ''?'' @ snd (split_query url) = url" if "CHR ''?'' \<in> set url"
    using that by (induction url) (auto simp: split_query_def)
  moreover have "split_query url = (url, [])" if "CHR ''?'' \<notin> set url"
    using that by (induction url) (auto simp: split_query_def)
  ultimately show ?thesis by blast
qed

text \<open>Two rules that do not do what they say.  A matching rule whose value has no name in brackets
  leaves the URL as it was and drops the query string.  A rule that ends in \<open><break>\<close> and does not match
  still ends the walk at the next rule that does.\<close>

lemma apply_rules_surprises:
  assumes "split_query url = (u, q)"
  shows "((\<exists>v. dict_items rules = [(k, Some v)] \<and> CHR ''<'' \<notin> set v) \<and> (Option.bind host (rgx k) \<noteq> None \<or> rgx k u \<noteq> None) \<longrightarrow>
      apply_rules rgx rules host url = Some (u, [])) \<and>
    (dict_items rules = (k, Some v) # (k', Some v') # rest \<and> ends_with_break v \<and>
        Option.bind host (rgx k) = None \<and> rgx k u = None \<and> rule_check rgx k' v' host u q = Some (True, buf) \<longrightarrow>
      apply_rules rgx rules host url = Some (split_query buf))"
  using assms split_query_url [of url]
  by (auto simp: apply_rules_def rule_check_plain rule_check_no_match Let_def)

end
