(* ===== verification/Base64.thy ===== *)
theory Base64
  imports Prelude
begin

text \<open>
  The Base64 codec of \<open>lib/base64.c\<close>: \<open>Base64encode\<close>, \<open>Base64decode\<close> and the two functions
  that give the sizes of the buffers.  Characters are read as bytes; the encoder's \<open>char\<close> is signed, so its first
  shift is arithmetic, as in the code.
\<close>

section \<open>Encoding\<close>

definition basis_64 :: "char list" where
  "basis_64 = ''ABCDEFGHIJKLMNOPQRSTUVWXYZabcdefghijklmnopqrstuvwxyz0123456789+/''"

abbreviation basis :: "u8 \<Rightarrow> char" where "basis w \<equiv> basis_64 ! unat w"

definition Base64encode_len :: "int \<Rightarrow> int" where
  "Base64encode_len len = (len + 2) div 3 * 4 + 1"

text \<open>The characters \<open>Base64encode\<close> writes before the terminator: the loop, and the one or two bytes
  that are left.\<close>

fun encode_groups :: "u8 list \<Rightarrow> char list" where
  "encode_groups (a # b # c # rest) =
     basis (signed_drop_bit 2 a AND 0x3F)
     # basis (push_bit 4 (a AND 0x3) OR drop_bit 4 (b AND 0xF0))
     # basis (push_bit 2 (b AND 0xF) OR drop_bit 6 (c AND 0xC0))
     # basis (c AND 0x3F) # encode_groups rest"
| "encode_groups [a, b] =
     [basis (signed_drop_bit 2 a AND 0x3F), basis (push_bit 4 (a AND 0x3) OR drop_bit 4 (b AND 0xF0)),
      basis (push_bit 2 (b AND 0xF)), CHR ''='']"
| "encode_groups [a] =
     [basis (signed_drop_bit 2 a AND 0x3F), basis (push_bit 4 (a AND 0x3)), CHR ''='', CHR ''='']"
| "encode_groups [] = []"

text \<open>\<open>Base64encode\<close>: the buffer and the number of characters written.\<close>

definition Base64encode :: "u8 list \<Rightarrow> int \<times> char list" where
  "Base64encode bytes = (let p = encode_groups bytes @ [NUL] in (int (length p), p))"

section \<open>Decoding\<close>

definition pr2six_table :: "u8 list" where
  "pr2six_table =
    [64, 64, 64, 64, 64, 64, 64, 64, 64, 64, 64, 64, 64, 64, 64, 64,
     64, 64, 64, 64, 64, 64, 64, 64, 64, 64, 64, 64, 64, 64, 64, 64,
     64, 64, 64, 64, 64, 64, 64, 64, 64, 64, 64, 62, 64, 64, 64, 63,
     52, 53, 54, 55, 56, 57, 58, 59, 60, 61, 64, 64, 64, 64, 64, 64,
     64,  0,  1,  2,  3,  4,  5,  6,  7,  8,  9, 10, 11, 12, 13, 14,
     15, 16, 17, 18, 19, 20, 21, 22, 23, 24, 25, 64, 64, 64, 64, 64,
     64, 26, 27, 28, 29, 30, 31, 32, 33, 34, 35, 36, 37, 38, 39, 40,
     41, 42, 43, 44, 45, 46, 47, 48, 49, 50, 51, 64, 64, 64, 64, 64]
     @ replicate 128 64"

definition pr2six :: "char \<Rightarrow> u8" where
  "pr2six c = pr2six_table ! code_of c"

text \<open>The scan \<open>while (pr2six[*(bufin++)] <= 63)\<close>: \<open>nprbytes\<close>.\<close>

definition nprbytes :: "cstring \<Rightarrow> nat" where
  "nprbytes bufcoded = length (takeWhile (\<lambda>c. pr2six c \<le> 63) (bufcoded @ [NUL]))"

definition Base64decode_len :: "cstring \<Rightarrow> int" where
  "Base64decode_len bufcoded = (int (nprbytes bufcoded) + 3) div 4 * 3 + 1"

text \<open>The loop over groups of four while more than four characters are left, with the characters the scan
  accepted; it returns the bytes and what is left.\<close>

fun decode_groups :: "char list \<Rightarrow> u8 list \<times> char list" where
  "decode_groups (a # b # c # d # e # rest) =
     (let (out, left) = decode_groups (e # rest) in
      ((push_bit 2 (pr2six a) OR drop_bit 4 (pr2six b))
       # (push_bit 4 (pr2six b) OR drop_bit 2 (pr2six c))
       # (push_bit 6 (pr2six c) OR pr2six d) # out, left))"
| "decode_groups left = ([], left)"

definition decode_rest :: "char list \<Rightarrow> u8 list" where
  "decode_rest left =
     (if length left > 1 then [push_bit 2 (pr2six (left ! 0)) OR drop_bit 4 (pr2six (left ! 1))] else [])
     @ (if length left > 2 then [push_bit 4 (pr2six (left ! 1)) OR drop_bit 2 (pr2six (left ! 2))] else [])
     @ (if length left > 3 then [push_bit 6 (pr2six (left ! 2)) OR pr2six (left ! 3)] else [])"

text \<open>\<open>Base64decode\<close>: the result and the bytes written, the terminator included.\<close>

definition Base64decode :: "cstring \<Rightarrow> int \<times> u8 list" where
  "Base64decode bufcoded =
     (let n = nprbytes bufcoded;
          nbytesdecoded = (int n + 3) div 4 * 3;
          (out, left) = decode_groups (take n bufcoded)
      in (nbytesdecoded - int ((4 - length left) mod 4), out @ decode_rest left @ [0]))"

section \<open>Lemmas\<close>

lemma pr2six_basis_64: "map pr2six basis_64 = map of_nat [0..<64]"
  by (simp add: basis_64_def pr2six_def pr2six_table_def code_of_def upt_rec)

lemma length_basis_64: "length basis_64 = 64"
  by (simp add: basis_64_def)

lemma pr2six_basis:
  assumes "w < 64"
  shows "pr2six (basis w) = w" "basis w \<noteq> NUL" "basis w \<noteq> CHR ''=''"
proof -
  have w: "unat w < 64" using assms by (simp add: word_less_nat_alt)
  then have "pr2six (basis w) = map of_nat [0..<64] ! unat w"
    unfolding pr2six_basis_64 [symmetric] by (simp add: length_basis_64)
  with w show "pr2six (basis w) = w" by simp
  have "NUL \<notin> set basis_64" "CHR ''='' \<notin> set basis_64" by (simp_all add: basis_64_def)
  then show "basis w \<noteq> NUL" "basis w \<noteq> CHR ''=''" using w by (metis length_basis_64 nth_mem)+
qed

lemma pr2six_pad: "pr2six NUL = 64" "pr2six (CHR ''='') = 64"
  by (simp_all add: pr2six_def pr2six_table_def code_of_def)

text \<open>The six-bit parts of three bytes.\<close>

definition sextets :: "u8 \<Rightarrow> u8 \<Rightarrow> u8 \<Rightarrow> u8 list" where
  "sextets a b c = [signed_drop_bit 2 a AND 0x3F, push_bit 4 (a AND 0x3) OR drop_bit 4 (b AND 0xF0),
     push_bit 2 (b AND 0xF) OR drop_bit 6 (c AND 0xC0), c AND 0x3F]"

lemma less_8_cases: "(n :: nat) < 8 \<Longrightarrow> n \<in> {0, 1, 2, 3, 4, 5, 6, 7}"
  by auto

lemma sextets_small: "w \<in> set (sextets a b c) \<Longrightarrow> w < 64"
proof -
  have small: "w < 64" if "take_bit 6 w = w" for w :: u8
  proof -
    have "unat (take_bit 6 w) < 2 ^ 6" unfolding unsigned_take_bit_eq by (rule take_bit_nat_less_exp)
    with that show ?thesis by (simp add: word_less_nat_alt)
  qed
  have "take_bit 6 w = w" if "w \<in> set (sextets a b c)"
    by (rule bit_word_eqI) (use that in \<open>auto simp: sextets_def bit_simps dest!: less_8_cases\<close>)
  then show "w \<in> set (sextets a b c) \<Longrightarrow> w < 64" using small by blast
qed

lemma sextets_join:
  assumes "sextets a b c = [w, x, y, z]"
  shows "push_bit 2 w OR drop_bit 4 x = a" "push_bit 4 x OR drop_bit 2 y = b" "push_bit 6 y OR z = c"
  using assms unfolding sextets_def
  by (auto intro!: bit_word_eqI simp: bit_simps dest!: less_8_cases; simp add: numeral_2_eq_2 numeral_3_eq_3)+

text \<open>The encoder in terms of the six-bit parts.\<close>

lemma encode_groups_sextets:
  "encode_groups (a # b # c # rest) = map basis (sextets a b c) @ encode_groups rest"
  "encode_groups [a, b] = map basis (take 3 (sextets a b 0)) @ ''=''"
  "encode_groups [a] = map basis (take 2 (sextets a 0 0)) @ ''==''"
  by (simp_all add: sextets_def)

lemma encode_groups_length: "length (encode_groups bs) = (length bs + 2) div 3 * 4"
proof (induction bs rule: encode_groups.induct)
  case (1 a b c rest)
  have "(length (a # b # c # rest) + 2) div 3 = (length rest + 2) div 3 + 1"
    using div_add_self2 [of 3 "length rest + 2"] by (simp add: ac_simps)
  with 1 show ?case by (simp del: length_Cons)
qed simp_all

text \<open>The characters a decoder accepts in an encoding, and how many bytes they stand for.\<close>

fun encode_chars :: "u8 list \<Rightarrow> char list" where
  "encode_chars (a # b # c # rest) = map basis (sextets a b c) @ encode_chars rest"
| "encode_chars [a, b] = map basis (take 3 (sextets a b 0))"
| "encode_chars [a] = map basis (take 2 (sextets a 0 0))"
| "encode_chars [] = []"

lemma encode_chars_pad:
  "\<exists>pad. encode_groups bs = encode_chars bs @ pad \<and> set pad \<subseteq> {CHR ''=''}"
proof (induction bs rule: encode_chars.induct)
  case (1 a b c rest)
  then show ?case by (auto simp: encode_groups_sextets(1) simp del: encode_groups.simps)
qed (auto simp: encode_groups_sextets simp del: encode_groups.simps(1-3))

lemma encode_chars_accepted: "x \<in> set (encode_chars bs) \<Longrightarrow> pr2six x \<le> 63 \<and> x \<noteq> NUL \<and> x \<noteq> CHR ''=''"
proof -
  have basis: "pr2six (basis w) \<le> 63 \<and> basis w \<noteq> NUL \<and> basis w \<noteq> CHR ''=''" if "w < 64" for w
    using that pr2six_basis [OF that] by (simp add: word_le_nat_alt word_less_nat_alt)
  have sub: "set (encode_chars bs) \<subseteq> (\<lambda>w. basis w) ` {w. w < 64}"
    by (induction bs rule: encode_chars.induct) (auto dest!: in_set_takeD sextets_small)
  assume "x \<in> set (encode_chars bs)"
  then have "x \<in> (\<lambda>w. basis w) ` {w. w < 64}" by (rule subsetD [OF sub])
  then obtain w where "x = basis w" "w < 64" by (elim imageE CollectE)
  then show "pr2six x \<le> 63 \<and> x \<noteq> NUL \<and> x \<noteq> CHR ''=''" using basis [of w] by simp
qed

lemma nprbytes_encode: "nprbytes (encode_groups bs) = length (encode_chars bs)"
proof -
  obtain pad where pad: "encode_groups bs = encode_chars bs @ pad" "set pad \<subseteq> {CHR ''=''}"
    using encode_chars_pad by blast
  then have "takeWhile (\<lambda>c. pr2six c \<le> 63) (pad @ [NUL]) = []"
    by (cases pad) (auto simp: pr2six_pad word_le_nat_alt)
  then have "takeWhile (\<lambda>c. pr2six c \<le> 63) (encode_groups bs @ [NUL]) = encode_chars bs"
    using encode_chars_accepted [of _ bs] by (simp add: pad takeWhile_append2)
  then show ?thesis by (simp add: nprbytes_def)
qed

text \<open>Decoding the accepted characters.\<close>

definition decode_chars :: "char list \<Rightarrow> u8 list \<times> nat" where
  "decode_chars cs = (case decode_groups cs of (out, left) \<Rightarrow> (out @ decode_rest left, length left))"

lemma sextets_obtain:
  obtains w x y z where "sextets a b c = [w, x, y, z]" "w < 64" "x < 64" "y < 64" "z < 64"
    "push_bit 2 w OR drop_bit 4 x = a" "push_bit 4 x OR drop_bit 2 y = b" "push_bit 6 y OR z = c"
  using sextets_join [OF sextets_def] sextets_small [of _ a b c]
  by (metis list.set_intros sextets_def)

lemma decode_chars_encode:
  "fst (decode_chars (encode_chars bs)) = bs \<and>
   (4 - snd (decode_chars (encode_chars bs))) mod 4 = (2 * length bs) mod 3 mod 4"
proof (induction bs rule: encode_chars.induct)
  case (1 a b c rest)
  obtain w x y z where s: "sextets a b c = [w, x, y, z]" "w < 64" "x < 64" "y < 64" "z < 64"
      "push_bit 2 w OR drop_bit 4 x = a" "push_bit 4 x OR drop_bit 2 y = b" "push_bit 6 y OR z = c"
    by (rule sextets_obtain)
  show ?case
  proof (cases "encode_chars rest")
    case Nil
    then have "rest = []" by (cases rest rule: encode_chars.cases) (simp_all add: sextets_def)
    then show ?thesis using s by (simp add: decode_chars_def decode_rest_def pr2six_basis)
  next
    case (Cons e es)
    have "decode_chars (encode_chars (a # b # c # rest)) =
        (a # b # c # fst (decode_chars (encode_chars rest)), snd (decode_chars (encode_chars rest)))"
      using s Cons by (simp add: decode_chars_def pr2six_basis split_beta Let_def)
    moreover have "2 * length (a # b # c # rest) mod 3 = 2 * length rest mod 3" by simp presburger
    ultimately show ?thesis using "1.IH" by (simp del: length_Cons)
  qed
next
  case (2 a b)
  obtain w x y z where "sextets a b 0 = [w, x, y, z]" "w < 64" "x < 64" "y < 64" "z < 64"
      "push_bit 2 w OR drop_bit 4 x = a" "push_bit 4 x OR drop_bit 2 y = b" "push_bit 6 y OR z = 0"
    by (rule sextets_obtain)
  then show ?case by (simp add: decode_chars_def decode_rest_def pr2six_basis)
next
  case (3 a)
  obtain w x y z where "sextets a 0 0 = [w, x, y, z]" "w < 64" "x < 64" "y < 64" "z < 64"
      "push_bit 2 w OR drop_bit 4 x = a" "push_bit 4 x OR drop_bit 2 y = 0" "push_bit 6 y OR z = 0"
    by (rule sextets_obtain)
  then show ?case by (simp add: decode_chars_def decode_rest_def pr2six_basis)
qed (simp_all add: decode_chars_def decode_rest_def)

lemma group_arith:
  "(n div 3 * 4 + (if n mod 3 = 0 then 0 else n mod 3 + 1) + 3) div 4 * 3 = n + (2 * n) mod 3 mod (4 :: nat)"
proof -
  obtain q r where n: "n = 3 * q + r" "r < 3" using that [of "n div 3" "n mod 3"] by simp
  have e: "(3 * q + r) div 3 = q" "(3 * q + r) mod 3 = r" using n(2) by simp_all
  have "2 * (3 * q + r) = 2 * r + 3 * (2 * q)" by simp
  then have m: "(2 * (3 * q + r)) mod 3 = 2 * r mod 3" by (simp only: mod_mult_self2)
  have d: "(q * 4 + 0 + 3) div 4 = q" "(q * 4 + (1 + 1) + 3) div 4 = q + 1" "(q * 4 + (2 + 1) + 3) div 4 = q + 1"
    by (rule div_nat_eqI; simp)+
  consider "r = 0" | "r = 1" | "r = 2" using n(2) by linarith
  then show ?thesis unfolding n(1) e m by cases (simp_all only: if_True if_False one_neq_zero zero_neq_numeral numeral_neq_zero d, simp_all)
qed

lemma encode_groups_cstr: "is_cstr (encode_groups bs)"
proof -
  obtain pad where "encode_groups bs = encode_chars bs @ pad" "set pad \<subseteq> {CHR ''=''}"
    using encode_chars_pad by blast
  then have "NUL \<notin> set (encode_groups bs)" using encode_chars_accepted [of NUL bs] by auto
  then show ?thesis by (simp add: is_cstr_def)
qed

section \<open>Properties\<close>

text \<open>C32. Decoding an encoding gives back the bytes, whatever they are, and returns their number; the
  encoding is a C string, and both functions stay within the sizes \<open>Base64encode_len\<close> and
  \<open>Base64decode_len\<close> give, terminators included.\<close>

theorem base64_roundtrip:
  "\<exists>cs. Base64encode bs = (Base64encode_len (int (length bs)), cs @ [NUL]) \<and> is_cstr cs \<and>
     Base64decode cs = (int (length bs), bs @ [0]) \<and> int (length bs) + 1 \<le> Base64decode_len cs"
proof -
  let ?cs = "encode_groups bs"
  obtain pad where pad: "?cs = encode_chars bs @ pad" "set pad \<subseteq> {CHR ''=''}"
    using encode_chars_pad by blast
  have take: "take (nprbytes ?cs) ?cs = encode_chars bs" unfolding nprbytes_encode by (simp add: pad)
  have n: "nprbytes ?cs = length (encode_chars bs)" by (rule nprbytes_encode)
  have len: "length (encode_chars bs) = length bs div 3 * 4 + (if length bs mod 3 = 0 then 0 else length bs mod 3 + 1)"
    by (induction bs rule: encode_chars.induct) (simp_all add: sextets_def mod_Suc div_add_self1)
  have cstr: "is_cstr ?cs" by (rule encode_groups_cstr)
  obtain out left where dec: "decode_groups (encode_chars bs) = (out, left)"
    by (cases "decode_groups (encode_chars bs)")
  have fin: "out @ decode_rest left = bs" "(4 - length left) mod 4 = (2 * length bs) mod 3 mod 4"
    using decode_chars_encode [of bs] by (simp_all add: decode_chars_def dec)
  have size: "(length (encode_chars bs) + 3) div 4 * 3 = length bs + (2 * length bs) mod 3 mod 4"
    unfolding len by (rule group_arith)
  have size': "(int (nprbytes ?cs) + 3) div 4 * 3 = int (length bs) + int ((4 - length left) mod 4)"
    using arg_cong [OF size, of int] unfolding n fin(2) by (simp add: of_nat_div of_nat_mod)
  have "Base64decode ?cs = (int (length bs), (out @ decode_rest left) @ [0])"
    unfolding Base64decode_def Let_def take dec prod.case size' by simp
  then have "Base64decode ?cs = (int (length bs), bs @ [0])" unfolding fin(1) .
  moreover have "int (length bs) + 1 \<le> Base64decode_len ?cs"
    unfolding Base64decode_len_def size' by simp
  moreover have "Base64encode bs = (Base64encode_len (int (length bs)), ?cs @ [NUL])"
    by (simp add: Base64encode_def Base64encode_len_def encode_groups_length Let_def zdiv_int)
  ultimately show ?thesis using cstr by - (rule exI [of _ ?cs], intro conjI, assumption+)
qed

end
