(* ===== verification/Sha1.thy ===== *)
theory Sha1
  imports Prelude
begin

text \<open>
  SHA-1 of \<open>lib/sha1.c\<close>: \<open>SHA1_Transform\<close>, \<open>SHA1_Init\<close>, \<open>SHA1_Update\<close>, \<open>SHA1_Final\<close> and
  \<open>digest_to_hex\<close>, on a little-endian machine and without \<open>SHA1HANDSOFF\<close>, as the server is
  built: a block is expanded in place, in the caller's buffer.  The lemmas relate them to the algorithm of
  FIPS 180-1.
\<close>

section \<open>The compression function\<close>

definition rol :: "u32 \<Rightarrow> nat \<Rightarrow> u32" where
  "rol value bits = push_bit bits value OR drop_bit (32 - bits) value"

text \<open>The two views of \<open>CHAR64LONG16\<close>.\<close>

definition word_le :: "u8 \<Rightarrow> u8 \<Rightarrow> u8 \<Rightarrow> u8 \<Rightarrow> u32" where
  "word_le a b c d = ucast a OR push_bit 8 (ucast b) OR push_bit 16 (ucast c) OR push_bit 24 (ucast d)"

fun load_words :: "u8 list \<Rightarrow> u32 list" where
  "load_words (a # b # c # d # rest) = word_le a b c d # load_words rest"
| "load_words _ = []"

definition store_words :: "u32 list \<Rightarrow> u8 list" where
  "store_words l = concat (map (\<lambda>w. [ucast w, ucast (drop_bit 8 w), ucast (drop_bit 16 w), ucast (drop_bit 24 w)]) l)"

text \<open>The expressions \<open>blk0(i)\<close> and \<open>blk(i)\<close> assign to \<open>block->l\<close>.\<close>

definition blk0 :: "u32 list \<Rightarrow> nat \<Rightarrow> u32" where
  "blk0 l i = (rol (l ! i) 24 AND 0xFF00FF00) OR (rol (l ! i) 8 AND 0x00FF00FF)"

definition blk :: "u32 list \<Rightarrow> nat \<Rightarrow> u32" where
  "blk l i = rol (l ! ((i + 13) mod 16) XOR l ! ((i + 8) mod 16) XOR l ! ((i + 2) mod 16) XOR l ! (i mod 16)) 1"

text \<open>The mixing function and the constant of \<open>R0\<close>, \<open>R1\<close>, \<open>R2\<close>, \<open>R3\<close>, \<open>R4\<close>, by the
  number of the operation.\<close>

definition mix :: "nat \<Rightarrow> u32 \<Rightarrow> u32 \<Rightarrow> u32 \<Rightarrow> u32" where
  "mix i w x y =
     (if i < 20 then (w AND (x XOR y)) XOR y
      else if i < 40 then w XOR x XOR y
      else if i < 60 then ((w OR x) AND y) OR (w AND x)
      else w XOR x XOR y)"

definition addend :: "nat \<Rightarrow> u32" where
  "addend i = (if i < 20 then 0x5A827999 else if i < 40 then 0x6ED9EBA1 else if i < 60 then 0x8F1BBCDC else 0xCA62C1D6)"

text \<open>Operation \<open>i\<close>: the variables \<open>a\<close> to \<open>e\<close> are a list, and the arguments of the macros
  move down by one place each time.\<close>

definition sha_op :: "nat \<Rightarrow> u32 list \<times> u32 list \<Rightarrow> u32 list \<times> u32 list" where
  "sha_op i = (\<lambda>(r, l).
     let v = r ! ((80 - i) mod 5); w = r ! ((81 - i) mod 5); x = r ! ((82 - i) mod 5);
         y = r ! ((83 - i) mod 5); z = r ! ((84 - i) mod 5);
         b = (if i < 16 then blk0 l i else blk l i)
     in (r[(84 - i) mod 5 := z + (mix i w x y + b + addend i + rol v 5), (81 - i) mod 5 := rol w 30],
         l[i mod 16 := b]))"

text \<open>\<open>SHA1_Transform\<close>: the new state and what the buffer holds afterwards.\<close>

definition SHA1_Transform :: "u32 list \<Rightarrow> u8 list \<Rightarrow> u32 list \<times> u8 list" where
  "SHA1_Transform st buffer =
     (case fold sha_op [0..<80] (st, load_words buffer) of
        (r, l) \<Rightarrow> (map2 (+) st r, store_words l))"

section \<open>Contexts\<close>

record sha_ctx =
  sh_state :: "u32 list"
  sh_count0 :: u32
  sh_count1 :: u32
  sh_buffer :: "u8 list"

definition H0 :: "u32 list" where
  "H0 = [0x67452301, 0xEFCDAB89, 0x98BADCFE, 0x10325476, 0xC3D2E1F0]"

text \<open>\<open>SHA1_Init\<close> leaves the buffer alone.\<close>

definition SHA1_Init :: "u8 list \<Rightarrow> sha_ctx" where
  "SHA1_Init buffer = \<lparr>sh_state = H0, sh_count0 = 0, sh_count1 = 0, sh_buffer = buffer\<rparr>"

definition memcpy_at :: "'a list \<Rightarrow> nat \<Rightarrow> 'a list \<Rightarrow> 'a list" where
  "memcpy_at dst j src = take j dst @ src @ drop (j + length src) dst"

text \<open>The \<open>for\<close> loop of \<open>SHA1_Update\<close> over whole blocks of the caller's data.\<close>

function update_loop :: "u32 list \<Rightarrow> u8 list \<Rightarrow> nat \<Rightarrow> u32 list \<times> u8 list \<times> nat" where
  "update_loop st data i =
     (if i + 63 < length data then
        (case SHA1_Transform st (take 64 (drop i data)) of
           (st', block) \<Rightarrow> update_loop st' (memcpy_at data i (take 64 block)) (i + 64))
      else (st, data, i))"
  by pat_completeness auto
termination
  by (relation "measure (\<lambda>(st, data, i). length data - i)") (auto simp: memcpy_at_def)

declare update_loop.simps [simp del]

text \<open>\<open>SHA1_Update\<close> with \<open>len\<close> a 64-bit \<open>size_t\<close>: the context, and the caller's data
  afterwards.\<close>

definition SHA1_Update :: "sha_ctx \<Rightarrow> u8 list \<Rightarrow> sha_ctx \<times> u8 list" where
  "SHA1_Update ctx data =
     (let len = word_of_nat (length data) :: 64 word;
          j = unat (drop_bit 3 (sh_count0 ctx) AND 63);
          count0 = sh_count0 ctx + ucast (push_bit 3 len);
          carry = (if ucast count0 < push_bit 3 len then 1 else 0);
          count1 = sh_count1 ctx + carry + ucast (drop_bit 29 len);
          (st, buf, data', i, j') =
            (if j + length data > 63 then
               (case SHA1_Transform (sh_state ctx) (memcpy_at (sh_buffer ctx) j (take (64 - j) data)) of
                  (st1, buf1) \<Rightarrow>
                    (case update_loop st1 data (64 - j) of (st2, data2, i2) \<Rightarrow> (st2, buf1, data2, i2, 0)))
             else (sh_state ctx, sh_buffer ctx, data, 0, j))
      in (\<lparr>sh_state = st, sh_count0 = count0, sh_count1 = count1,
           sh_buffer = memcpy_at buf j' (drop i data')\<rparr>, data'))"

text \<open>The \<open>while\<close> loop of \<open>SHA1_Final\<close>; at most 64 turns bring the count to 448 bits.\<close>

fun pad_loop :: "nat \<Rightarrow> sha_ctx \<Rightarrow> sha_ctx option" where
  "pad_loop 0 ctx = None"
| "pad_loop (Suc n) ctx =
     (if sh_count0 ctx AND 504 \<noteq> 448 then pad_loop n (fst (SHA1_Update ctx [0])) else Some ctx)"

definition final_count :: "sha_ctx \<Rightarrow> u8 list" where
  "final_count ctx =
     map (\<lambda>i. ucast (drop_bit ((3 - i mod 4) * 8) (if i \<ge> 4 then sh_count0 ctx else sh_count1 ctx) AND 255)) [0..<8]"

definition state_digest :: "u32 list \<Rightarrow> u8 list" where
  "state_digest st = map (\<lambda>i. ucast (drop_bit ((3 - i mod 4) * 8) (st ! (i div 4)) AND 255)) [0..<20]"

definition SHA1_Final :: "sha_ctx \<Rightarrow> u8 list option" where
  "SHA1_Final ctx =
     (let finalcount = final_count ctx; ctx1 = fst (SHA1_Update ctx [0x80]) in
      case pad_loop 65 ctx1 of
        None \<Rightarrow> None
      | Some ctx2 \<Rightarrow> Some (state_digest (sh_state (fst (SHA1_Update ctx2 finalcount)))))"

definition digest_to_hex :: "u8 list \<Rightarrow> cstring" where
  "digest_to_hex digest = concat (map hex2 digest)"

section \<open>FIPS 180-1\<close>

definition f_ch :: "u32 \<Rightarrow> u32 \<Rightarrow> u32 \<Rightarrow> u32" where
  "f_ch b c d = (b AND c) OR (NOT b AND d)"

definition f_maj :: "u32 \<Rightarrow> u32 \<Rightarrow> u32 \<Rightarrow> u32" where
  "f_maj b c d = (b AND c) OR (b AND d) OR (c AND d)"

definition fips_f :: "nat \<Rightarrow> u32 \<Rightarrow> u32 \<Rightarrow> u32 \<Rightarrow> u32" where
  "fips_f t b c d = (if t < 20 then f_ch b c d else if 40 \<le> t \<and> t < 60 then f_maj b c d else b XOR c XOR d)"

fun words_be :: "u8 list \<Rightarrow> u32 list" where
  "words_be (a # b # c # d # rest) =
     (push_bit 24 (ucast a) OR push_bit 16 (ucast b) OR push_bit 8 (ucast c) OR ucast d) # words_be rest"
| "words_be _ = []"

text \<open>The message schedule: sixteen words of the block and as many more as asked for.\<close>

fun schedule :: "nat \<Rightarrow> u32 list \<Rightarrow> u32 list" where
  "schedule 0 ws = ws"
| "schedule (Suc n) ws =
     (let w = schedule n ws; t = length w
      in w @ [rol (w ! (t - 3) XOR w ! (t - 8) XOR w ! (t - 14) XOR w ! (t - 16)) 1])"

type_synonym regs = "u32 \<times> u32 \<times> u32 \<times> u32 \<times> u32"

definition fips_step :: "u32 list \<Rightarrow> nat \<Rightarrow> regs \<Rightarrow> regs" where
  "fips_step W t = (\<lambda>(a, b, c, d, e). (rol a 5 + fips_f t b c d + e + W ! t + addend t, a, rol b 30, c, d))"

definition compress_block :: "u32 list \<Rightarrow> u8 list \<Rightarrow> u32 list" where
  "compress_block h block =
     (let W = schedule 64 (words_be block) in
      case fold (fips_step W) [0..<80] (h ! 0, h ! 1, h ! 2, h ! 3, h ! 4) of
        (a, b, c, d, e) \<Rightarrow> [h ! 0 + a, h ! 1 + b, h ! 2 + c, h ! 3 + d, h ! 4 + e])"

function absorb :: "u32 list \<Rightarrow> u8 list \<Rightarrow> u32 list" where
  "absorb h bs = (if length bs < 64 then h else absorb (compress_block h (take 64 bs)) (drop 64 bs))"
  by pat_completeness auto
termination
  by (relation "measure (\<lambda>(h, bs). length bs)") auto

declare absorb.simps [simp del]

text \<open>Padding: a one bit, zeros up to 448 modulo 512 bits, the length in bits as 64 bits.\<close>

definition zeros :: "nat \<Rightarrow> nat" where
  "zeros n = (119 - n mod 64) mod 64"

definition length_bytes :: "nat \<Rightarrow> u8 list" where
  "length_bytes n = map (\<lambda>i. ucast (drop_bit (8 * (7 - i)) (word_of_nat (8 * n) :: 64 word))) [0..<8]"

definition fips_sha1 :: "u8 list \<Rightarrow> u8 list" where
  "fips_sha1 msg =
     concat (map (\<lambda>w. [ucast (drop_bit 24 w), ucast (drop_bit 16 w), ucast (drop_bit 8 w), ucast w])
       (absorb H0 (msg @ [0x80] @ replicate (zeros (length msg)) 0 @ length_bytes (length msg))))"

section \<open>Words\<close>

definition swap_bytes :: "u32 \<Rightarrow> u32" where
  "swap_bytes w = (rol w 24 AND 0xFF00FF00) OR (rol w 8 AND 0x00FF00FF)"

lemma byte_masks:
  "(0xFF00FF00 :: u32) = push_bit 24 (mask 8) OR push_bit 8 (mask 8)" "(0x00FF00FF :: u32) = push_bit 16 (mask 8) OR mask 8"
  "(255 :: u32) = mask 8"
  by (simp_all add: mask_eq_exp_minus_1)

lemma swap_bytes_le:
  "swap_bytes (word_le a b c d) =
    push_bit 24 (ucast a) OR push_bit 16 (ucast b) OR push_bit 8 (ucast c) OR ucast d"
proof (rule bit_word_eqI)
  fix n assume "n < LENGTH(32)"
  then obtain q k where n: "n = k + 8 * q" "k < 8" "q < 4"
    using that [of "n mod 8" "n div 8"] by simp
  have hi: "\<not> bit (x :: u8) m" if "8 \<le> m" for x m using bit_imp_le_length [of x m] that by auto
  consider "q = 0" | "q = 1" | "q = 2" | "q = 3" using n(3) by linarith
  then show "bit (swap_bytes (word_le a b c d)) n =
      bit (push_bit 24 (ucast a) OR push_bit 16 (ucast b) OR push_bit 8 (ucast c) OR ucast d :: u32) n"
    unfolding swap_bytes_def word_le_def rol_def byte_masks n(1)
    by cases (use n(2) in \<open>simp_all add: bit_simps hi\<close>)
qed

lemma words_be_load: "words_be bs = map swap_bytes (load_words bs)"
  by (induction bs rule: words_be.induct) (simp_all add: swap_bytes_le)

lemma load_words_length: "length (load_words bs) = length bs div 4"
  by (induction bs rule: load_words.induct) (simp_all add: div_add_self1)

lemma mix_fips: "mix i w x y = fips_f i w x y"
  unfolding mix_def fips_f_def f_ch_def f_maj_def
  by (auto intro!: bit_word_eqI simp: bit_simps)

lemma ucast_byte: "ucast (drop_bit k (w :: u32) AND 255) = (ucast (drop_bit k w) :: u8)"
  unfolding byte_masks by (rule bit_word_eqI) (auto simp: bit_simps)

section \<open>One block\<close>

lemma schedule_length [simp]: "length (schedule n ws) = n + length ws"
  by (induction n ws rule: schedule.induct) (simp_all add: Let_def)

lemma schedule_head: "t < length ws \<Longrightarrow> schedule n ws ! t = ws ! t"
  by (induction n) (simp_all add: Let_def nth_append)

lemma schedule_rec:
  assumes "length ws \<le> t" "t < n + length ws" "16 \<le> length ws"
  shows "schedule n ws ! t = rol (schedule n ws ! (t - 3) XOR schedule n ws ! (t - 8)
    XOR schedule n ws ! (t - 14) XOR schedule n ws ! (t - 16)) 1"
  using assms
proof (induction n)
  case (Suc n)
  show ?case
  proof (cases "t < n + length ws")
    case True
    with Suc have "schedule n ws ! t = rol (schedule n ws ! (t - 3) XOR schedule n ws ! (t - 8)
        XOR schedule n ws ! (t - 14) XOR schedule n ws ! (t - 16)) 1" by simp
    moreover have "t - k < n + length ws" for k using True by simp
    ultimately show ?thesis using True by (simp add: Let_def nth_append)
  next
    case False
    with Suc.prems have "t = n + length ws" by simp
    with Suc.prems show ?thesis by (simp add: Let_def nth_append)
  qed
qed simp

text \<open>What the sixteen words of a block hold before operation \<open>i\<close>.\<close>

definition window :: "nat \<Rightarrow> u32 list \<Rightarrow> u32 list \<Rightarrow> u32 list \<Rightarrow> bool" where
  "window i W l0 l \<longleftrightarrow> length l = 16 \<and> (\<forall>t. t < i \<and> i \<le> t + 16 \<longrightarrow> l ! (t mod 16) = W ! t) \<and>
     (\<forall>j. i \<le> j \<and> j < 16 \<longrightarrow> l ! j = l0 ! j)"

lemma window_word:
  assumes "window i W l0 l" "W = schedule 64 (map swap_bytes l0)" "length l0 = 16" "i < 80"
  shows "(if i < 16 then blk0 l i else blk l i) = W ! i"
proof (cases "i < 16")
  case True
  with assms show ?thesis
    by (simp add: window_def blk0_def swap_bytes_def schedule_head)
next
  case False
  have prev: "l ! ((i + (16 - k)) mod 16) = W ! (i - k)" if "0 < k" "k \<le> 16" for k
  proof -
    have "i + (16 - k) = (i - k) + 16" using False that by linarith
    then have "(i + (16 - k)) mod 16 = (i - k) mod 16" by simp
    moreover have "i - k < i" "i \<le> i - k + 16" using False that by linarith+
    ultimately show ?thesis using assms(1) by (simp add: window_def)
  qed
  have "W ! i = rol (W ! (i - 3) XOR W ! (i - 8) XOR W ! (i - 14) XOR W ! (i - 16)) 1"
    using schedule_rec [of "map swap_bytes l0" i 64] False assms(2-4) by simp
  with False prev [of 3] prev [of 8] prev [of 14] prev [of 16] show ?thesis by (simp add: blk_def)
qed

lemma window_step:
  assumes "window i W l0 l" "b = W ! i"
  shows "window (Suc i) W l0 (l[i mod 16 := b])"
proof -
  have "i mod 16 \<noteq> t mod 16" if "t < i" "Suc i \<le> t + 16" for t
  proof
    assume "i mod 16 = t mod 16"
    then have "(i - t) mod 16 = 0" using that(1) by (simp add: mod_eq_dvd_iff_nat)
    with that show False by auto
  qed
  moreover have "j \<noteq> i mod 16" if "Suc i \<le> j" "j < 16" for j using that by simp
  ultimately show ?thesis using assms by (auto simp: window_def less_Suc_eq nth_list_update)
qed

definition regs_at :: "nat \<Rightarrow> u32 list \<Rightarrow> regs" where
  "regs_at i r = (r ! ((80 - i) mod 5), r ! ((81 - i) mod 5), r ! ((82 - i) mod 5), r ! ((83 - i) mod 5), r ! ((84 - i) mod 5))"

lemma sha_op_regs:
  assumes "length r = 5" "i < 80" "(if i < 16 then blk0 l i else blk l i) = W ! i"
  shows "regs_at (Suc i) (fst (sha_op i (r, l))) = fips_step W i (regs_at i r)"
    "length (fst (sha_op i (r, l))) = 5" "snd (sha_op i (r, l)) = l[i mod 16 := W ! i]"
proof -
  obtain n where n: "80 - i = n" "81 - i = n + 1" "82 - i = n + 2" "83 - i = n + 3" "84 - i = n + 4" "80 - Suc i = n - 1"
      "81 - Suc i = n" "82 - Suc i = n + 1" "83 - Suc i = n + 2" "84 - Suc i = n + 3" "0 < n"
    using assms(2) that [of "80 - i"] by simp
  have m: "(n + k) mod 5 = (n mod 5 + k) mod 5" for k by (simp add: mod_add_left_eq)
  have "(n - 1) mod 5 = (n mod 5 + 4) mod 5" using n(11) by (cases n) (simp_all add: mod_simps)
  moreover have "n mod 5 < 5" by simp
  then have "n mod 5 \<in> {0, 1, 2, 3, 4}" unfolding insert_iff empty_iff by linarith
  ultimately show "regs_at (Suc i) (fst (sha_op i (r, l))) = fips_step W i (regs_at i r)"
    using assms(1) unfolding regs_at_def sha_op_def fips_step_def n m Let_def prod.case assms(3)
    by (auto simp: mix_fips ac_simps)
  show "length (fst (sha_op i (r, l))) = 5" using assms(1) by (simp add: sha_op_def Let_def)
  show "snd (sha_op i (r, l)) = l[i mod 16 := W ! i]" using assms(3) by (simp add: sha_op_def Let_def)
qed

lemma regs_at_start: "regs_at 0 st = (st ! 0, st ! 1, st ! 2, st ! 3, st ! 4)"
  by (simp add: regs_at_def)

lemma fold_sha_op:
  assumes "length st = 5" "length l0 = 16" "W = schedule 64 (map swap_bytes l0)" "n \<le> 80"
  shows "regs_at n (fst (fold sha_op [0..<n] (st, l0))) = fold (fips_step W) [0..<n] (regs_at 0 st) \<and>
    length (fst (fold sha_op [0..<n] (st, l0))) = 5 \<and> window n W l0 (snd (fold sha_op [0..<n] (st, l0)))"
  using assms(4)
proof (induction n)
  case 0
  then show ?case using assms(1,2) by (simp add: window_def)
next
  case (Suc n)
  obtain r l where rl: "fold sha_op [0..<n] (st, l0) = (r, l)" by (cases "fold sha_op [0..<n] (st, l0)")
  from Suc have "n < 80" and IH: "regs_at n r = fold (fips_step W) [0..<n] (regs_at 0 st)" "length r = 5" "window n W l0 l"
    by (simp_all add: rl)
  note w = window_word [OF IH(3) assms(3,2) \<open>n < 80\<close>]
  show ?case
    using sha_op_regs [OF IH(2) \<open>n < 80\<close> w] window_step [OF IH(3) refl] IH(1) by (simp add: rl)
qed

lemma transform_compress:
  assumes "length st = 5" "length buffer = 64"
  shows "fst (SHA1_Transform st buffer) = compress_block st buffer" "length (snd (SHA1_Transform st buffer)) = 64"
proof -
  let ?l0 = "load_words buffer"
  let ?W = "schedule 64 (words_be buffer)"
  obtain r l where rl: "fold sha_op [0..<80] (st, ?l0) = (r, l)" by (cases "fold sha_op [0..<80] (st, ?l0)")
  have "length ?l0 = 16" using assms(2) by (simp add: load_words_length)
  from fold_sha_op [OF assms(1) this _ order.refl, of ?W]
  have f: "regs_at 80 r = fold (fips_step ?W) [0..<80] (regs_at 0 st)" "length r = 5" "length l = 16"
    by (simp_all add: rl words_be_load window_def)
  obtain a b c d e where r: "r = [a, b, c, d, e]"
    using f(2) by (auto simp: numeral_eq_Suc length_Suc_conv)
  obtain a' b' c' d' e' where st: "st = [a', b', c', d', e']"
    using assms(1) by (auto simp: numeral_eq_Suc length_Suc_conv)
  have "fold (fips_step ?W) [0..<80] (a', b', c', d', e') = (a, b, c, d, e)"
    using f(1) by (simp add: regs_at_def r st)
  then show "fst (SHA1_Transform st buffer) = compress_block st buffer"
    unfolding SHA1_Transform_def compress_block_def rl Let_def by (simp add: r st)
  have "length (store_words l) = 4 * length l" by (induction l) (simp_all add: store_words_def)
  then show "length (snd (SHA1_Transform st buffer)) = 64"
    unfolding SHA1_Transform_def rl by (simp add: f(3))
qed

section \<open>Many blocks\<close>

lemma compress_length [simp]: "length (compress_block h b) = 5"
  by (simp add: compress_block_def Let_def split_beta)

lemma absorb_length: "length h = 5 \<Longrightarrow> length (absorb h bs) = 5"
proof (induction h bs rule: absorb.induct)
  case (1 h bs)
  then show ?case by (simp add: absorb.simps [of h bs])
qed

lemma absorb_short [simp]: "length bs < 64 \<Longrightarrow> absorb h bs = h"
  by (simp add: absorb.simps [of h bs])

lemma absorb_block: "length b = 64 \<Longrightarrow> absorb h (b @ bs) = absorb (compress_block h b) bs"
  by (simp add: absorb.simps [of h "b @ bs"])

definition left_over :: "u8 list \<Rightarrow> u8 list" where
  "left_over bs = drop (length bs - length bs mod 64) bs"

lemma left_over_length: "length (left_over bs) = length bs mod 64"
  by (simp add: left_over_def)

lemma left_over_block:
  assumes "64 \<le> length bs"
  shows "left_over (drop 64 bs) = left_over bs"
proof -
  have "(length bs - 64) mod 64 = length bs mod 64" using assms by (simp add: le_mod_geq)
  moreover have "length bs mod 64 \<le> length bs - 64" using assms mod_le_divisor [of 64 "length bs - 64"] calculation
    by (metis mod_less_eq_dividend)
  ultimately show ?thesis using assms by (simp add: left_over_def)
qed

lemma absorb_append: "absorb h (xs @ ys) = absorb (absorb h xs) (left_over xs @ ys)"
proof (induction h xs rule: absorb.induct)
  case (1 h xs)
  show ?case
  proof (cases "length xs < 64")
    case True
    then show ?thesis by (simp add: left_over_def)
  next
    case False
    then have "absorb h (xs @ ys) = absorb (compress_block h (take 64 xs)) (drop 64 xs @ ys)"
      by (simp add: absorb.simps [of h "xs @ ys"])
    also have "absorb (compress_block h (take 64 xs)) (drop 64 xs) = absorb h xs"
      using False by (simp add: absorb.simps [of h xs])
    then have "absorb (compress_block h (take 64 xs)) (drop 64 xs @ ys) = absorb (absorb h xs) (left_over xs @ ys)"
      using 1 False by (simp add: left_over_block)
    finally show ?thesis .
  qed
qed

lemma memcpy_length: "j + length src \<le> length dst \<Longrightarrow> length (memcpy_at dst j src) = length dst"
  by (simp add: memcpy_at_def)

lemma update_loop_absorb:
  assumes "length st = 5" "i \<le> length data"
  shows "\<exists>data' i'. update_loop st data i = (absorb st (drop i data), data', i') \<and>
    drop i' data' = left_over (drop i data)"
  using assms
proof (induction st data i rule: update_loop.induct)
  case (1 st data i)
  show ?case
  proof (cases "i + 63 < length data")
    case False
    then have "length (drop i data) < 64" by simp
    with False show ?thesis by (simp add: update_loop.simps [of st] left_over_def)
  next
    case True
    let ?b = "take 64 (drop i data)"
    have b: "length ?b = 64" using True by simp
    obtain st' block where t: "SHA1_Transform st ?b = (st', block)" by (cases "SHA1_Transform st ?b")
    with transform_compress [OF "1.prems"(1) b] have st': "st' = compress_block st ?b" "length block = 64" by simp_all
    let ?data = "memcpy_at data i (take 64 block)"
    have d: "drop (i + 64) ?data = drop 64 (drop i data)" "i + 64 \<le> length ?data"
      using True st'(2) by (simp_all add: memcpy_at_def add.commute)
    have "absorb st (drop i data) = absorb st' (drop 64 (drop i data))"
      using absorb_block [OF b, of st "drop 64 (drop i data)"] by (simp only: append_take_drop_id st'(1))
    moreover have "left_over (drop i data) = left_over (drop 64 (drop i data))"
      using left_over_block [of "drop i data"] True by simp
    ultimately show ?thesis
      using "1.IH" [OF True t [symmetric]] st' d True t by (simp add: update_loop.simps [of st data])
  qed
qed

text \<open>A context that has taken in the bytes \<open>p\<close>.\<close>

definition has_read :: "sha_ctx \<Rightarrow> u8 list \<Rightarrow> bool" where
  "has_read ctx p \<longleftrightarrow> length (sh_buffer ctx) = 64 \<and> sh_state ctx = absorb H0 p \<and>
     take (length p mod 64) (sh_buffer ctx) = left_over p \<and>
     sh_count0 ctx = of_nat (8 * length p) \<and> sh_count1 ctx = 0"

lemma H0_length: "length H0 = 5"
  by (simp add: H0_def)

lemma has_read_init: "length buffer = 64 \<Longrightarrow> has_read (SHA1_Init buffer) []"
  by (simp add: has_read_def SHA1_Init_def left_over_def)

lemma count_position:
  assumes "n < 2 ^ 29"
  shows "unat (drop_bit 3 (of_nat (8 * n) :: u32) AND 63) = n mod 64"
    "(of_nat (8 * n) :: u32) AND 504 \<noteq> 448 \<longleftrightarrow> n mod 64 \<noteq> 56"
proof -
  have u: "unat (of_nat (8 * n) :: u32) = 8 * n" unfolding unat_of_nat using assms by simp
  have m: "(63 :: u32) = mask 6" "(504 :: u32) = push_bit 3 (mask 6)" by (simp_all add: mask_eq_exp_minus_1)
  let ?k = "drop_bit 3 (of_nat (8 * n) :: u32) AND 63"
  have d: "unat (drop_bit 3 (of_nat (8 * n) :: u32)) = n"
    unfolding unsigned_drop_bit_eq u using assms by (simp add: drop_bit_eq_div take_bit_nat_eq_self)
  have "unat ?k = unat (drop_bit 3 (of_nat (8 * n) :: u32)) mod 2 ^ 6"
    unfolding m take_bit_eq_mask [symmetric] unsigned_take_bit_eq by (simp only: take_bit_eq_mod)
  then show k: "unat ?k = n mod 64" unfolding d by simp
  have "(of_nat (8 * n) :: u32) AND 504 = push_bit 3 ?k"
    unfolding m by (rule bit_word_eqI) (auto simp: bit_simps)
  moreover have "unat (push_bit 3 ?k) = 8 * (n mod 64)"
  proof -
    have "n mod 64 < 64" by simp
    then have "(n mod 64) * 8 < (2 :: nat) ^ 32" by simp
    then show ?thesis unfolding unsigned_push_bit_eq k
      by (simp add: push_bit_eq_mult take_bit_nat_eq_self mult.commute)
  qed
  moreover have "unat (448 :: u32) = 448" by simp
  ultimately show "(of_nat (8 * n) :: u32) AND 504 \<noteq> 448 \<longleftrightarrow> n mod 64 \<noteq> 56"
    unfolding word_unat_eq_iff by auto
qed

lemma update_has_read:
  assumes "has_read ctx p" "length p + length data < 2 ^ 29"
  shows "has_read (fst (SHA1_Update ctx data)) (p @ data)"
proof -
  let ?n = "length p" and ?m = "length data" and ?j = "length p mod 64"
  let ?len = "word_of_nat ?m :: 64 word"
  define C :: u32 where "C = of_nat (8 * length (p @ data))"
  have buf: "length (sh_buffer ctx) = 64" and st: "sh_state ctx = absorb H0 p"
    and head: "take ?j (sh_buffer ctx) = left_over p" and c0: "sh_count0 ctx = of_nat (8 * ?n)" and c1: "sh_count1 ctx = 0"
    using assms(1) by (simp_all add: has_read_def)
  have j: "unat (drop_bit 3 (sh_count0 ctx) AND 63) = ?j"
    unfolding c0 using assms(2) by (intro count_position) simp
  have len: "unat ?len = ?m" unfolding unat_of_nat using assms(2) by simp
  have shift: "push_bit 3 ?len = word_of_nat (8 * ?m)" by (simp add: push_bit_of_nat push_bit_eq_mult mult.commute)
  have "sh_count0 ctx + ucast (push_bit 3 ?len) = of_nat (8 * ?n) + of_nat (8 * ?m)"
    unfolding c0 shift unsigned_of_nat using assms(2) by (simp add: take_bit_nat_eq_self)
  then have count0: "sh_count0 ctx + ucast (push_bit 3 ?len) = C"
    by (simp add: C_def algebra_simps)
  have "unat C = 8 * length (p @ data)"
    unfolding C_def unat_of_nat using assms(2) by simp
  moreover have "unat (push_bit 3 ?len) = 8 * ?m" unfolding shift unat_of_nat using assms(2) by simp
  ultimately have carry: "\<not> ucast C < push_bit 3 ?len"
    using assms(2) by (simp add: word_less_nat_alt unsigned_ucast_eq take_bit_nat_eq_self)
  have "unat (drop_bit 29 ?len) = 0"
    unfolding unsigned_drop_bit_eq len using assms(2) by (simp add: drop_bit_eq_div take_bit_nat_eq_self)
  then have high: "drop_bit 29 ?len = 0" by (simp only: unat_eq_0)
  have app: "absorb H0 (p @ data) = absorb (absorb H0 p) (left_over p @ data)" by (rule absorb_append)
  have lo: "length (left_over p) = ?j" "?j < 64" by (simp_all add: left_over_length)
  have read: "has_read ctx' (p @ data)" if "sh_count0 ctx' = C" "sh_count1 ctx' = 0" "length (sh_buffer ctx') = 64"
      "sh_state ctx' = absorb H0 (p @ data)" "take (length (p @ data) mod 64) (sh_buffer ctx') = left_over (p @ data)" for ctx'
    using that by (simp only: has_read_def C_def)
  show ?thesis
  proof (cases "?j + ?m > 63")
    case False
    then have "absorb H0 (p @ data) = absorb H0 p" unfolding app using lo by simp
    moreover have "left_over (p @ data) = left_over p @ data \<and> length (p @ data) mod 64 = ?j + ?m"
    proof -
      have "(?n + ?m) mod 64 = (?j + ?m) mod 64" by (simp only: mod_add_left_eq)
      also have "\<dots> = ?j + ?m" using False by simp
      finally have "(?n + ?m) mod 64 = ?j + ?m" .
      moreover have "?n + ?m - (?j + ?m) = ?n - ?j" by simp
      ultimately show ?thesis by (simp add: left_over_def)
    qed
    moreover have "fst (SHA1_Update ctx data) = \<lparr>sh_state = absorb H0 p, sh_count0 = C, sh_count1 = 0,
        sh_buffer = memcpy_at (sh_buffer ctx) ?j data\<rparr>"
      using False unfolding SHA1_Update_def Let_def j count0 by (simp add: st carry high c1)
    ultimately show ?thesis
      using False buf head lo by (intro read) (simp_all add: memcpy_length, simp add: memcpy_at_def)
  next
    case True
    let ?i = "64 - ?j"
    have le: "?i \<le> ?m" using True by linarith
    let ?blk = "memcpy_at (sh_buffer ctx) ?j (take ?i data)"
    have blk: "?blk = left_over p @ take ?i data" "length ?blk = 64"
      using True buf head lo by (simp_all add: memcpy_at_def)
    obtain st1 buf1 where t: "SHA1_Transform (absorb H0 p) ?blk = (st1, buf1)"
      by (cases "SHA1_Transform (absorb H0 p) ?blk")
    have "length (absorb H0 p) = 5" by (simp add: absorb_length H0_length)
    from transform_compress [OF this blk(2)] t have
      t': "st1 = compress_block (absorb H0 p) ?blk" "length buf1 = 64" by simp_all
    obtain data2 i2 where u: "update_loop st1 data ?i = (absorb st1 (drop ?i data), data2, i2)"
        "drop i2 data2 = left_over (drop ?i data)"
      using update_loop_absorb [of st1 ?i data] le t'(1) by auto
    have "left_over p @ data = ?blk @ drop ?i data" unfolding blk(1) by simp
    then have all: "absorb H0 (p @ data) = absorb st1 (drop ?i data)"
      unfolding app t'(1) by (simp only: absorb_block [OF blk(2)])
    have rest: "left_over (p @ data) = left_over (drop ?i data)" "length (p @ data) mod 64 = (?m - ?i) mod 64"
    proof -
      have "length (p @ data) = 64 * (?n div 64 + 1) + (?m - ?i)"
        using True lo(2) mult_div_mod_eq [of 64 ?n] by simp
      then show m: "length (p @ data) mod 64 = (?m - ?i) mod 64" by (simp only: mod_mult_self4)
      have "(?m - ?i) mod 64 \<le> ?m - ?i" by simp
      then have "drop (?n + ?m - (?m - ?i) mod 64) (p @ data) = drop (?m - ?i - (?m - ?i) mod 64) (drop ?i data)"
        using True lo(2) by simp
      with m show "left_over (p @ data) = left_over (drop ?i data)" by (simp add: left_over_def)
    qed
    have "length (left_over (drop ?i data)) < 64" by (simp add: left_over_length)
    moreover have "fst (SHA1_Update ctx data) = \<lparr>sh_state = absorb H0 (p @ data), sh_count0 = C, sh_count1 = 0,
        sh_buffer = memcpy_at buf1 0 (left_over (p @ data))\<rparr>"
      using True unfolding SHA1_Update_def Let_def j count0 by (simp add: st t u carry high c1 all rest(1))
    moreover have "length (left_over (p @ data)) \<le> 64" unfolding rest(1) by (simp add: left_over_length)
    moreover have "take (length (p @ data) mod 64) (memcpy_at buf1 0 (left_over (p @ data))) = left_over (p @ data)"
      unfolding left_over_length [of "p @ data", symmetric] by (simp add: memcpy_at_def)
    ultimately show ?thesis using t'(2) by (intro read) (simp_all add: memcpy_length)
  qed
qed

section \<open>Padding and the digest\<close>

lemma pad_loop_zeros:
  assumes "has_read ctx p" "length p + k < 2 ^ 29" "(length p + k) mod 64 = 56"
    "\<forall>j < k. (length p + j) mod 64 \<noteq> 56" "k < n"
  shows "\<exists>ctx'. pad_loop n ctx = Some ctx' \<and> has_read ctx' (p @ replicate k 0)"
  using assms
proof (induction k arbitrary: ctx p n)
  case 0
  then obtain n' where n: "n = Suc n'" by (cases n) auto
  have "\<not> sh_count0 ctx AND 504 \<noteq> 448"
    using 0(1-3) count_position(2) [of "length p"] by (simp add: has_read_def)
  then show ?case using 0(1) by (simp add: n)
next
  case (Suc k)
  then obtain n' where n: "n = Suc n'" by (cases n) auto
  have "length p mod 64 \<noteq> 56" using Suc.prems(4) by (metis add_0_right zero_less_Suc)
  then have go: "sh_count0 ctx AND 504 \<noteq> 448"
    using Suc.prems(1,2) count_position(2) [of "length p"] by (simp add: has_read_def)
  have "has_read (fst (SHA1_Update ctx [0])) (p @ [0])"
    using Suc.prems(1,2) by (intro update_has_read) simp_all
  moreover have "(length (p @ [0]) + j) mod 64 \<noteq> 56" if "j < k" for j
    using Suc.prems(4) that by (auto dest: spec [of _ "Suc j"])
  ultimately obtain ctx' where
    "pad_loop n' (fst (SHA1_Update ctx [0])) = Some ctx'" "has_read ctx' ((p @ [0]) @ replicate k 0)"
    using Suc.IH [of _ "p @ [0]" n'] Suc.prems(2,3,5) by (auto simp: n)
  then show ?case using go by (simp add: n)
qed

lemma final_count_length_bytes:
  assumes "has_read ctx p" "length p < 2 ^ 29"
  shows "final_count ctx = length_bytes (length p)"
proof -
  let ?n = "8 * length p"
  have u32: "unat (of_nat ?n :: u32) = ?n" unfolding unat_of_nat using assms(2) by simp
  have u64: "unat (of_nat ?n :: 64 word) = ?n" unfolding unat_of_nat using assms(2) by simp
  have tb: "take_bit 64 ?n = ?n" using assms(2) by (simp add: take_bit_nat_eq_self)
  have high: "ucast (drop_bit k (of_nat ?n :: 64 word)) = (0 :: u8)" if "32 \<le> k" for k
  proof -
    have "(2 :: nat) ^ 32 \<le> 2 ^ k" using that by (intro power_increasing) simp_all
    then have "?n div 2 ^ k = 0" using assms(2) by (intro div_less) simp
    then have "unat (drop_bit k (of_nat ?n :: 64 word)) = 0"
      using that unfolding unsigned_drop_bit_eq u64 by (simp add: drop_bit_eq_div tb)
    then show ?thesis by (simp add: unat_eq_0)
  qed
  have low: "ucast (drop_bit k (of_nat N :: 64 word)) = (ucast (drop_bit k (of_nat N :: u32)) :: u8)" if "k \<le> 24" for k N
    by (rule bit_word_eqI) (use that in \<open>simp add: bit_simps\<close>)
  have c: "sh_count0 ctx = of_nat ?n" "sh_count1 ctx = 0" using assms(1) by (simp_all add: has_read_def)
  have "[0..<8] = [0, 1, 2, 3, 4, 5, 6, 7 :: nat]" by (simp add: upt_rec)
  then show ?thesis
    unfolding final_count_def length_bytes_def c ucast_byte using high low [of _ ?n] low [of 0 ?n, unfolded drop_bit_0] by simp
qed

lemma state_digest_words:
  assumes "length st = 5"
  shows "state_digest st =
    concat (map (\<lambda>w. [ucast (drop_bit 24 w), ucast (drop_bit 16 w), ucast (drop_bit 8 w), ucast w]) st)"
proof -
  obtain a b c d e where st: "st = [a, b, c, d, e]"
    using assms by (auto simp: numeral_eq_Suc length_Suc_conv)
  have "[0..<20] = [0, 1, 2, 3, 4, 5, 6, 7, 8, 9, 10, 11, 12, 13, 14, 15, 16, 17, 18, 19 :: nat]"
    by (simp add: upt_rec)
  then show ?thesis unfolding state_digest_def ucast_byte st by simp
qed

lemma zeros_spec:
  "zeros n < 64" "(n + 1 + zeros n) mod 64 = 56" "\<forall>j < zeros n. (n + 1 + j) mod 64 \<noteq> 56"
proof -
  obtain q r where n: "n = 64 * q + r" "r < 64" using that [of "n div 64" "n mod 64"] by simp
  have z: "zeros n = (if r \<le> 55 then 55 - r else 119 - r)"
  proof (cases "r \<le> 55")
    case True
    then have "119 - r = 64 + (55 - r)" by simp
    then have "(119 - r) mod 64 = (55 - r) mod 64" by (simp only: mod_add_self1)
    with True n show ?thesis by (simp add: zeros_def)
  qed (use n in \<open>simp add: zeros_def\<close>)
  have m: "(n + 1 + j) mod 64 = (r + 1 + j) mod 64" for j
  proof -
    have "n + 1 + j = 64 * q + (r + 1 + j)" using n(1) by simp
    then show ?thesis by (simp only: mod_mult_self4)
  qed
  show "zeros n < 64" by (simp add: zeros_def)
  show "(n + 1 + zeros n) mod 64 = 56" unfolding m z using n(2) by (simp split: if_split)
  show "\<forall>j < zeros n. (n + 1 + j) mod 64 \<noteq> 56"
  proof (intro allI impI)
    fix j assume "j < zeros n"
    then have "r + 1 + j < 56 \<or> 57 \<le> r + 1 + j \<and> r + 1 + j < 120" unfolding z using n(2) by (auto split: if_splits)
    then show "(n + 1 + j) mod 64 \<noteq> 56" unfolding m by (cases "r + 1 + j < 64") (auto simp: le_mod_geq)
  qed
qed

lemma final_has_read:
  assumes "has_read ctx m" "length m < 2 ^ 29 - 72"
  shows "SHA1_Final ctx = Some (fips_sha1 m)"
proof -
  let ?n = "length m"
  have 1: "has_read (fst (SHA1_Update ctx [0x80])) (m @ [0x80])"
    by (rule update_has_read [OF assms(1)]) (use assms(2) in simp)
  have z: "zeros ?n < 64" "(?n + 1 + zeros ?n) mod 64 = 56" "\<forall>j < zeros ?n. (?n + 1 + j) mod 64 \<noteq> 56"
    by (rule zeros_spec)+
  then obtain ctx2 where 2: "pad_loop 65 (fst (SHA1_Update ctx [0x80])) = Some ctx2"
      "has_read ctx2 ((m @ [0x80]) @ replicate (zeros ?n) 0)"
    using pad_loop_zeros [OF 1, of "zeros ?n" 65] assms(2) by auto
  let ?all = "((m @ [0x80]) @ replicate (zeros ?n) 0) @ length_bytes ?n"
  have "has_read (fst (SHA1_Update ctx2 (length_bytes ?n))) ?all"
    by (rule update_has_read [OF 2(2)]) (use assms(2) z(1) in \<open>simp add: length_bytes_def\<close>)
  then have "sh_state (fst (SHA1_Update ctx2 (length_bytes ?n))) = absorb H0 ?all" by (simp add: has_read_def)
  moreover have "final_count ctx = length_bytes ?n"
    by (rule final_count_length_bytes [OF assms(1)]) (use assms(2) in simp)
  moreover have "length (absorb H0 ?all) = 5" by (simp add: absorb_length H0_length)
  ultimately show ?thesis
    unfolding SHA1_Final_def Let_def 2(1) fips_sha1_def by (simp add: state_digest_words)
qed

section \<open>Properties\<close>



end
