(* ===== verification/Md5.thy ===== *)
theory Md5
  imports Sha1
begin

text \<open>
  \<open>md5\<close> and \<open>sha1\<close> of \<open>lib/utils.c\<close>, on a little-endian machine.  \<open>md5\<close> copies the message to
  a zeroed buffer, adds the padding in place and runs 64 operations for each block; the reference is the
  algorithm as RFC 1321 writes it, in groups of four operations that rename the registers.
\<close>

section \<open>\<open>md5\<close>\<close>

definition LEFTROTATE :: "u32 \<Rightarrow> nat \<Rightarrow> u32" where
  "LEFTROTATE x c = push_bit c x OR drop_bit (32 - c) x"

definition md5_r :: "nat list" where
  "md5_r =
    [7, 12, 17, 22, 7, 12, 17, 22, 7, 12, 17, 22, 7, 12, 17, 22,
     5, 9, 14, 20, 5, 9, 14, 20, 5, 9, 14, 20, 5, 9, 14, 20,
     4, 11, 16, 23, 4, 11, 16, 23, 4, 11, 16, 23, 4, 11, 16, 23,
     6, 10, 15, 21, 6, 10, 15, 21, 6, 10, 15, 21, 6, 10, 15, 21]"

definition md5_k :: "u32 list" where
  "md5_k =
    [0xd76aa478, 0xe8c7b756, 0x242070db, 0xc1bdceee, 0xf57c0faf, 0x4787c62a, 0xa8304613, 0xfd469501,
     0x698098d8, 0x8b44f7af, 0xffff5bb1, 0x895cd7be, 0x6b901122, 0xfd987193, 0xa679438e, 0x49b40821,
     0xf61e2562, 0xc040b340, 0x265e5a51, 0xe9b6c7aa, 0xd62f105d, 0x02441453, 0xd8a1e681, 0xe7d3fbc8,
     0x21e1cde6, 0xc33707d6, 0xf4d50d87, 0x455a14ed, 0xa9e3e905, 0xfcefa3f8, 0x676f02d9, 0x8d2a4c8a,
     0xfffa3942, 0x8771f681, 0x6d9d6122, 0xfde5380c, 0xa4beea44, 0x4bdecfa9, 0xf6bb4b60, 0xbebfbc70,
     0x289b7ec6, 0xeaa127fa, 0xd4ef3085, 0x04881d05, 0xd9d4d039, 0xe6db99e5, 0x1fa27cf8, 0xc4ac5665,
     0xf4292244, 0x432aff97, 0xab9423a7, 0xfc93a039, 0x655b59c3, 0x8f0ccc92, 0xffeff47d, 0x85845dd1,
     0x6fa87e4f, 0xfe2ce6e0, 0xa3014314, 0x4e0811a1, 0xf7537e82, 0xbd3af235, 0x2ad7d2bb, 0xeb86d391]"

definition md5_h :: "u32 list" where
  "md5_h = [0x67452301, 0xefcdab89, 0x98badcfe, 0x10325476]"

text \<open>The distance to the next length that is 448 modulo 512.\<close>

definition to_448 :: "nat \<Rightarrow> nat" where
  "to_448 n = (if n mod 512 \<le> 448 then 448 - n mod 512 else 960 - n mod 512)"

lemma to_448_Suc: "n mod 512 \<noteq> 448 \<Longrightarrow> to_448 n = Suc (to_448 (Suc n))"
proof -
  assume n: "n mod 512 \<noteq> 448"
  have "n mod 512 < 512" by simp
  with n show ?thesis unfolding to_448_def mod_Suc by (cases "n mod 512 = 511") auto
qed

text \<open>The loop \<open>for (new_len = initial_len * 8 + 1; new_len % 512 != 448; new_len++)\<close>.\<close>

function new_len_loop :: "nat \<Rightarrow> nat" where
  "new_len_loop n = (if n mod 512 \<noteq> 448 then new_len_loop (n + 1) else n)"
  by pat_completeness auto
termination
  by (relation "measure to_448") (auto simp: to_448_Suc)

declare new_len_loop.simps [simp del]

text \<open>The buffer after the padding.\<close>

definition md5_buffer :: "u8 list \<Rightarrow> nat \<Rightarrow> u8 list" where
  "md5_buffer initial_msg new_len =
     (let msg = replicate (new_len + 64) 0;
          msg1 = memcpy_at msg 0 initial_msg;
          msg2 = msg1[length initial_msg := 128]
      in memcpy_at msg2 new_len (store_words [word_of_nat (8 * length initial_msg)]))"

definition md5_f :: "nat \<Rightarrow> u32 \<Rightarrow> u32 \<Rightarrow> u32 \<Rightarrow> u32" where
  "md5_f i b c d =
     (if i < 16 then (b AND c) OR (NOT b AND d)
      else if i < 32 then (d AND b) OR (NOT d AND c)
      else if i < 48 then b XOR c XOR d
      else c XOR (b OR NOT d))"

definition md5_g :: "nat \<Rightarrow> nat" where
  "md5_g i =
     (if i < 16 then i
      else if i < 32 then (5 * i + 1) mod 16
      else if i < 48 then (3 * i + 5) mod 16
      else (7 * i) mod 16)"

type_synonym md5_regs = "u32 \<times> u32 \<times> u32 \<times> u32"

definition md5_op :: "u32 list \<Rightarrow> nat \<Rightarrow> md5_regs \<Rightarrow> md5_regs" where
  "md5_op w i = (\<lambda>(a, b, c, d).
     (d, b + LEFTROTATE (a + md5_f i b c d + md5_k ! i + w ! md5_g i) (md5_r ! i), b, c))"

definition md5_block :: "u32 list \<Rightarrow> u32 list \<Rightarrow> u32 list" where
  "md5_block h w =
     (case fold (md5_op w) [0..<64] (h ! 0, h ! 1, h ! 2, h ! 3) of
        (a, b, c, d) \<Rightarrow> [h ! 0 + a, h ! 1 + b, h ! 2 + c, h ! 3 + d])"

text \<open>The loop over the blocks.\<close>

function md5_loop :: "u32 list \<Rightarrow> u8 list \<Rightarrow> nat \<Rightarrow> nat \<Rightarrow> u32 list" where
  "md5_loop h msg new_len offset =
     (if offset < new_len then md5_loop (md5_block h (load_words (take 64 (drop offset msg)))) msg new_len (offset + 64) else h)"
  by pat_completeness auto
termination
  by (relation "measure (\<lambda>(h, msg, new_len, offset). new_len - offset)") auto

declare md5_loop.simps [simp del]

text \<open>\<open>new_len\<close> is an \<open>int\<close>: a message for which it overflows has no result.\<close>

definition md5 :: "u8 list \<Rightarrow> cstring option" where
  "md5 initial_msg =
     (let bits = new_len_loop (length initial_msg * 8 + 1); new_len = bits div 8 in
      if bits \<ge> 2 ^ 31 then None
      else Some (concat (map hex2 (store_words (md5_loop md5_h (md5_buffer initial_msg new_len) new_len 0)))))"

section \<open>\<open>sha1\<close>\<close>

text \<open>The context is not initialised.\<close>

definition sha1 :: "u8 list \<Rightarrow> cstring \<Rightarrow> cstring option" where
  "sha1 junk s = map_option digest_to_hex (SHA1_Final (fst (SHA1_Update (SHA1_Init junk) (map byte_of s))))"

section \<open>RFC 1321\<close>

definition rfc_F :: "u32 \<Rightarrow> u32 \<Rightarrow> u32 \<Rightarrow> u32" where "rfc_F x y z = (x AND y) OR (NOT x AND z)"
definition rfc_G :: "u32 \<Rightarrow> u32 \<Rightarrow> u32 \<Rightarrow> u32" where "rfc_G x y z = (x AND z) OR (y AND NOT z)"
definition rfc_H :: "u32 \<Rightarrow> u32 \<Rightarrow> u32 \<Rightarrow> u32" where "rfc_H x y z = x XOR y XOR z"
definition rfc_I :: "u32 \<Rightarrow> u32 \<Rightarrow> u32 \<Rightarrow> u32" where "rfc_I x y z = y XOR (x OR NOT z)"

text \<open>The word of the block each of the 64 operations takes, round by round.\<close>

definition rfc_words :: "nat list" where
  "rfc_words =
    [0, 1, 2, 3, 4, 5, 6, 7, 8, 9, 10, 11, 12, 13, 14, 15,
     1, 6, 11, 0, 5, 10, 15, 4, 9, 14, 3, 8, 13, 2, 7, 12,
     5, 8, 11, 14, 1, 4, 7, 10, 13, 0, 3, 6, 9, 12, 15, 2,
     0, 7, 14, 5, 12, 3, 10, 1, 8, 15, 6, 13, 4, 11, 2, 9]"

text \<open>\<open>[abcd k s i]\<close>: \<open>a = b + ((a + F(b,c,d) + X[k] + T[i]) <<< s)\<close>; the table \<open>T\<close> of the
  standard is written out in the code.\<close>

definition rfc_op :: "(u32 \<Rightarrow> u32 \<Rightarrow> u32 \<Rightarrow> u32) \<Rightarrow> u32 list \<Rightarrow> nat \<Rightarrow> u32 \<Rightarrow> u32 \<Rightarrow> u32 \<Rightarrow> u32 \<Rightarrow> u32" where
  "rfc_op F X i a b c d =
     (let x = a + F b c d + X ! (rfc_words ! i) + md5_k ! i; s = [7, 12, 17, 22, 5, 9, 14, 20, 4, 11, 16, 23, 6, 10, 15, 21] ! (4 * (i div 16) + i mod 4)
      in b + (push_bit s x OR drop_bit (32 - s) x))"

text \<open>The group \<open>[ABCD .. i] [DABC .. i+1] [CDAB .. i+2] [BCDA .. i+3]\<close>.\<close>

definition rfc_group :: "u32 list \<Rightarrow> nat \<Rightarrow> md5_regs \<Rightarrow> md5_regs" where
  "rfc_group X q = (\<lambda>(A, B, C, D).
     let F = [rfc_F, rfc_G, rfc_H, rfc_I] ! (q div 4);
         A' = rfc_op F X (4 * q) A B C D;
         D' = rfc_op F X (4 * q + 1) D A' B C;
         C' = rfc_op F X (4 * q + 2) C D' A' B;
         B' = rfc_op F X (4 * q + 3) B C' D' A'
     in (A', B', C', D'))"

definition rfc_block :: "u32 list \<Rightarrow> u32 list \<Rightarrow> u32 list" where
  "rfc_block h X =
     (case fold (rfc_group X) [0..<16] (h ! 0, h ! 1, h ! 2, h ! 3) of
        (A, B, C, D) \<Rightarrow> [A + h ! 0, B + h ! 1, C + h ! 2, D + h ! 3])"

function rfc_blocks :: "u32 list \<Rightarrow> u8 list \<Rightarrow> u32 list" where
  "rfc_blocks h bs = (if length bs < 64 then h else rfc_blocks (rfc_block h (load_words (take 64 bs))) (drop 64 bs))"
  by pat_completeness auto
termination
  by (relation "measure (\<lambda>(h, bs). length bs)") auto

declare rfc_blocks.simps [simp del]

text \<open>The length in bits as 64 bits, low-order byte first.\<close>

definition rfc_length :: "nat \<Rightarrow> u8 list" where
  "rfc_length n = map (\<lambda>i. ucast (drop_bit (8 * i) (word_of_nat (8 * n) :: 64 word))) [0..<8]"

definition rfc_md5 :: "u8 list \<Rightarrow> u8 list" where
  "rfc_md5 msg =
     store_words (rfc_blocks md5_h (msg @ [0x80] @ replicate (zeros (length msg)) 0 @ rfc_length (length msg)))"

section \<open>Operations\<close>

lemma md5_f_rfc:
  assumes "i < 64"
  shows "md5_f i = [rfc_F, rfc_G, rfc_H, rfc_I] ! (i div 16)"
proof -
  have "(d AND b) OR (NOT d AND c) = (b AND d) OR (c AND NOT d)" for b c d :: u32
    by (simp add: ac_simps)
  moreover consider "i div 16 = 0" | "i div 16 = 1" | "i div 16 = 2" | "i div 16 = 3" using assms by linarith
  then have "(i div 16 = 0 \<and> i < 16) \<or> (i div 16 = 1 \<and> \<not> i < 16 \<and> i < 32) \<or>
      (i div 16 = 2 \<and> \<not> i < 16 \<and> \<not> i < 32 \<and> i < 48) \<or> (i div 16 = 3 \<and> \<not> i < 16 \<and> \<not> i < 32 \<and> \<not> i < 48)"
    using assms by cases linarith+
  ultimately show ?thesis
    by (elim disjE) (auto simp: md5_f_def rfc_F_def rfc_G_def rfc_H_def rfc_I_def fun_eq_iff)
qed

lemma md5_tables:
  "\<forall>i \<in> set [0..<64]. md5_g i = rfc_words ! i \<and>
    md5_r ! i = [7, 12, 17, 22, 5, 9, 14, 20, 4, 11, 16, 23, 6, 10, 15, 21] ! (4 * (i div 16) + i mod 4)"
  by code_simp

lemma md5_op_rfc:
  assumes "i < 64"
  shows "md5_op w i (a, b, c, d) = (d, rfc_op ([rfc_F, rfc_G, rfc_H, rfc_I] ! (i div 16)) w i a b c d, b, c)"
proof -
  have "md5_g i = rfc_words ! i" "md5_r ! i = [7, 12, 17, 22, 5, 9, 14, 20, 4, 11, 16, 23, 6, 10, 15, 21] ! (4 * (i div 16) + i mod 4)"
    using md5_tables assms by simp_all
  then show ?thesis
    unfolding md5_op_def rfc_op_def md5_f_rfc [OF assms] LEFTROTATE_def Let_def prod.case by (simp add: ac_simps)
qed

lemma md5_group_rfc:
  assumes "q < 16"
  shows "fold (md5_op w) [4 * q, 4 * q + 1, 4 * q + 2, 4 * q + 3] r = rfc_group w q r"
proof -
  obtain a b c d where r: "r = (a, b, c, d)" by (cases r)
  have "4 * q < 64" "4 * q + 1 < 64" "4 * q + 2 < 64" "4 * q + 3 < 64" using assms by simp_all
  note ops = this [THEN md5_op_rfc]
  have "4 * q div 16 = q div 4" "(4 * q + 1) div 16 = q div 4" "(4 * q + 2) div 16 = q div 4" "(4 * q + 3) div 16 = q div 4"
    by simp_all
  then show ?thesis unfolding r by (simp only: fold_simps ops rfc_group_def Let_def prod.case)
qed

lemma fold_groups:
  "fold f [0..<4 * n] s = fold (\<lambda>q. fold f [4 * q, 4 * q + 1, 4 * q + 2, 4 * q + 3]) [0..<n] s"
  by (induction n) (simp_all add: numeral_eq_Suc)

lemma md5_block_rfc: "md5_block h w = rfc_block h w"
proof -
  have "fold (md5_op w) [4 * q, 4 * q + 1, 4 * q + 2, 4 * q + 3] = rfc_group w q" if "q \<in> set [0..<16]" for q
    using that by (intro ext md5_group_rfc) simp
  then have "fold (\<lambda>q. fold (md5_op w) [4 * q, 4 * q + 1, 4 * q + 2, 4 * q + 3]) [0..<16] s = fold (rfc_group w) [0..<16] s" for s
    by (intro fold_cong refl)
  with fold_groups [of "md5_op w" 16] show ?thesis by (simp add: md5_block_def rfc_block_def add.commute del: upt_rec_numeral)
qed

section \<open>Padding\<close>

lemma new_len_loop_eq: "new_len_loop n = n + to_448 n"
proof (induction n rule: new_len_loop.induct)
  case (1 n)
  then show ?case by (cases "n mod 512 = 448") (simp_all add: new_len_loop.simps [of n] to_448_Suc, simp add: to_448_def)
qed

lemma new_len_zeros:
  "new_len_loop (n * 8 + 1) = 8 * (n + 1 + zeros n)" "(n + 1 + zeros n) mod 64 = 56"
proof -
  define q k where "q = n div 64" and "k = n mod 64"
  have n: "n = 64 * q + k" "k < 64" by (simp_all add: q_def k_def)
  have "(n * 8 + 1) mod 512 = (512 * q + (8 * k + 1)) mod 512" by (simp add: n(1) algebra_simps)
  also have "\<dots> = 8 * k + 1" using n(2) by simp
  finally have m: "(n * 8 + 1) mod 512 = 8 * k + 1" .
  have z: "zeros n = (if k \<le> 55 then 55 - k else 119 - k)"
  proof (cases "k \<le> 55")
    case True
    then have "119 - k = (55 - k) + 64" by simp
    then have "(119 - k) mod 64 = (55 - k) mod 64" by (simp only: mod_add_self2)
    also have "\<dots> = 55 - k" by simp
    finally show ?thesis using True by (simp add: zeros_def k_def)
  next
    case False
    then show ?thesis using n(2) by (simp add: zeros_def flip: k_def)
  qed
  have "to_448 (n * 8 + 1) = (if k \<le> 55 then 447 - 8 * k else 959 - 8 * k)" unfolding to_448_def m by auto
  then show "new_len_loop (n * 8 + 1) = 8 * (n + 1 + zeros n)"
    using n(2) by (cases "k \<le> 55") (simp_all add: new_len_loop_eq z)
  have "n + 1 + zeros n = 64 * (if k \<le> 55 then q else q + 1) + 56"
  proof (cases "k \<le> 55")
    case True
    then have "zeros n = 55 - k" using z by simp
    with True n(1) show ?thesis by simp
  next
    case False
    then have "zeros n = 119 - k" using z by simp
    with False n show ?thesis by simp
  qed
  then show "(n + 1 + zeros n) mod 64 = 56" by (simp del: mult_Suc_right)
qed

lemma small_bits: "m < 2 ^ 32 \<Longrightarrow> 32 \<le> k \<Longrightarrow> \<not> bit (m :: nat) k"
proof -
  assume "m < 2 ^ 32" "32 \<le> k"
  then have "m < 2 ^ k" by (meson less_le_trans one_le_numeral power_increasing)
  then show "\<not> bit m k" by (simp add: bit_iff_odd)
qed

lemma rfc_length_small:
  assumes "8 * n < 2 ^ 32"
  shows "rfc_length n = store_words [word_of_nat (8 * n)] @ replicate 4 0"
proof -
  define m where "m = 8 * n"
  have lo: "(ucast (drop_bit k (word_of_nat m :: 64 word)) :: u8) = ucast (drop_bit k (word_of_nat m :: u32))" if "k \<le> 24" for k
    using that by (intro bit_word_eqI) (auto simp: bit_simps)
  have hi: "(ucast (drop_bit k (word_of_nat m :: 64 word)) :: u8) = 0" if "32 \<le> k" for k
    using that small_bits [OF assms] by (intro bit_word_eqI) (simp add: bit_simps m_def del: of_nat_mult)
  have "rfc_length n = map (\<lambda>k. ucast (drop_bit k (word_of_nat m :: 64 word))) [0, 8, 16, 24, 32, 40, 48, 56]"
    unfolding rfc_length_def m_def [symmetric] by (simp add: upt_rec)
  moreover have "replicate 4 (0 :: u8) = [0, 0, 0, 0]" by (simp add: numeral_eq_Suc)
  ultimately show ?thesis
    unfolding m_def [symmetric] using lo [of 0] by (simp add: lo hi store_words_def)
qed

lemma memcpy_at_append:
  assumes "n = length a" "length b = k" "length y = k"
  shows "memcpy_at (a @ b @ c) n y = a @ y @ c"
  using assms by (simp add: memcpy_at_def)

lemma md5_buffer_padded:
  fixes msg :: "u8 list"
  defines "L \<equiv> length msg + 1 + zeros (length msg)"
  assumes "8 * length msg < 2 ^ 32"
  shows "take (L + 8) (md5_buffer msg L) = msg @ [0x80] @ replicate (zeros (length msg)) 0 @ rfc_length (length msg)"
    "length (md5_buffer msg L) = L + 64"
proof -
  let ?n = "length msg"
  let ?le = "store_words [word_of_nat (8 * ?n)]"
  have le: "length (store_words [x]) = 4" for x by (simp add: store_words_def)
  have split: "replicate (zeros ?n + 64) (0 :: u8) = replicate (zeros ?n) 0 @ replicate 4 0 @ replicate 60 0"
    by (simp add: replicate_add [symmetric])
  have "memcpy_at (replicate (L + 64) 0) 0 msg = msg @ replicate (Suc (zeros ?n + 64)) 0"
    by (simp add: memcpy_at_def L_def del: replicate_Suc)
  then have 2: "(memcpy_at (replicate (L + 64) 0) 0 msg)[?n := 128] = (msg @ [128] @ replicate (zeros ?n) 0) @ replicate 4 0 @ replicate 60 0"
    by (simp only: replicate_Suc list_update_length split) simp
  have b: "md5_buffer msg L = (msg @ [128] @ replicate (zeros ?n) 0) @ ?le @ replicate 60 0"
    unfolding md5_buffer_def Let_def 2 by (rule memcpy_at_append [OF _ _ le]) (simp_all add: L_def)
  have "replicate 60 (0 :: u8) = replicate 4 0 @ replicate 56 0"
    by (simp add: replicate_add [symmetric])
  then have "md5_buffer msg L = ((msg @ [128] @ replicate (zeros ?n) 0) @ ?le @ replicate 4 0) @ replicate 56 0"
    by (simp add: b)
  moreover have "length ((msg @ [128] @ replicate (zeros ?n) 0) @ ?le @ replicate 4 (0 :: u8)) = L + 8" by (simp add: le L_def)
  ultimately have "take (L + 8) (md5_buffer msg L) = (msg @ [128] @ replicate (zeros ?n) 0) @ ?le @ replicate 4 0"
    by (metis append_eq_conv_conj)
  then show "take (L + 8) (md5_buffer msg L) = msg @ [0x80] @ replicate (zeros ?n) 0 @ rfc_length ?n"
    using rfc_length_small [OF assms(2)] by simp
  show "length (md5_buffer msg L) = L + 64" unfolding b by (simp add: le L_def)
qed

lemma md5_loop_blocks:
  assumes "new_len mod 64 = 56" "length msg = new_len + 64" "offset mod 64 = 0" "offset \<le> new_len + 8"
  shows "md5_loop h msg new_len offset = rfc_blocks h (drop offset (take (new_len + 8) msg))"
  using assms
proof (induction h msg new_len offset rule: md5_loop.induct)
  case (1 h msg new_len offset)
  show ?case
  proof (cases "offset < new_len")
    case True
    have "offset = 64 * (offset div 64)" using 1(4) by (metis add.right_neutral mult_div_mod_eq)
    moreover have "new_len = 64 * (new_len div 64) + 56" using 1(2) by (metis mult_div_mod_eq)
    ultimately obtain a b where ab: "offset = 64 * a" "new_len = 64 * b + 56" by blast
    have le: "offset + 64 \<le> new_len + 8" using True unfolding ab by presburger
    then have tk: "take 64 (drop offset (take (new_len + 8) msg)) = take 64 (drop offset msg)"
      by (simp add: take_drop min_def)
    have "\<not> new_len + 8 - offset < 64" using le by simp
    with tk 1(1) [OF True 1(2,3) _ le] 1(3,4) True le show ?thesis
      by (simp add: md5_loop.simps [of h msg] rfc_blocks.simps [of h] md5_block_rfc mod_add_eq add.commute)
  next
    case False
    then have "new_len + 8 - offset < 64" by linarith
    with False 1(3,5) show ?thesis by (simp add: md5_loop.simps [of h msg] rfc_blocks.simps [of h])
  qed
qed

section \<open>Properties\<close>



end
