(* ===== verification/Lists.thy ===== *)
theory Lists
  imports Utils "HOL-Library.Monad_Syntax"
begin

text \<open>
  The linked lists of \<open>lib/list.c\<close> on a store of addresses: an item is a cell with a type tag, a value
  and the address of the next item, and a \<open>list_t\<close> is the address of the first, or NULL.  Freed
  memory has no cell, so that \<open>None\<close> is a read or a second \<open>free\<close> of it, or a loop that does not end.
  \<open>atof\<close> is a parameter, and \<open>'d\<close> the type of its results.
\<close>

section \<open>The store\<close>

type_synonym addr = nat

definition LIST_TYPE_ARRAY :: nat where "LIST_TYPE_ARRAY = 5"
definition LIST_TYPE_POINTER :: nat where "LIST_TYPE_POINTER = 4"
definition LIST_TYPE_DOUBLE :: nat where "LIST_TYPE_DOUBLE = 2"
definition LIST_TYPE_INT :: nat where "LIST_TYPE_INT = 1"
definition LIST_TYPE_NIL :: nat where "LIST_TYPE_NIL = 0"

lemmas list_types = LIST_TYPE_ARRAY_def LIST_TYPE_POINTER_def LIST_TYPE_DOUBLE_def LIST_TYPE_INT_def LIST_TYPE_NIL_def

text \<open>The union: which member was stored last, if any.\<close>

datatype 'd item_value = Unset | ValI int | ValD 'd | ValPtr "addr option" | ValArray "addr option"

record 'd item =
  it_type :: nat
  it_value :: "'d item_value"
  it_next :: "addr option"

text \<open>Items, strings a list points to, and the next free address.\<close>

record 'd store =
  cells :: "addr \<Rightarrow> 'd item option"
  blocks :: "addr \<Rightarrow> cstring option"
  fresh :: addr

definition set_cell :: "addr \<Rightarrow> 'd item \<Rightarrow> 'd store \<Rightarrow> 'd store" where
  "set_cell a it st = st\<lparr>cells := (cells st)(a \<mapsto> it)\<rparr>"

definition free_cell :: "addr \<Rightarrow> 'd store \<Rightarrow> 'd store option" where
  "free_cell a st = (if cells st a = None then None else Some (st\<lparr>cells := (cells st)(a := None)\<rparr>))"

definition free_block :: "addr \<Rightarrow> 'd store \<Rightarrow> 'd store option" where
  "free_block b st = (if blocks st b = None then None else Some (st\<lparr>blocks := (blocks st)(b := None)\<rparr>))"

definition strdup :: "cstring \<Rightarrow> 'd store \<Rightarrow> addr \<times> 'd store" where
  "strdup s st = (fresh st, st\<lparr>blocks := (blocks st)(fresh st \<mapsto> s), fresh := Suc (fresh st)\<rparr>)"

section \<open>Operations\<close>

definition list_item :: "nat \<Rightarrow> 'd store \<Rightarrow> addr \<times> 'd store" where
  "list_item type st =
     (fresh st, (set_cell (fresh st) \<lparr>it_type = type, it_value = Unset, it_next = None\<rparr> st)\<lparr>fresh := Suc (fresh st)\<rparr>)"

definition list_init :: "'d store \<Rightarrow> addr \<times> 'd store" where
  "list_init st =
     (fresh st, (set_cell (fresh st) \<lparr>it_type = LIST_TYPE_NIL, it_value = Unset, it_next = None\<rparr> st)\<lparr>fresh := Suc (fresh st)\<rparr>)"

partial_function (option) last_from :: "'d store \<Rightarrow> addr \<Rightarrow> addr option" where
  "last_from st p =
     Option.bind (cells st p) (\<lambda>it. case it_next it of None \<Rightarrow> Some p | Some n \<Rightarrow> last_from st n)"

definition list_last :: "'d store \<Rightarrow> addr option \<Rightarrow> addr option option" where
  "list_last st l = (case l of None \<Rightarrow> Some None | Some p \<Rightarrow> map_option Some (last_from st p))"

partial_function (option) size_from :: "'d store \<Rightarrow> addr option \<Rightarrow> int \<Rightarrow> int option" where
  "size_from st np i =
     (case np of None \<Rightarrow> Some i | Some p \<Rightarrow> Option.bind (cells st p) (\<lambda>it. size_from st (it_next it) (i + 1)))"

definition list_empty :: "'d store \<Rightarrow> addr option \<Rightarrow> bool option" where
  "list_empty st l = (case l of None \<Rightarrow> Some True | Some p \<Rightarrow> map_option (\<lambda>it. it_type it = LIST_TYPE_NIL) (cells st p))"

definition list_size :: "'d store \<Rightarrow> addr option \<Rightarrow> int option" where
  "list_size st l = do { e \<leftarrow> list_empty st l; if e then Some 0 else size_from st l 0 }"

partial_function (option) at_from :: "'d store \<Rightarrow> addr option \<Rightarrow> int \<Rightarrow> int \<Rightarrow> addr option option" where
  "at_from st np idx i =
     (case np of
        None \<Rightarrow> Some None
      | Some p \<Rightarrow> if i = idx then Some (Some p) else Option.bind (cells st p) (\<lambda>it. at_from st (it_next it) idx (i + 1)))"

definition list_at :: "'d store \<Rightarrow> addr option \<Rightarrow> int \<Rightarrow> addr option option" where
  "list_at st l idx =
     (if l = None \<or> idx < 0 then Some None
      else do { n \<leftarrow> list_size st l; if idx \<ge> n then Some None else at_from st l idx 0 })"

text \<open>\<open>list_put\<close>: a list that is a single item of type NIL is replaced.\<close>

definition list_put :: "addr option \<Rightarrow> addr \<Rightarrow> 'd store \<Rightarrow> (addr option \<times> 'd store) option" where
  "list_put l it st =
     do {
       e \<leftarrow> list_empty st l;
       (if e then do { st1 \<leftarrow> (case l of None \<Rightarrow> Some st | Some p \<Rightarrow> free_cell p st); Some (Some it, st1) }
        else do {
          last \<leftarrow> list_last st l;
          np \<leftarrow> last;
          c \<leftarrow> cells st np;
          Some (l, set_cell np (c\<lparr>it_next := Some it\<rparr>) st)
        })
     }"

definition put_item :: "addr option \<Rightarrow> nat \<Rightarrow> 'd item_value \<Rightarrow> 'd store \<Rightarrow> (addr option \<times> 'd store) option" where
  "put_item l type v st =
     (let (it, st1) = list_item type st in
      do { c \<leftarrow> cells st1 it; list_put l it (set_cell it (c\<lparr>it_value := v\<rparr>) st1) })"

definition list_put_i :: "addr option \<Rightarrow> int \<Rightarrow> 'd store \<Rightarrow> (addr option \<times> 'd store) option" where
  "list_put_i l v = put_item l LIST_TYPE_INT (ValI v)"

definition list_put_d :: "addr option \<Rightarrow> 'd \<Rightarrow> 'd store \<Rightarrow> (addr option \<times> 'd store) option" where
  "list_put_d l v = put_item l LIST_TYPE_DOUBLE (ValD v)"

definition list_put_ptr :: "addr option \<Rightarrow> addr option \<Rightarrow> 'd store \<Rightarrow> (addr option \<times> 'd store) option" where
  "list_put_ptr l v = put_item l LIST_TYPE_POINTER (ValPtr v)"

definition list_put_array :: "addr option \<Rightarrow> addr option \<Rightarrow> 'd store \<Rightarrow> (addr option \<times> 'd store) option" where
  "list_put_array l v = put_item l LIST_TYPE_ARRAY (ValArray v)"

text \<open>\<open>list_put_special\<close>; the item is allocated before the copy of a string.\<close>

definition list_put_special :: "(cstring \<Rightarrow> 'd) \<Rightarrow> addr option \<Rightarrow> cstring \<Rightarrow> 'd store \<Rightarrow> (addr option \<times> 'd store) option" where
  "list_put_special atof l str st =
     (if match_int str then list_put_i l (atoi str) st
      else if match_float str then list_put_d l (atof str) st
      else
        let (v, st1) = list_item LIST_TYPE_POINTER st; (b, st2) = strdup str st1 in
        do { c \<leftarrow> cells st2 v; list_put l v (set_cell v (c\<lparr>it_value := ValPtr (Some b)\<rparr>) st2) })"

text \<open>\<open>list_free\<close>, which follows arrays and frees what pointers point to.\<close>

partial_function (option) list_free :: "addr option \<Rightarrow> 'd store \<Rightarrow> 'd store option" where
  "list_free l st =
     (case l of
        None \<Rightarrow> Some st
      | Some cur \<Rightarrow>
          Option.bind (cells st cur) (\<lambda>it.
            Option.bind
              (if it_type it = LIST_TYPE_ARRAY then
                 (case it_value it of ValArray (Some a) \<Rightarrow> list_free (Some a) st | ValArray None \<Rightarrow> Some st | _ \<Rightarrow> None)
               else if it_type it = LIST_TYPE_POINTER then
                 (case it_value it of ValPtr (Some b) \<Rightarrow> free_block b st | ValPtr None \<Rightarrow> Some st | _ \<Rightarrow> None)
               else Some st) (\<lambda>st1.
            Option.bind (free_cell cur st1) (\<lambda>st2. list_free (it_next it) st2))))"

text \<open>\<open>list_remove\<close>, for a non-null pointer to the list.\<close>

definition list_remove :: "addr option \<Rightarrow> int \<Rightarrow> 'd store \<Rightarrow> (int \<times> addr option \<times> 'd store) option" where
  "list_remove l idx st =
     (case l of
        None \<Rightarrow> Some (0, l, st)
      | Some first \<Rightarrow>
          do {
            n \<leftarrow> list_size st l;
            (if idx < 0 \<or> idx \<ge> n then Some (0, l, st)
             else if idx = 0 then
               do {
                 it \<leftarrow> cells st first;
                 st1 \<leftarrow> list_free (Some first) (set_cell first (it\<lparr>it_next := None\<rparr>) st);
                 Some (1, it_next it, st1)
               }
             else
               do {
                 np \<leftarrow> list_at st l (idx - 1);
                 (case np of
                    None \<Rightarrow> Some (0, l, st)
                  | Some q \<Rightarrow>
                      do {
                        c \<leftarrow> cells st q;
                        (case it_next c of
                           None \<Rightarrow> Some (1, l, st)
                         | Some p \<Rightarrow>
                             do {
                               it \<leftarrow> cells st p;
                               st1 \<leftarrow> list_free (Some p) (set_cell p (it\<lparr>it_next := None\<rparr>) st);
                               c1 \<leftarrow> cells st1 q;
                               p1 \<leftarrow> it_next c1;
                               it1 \<leftarrow> cells st1 p1;
                               Some (1, l, set_cell q (c1\<lparr>it_next := it_next it1\<rparr>) st1)
                             })
                      })
               })
          })"

fun split_loop :: "(cstring \<Rightarrow> 'd) \<Rightarrow> cstring list \<Rightarrow> addr option \<Rightarrow> 'd store \<Rightarrow> (addr option \<times> 'd store) option" where
  "split_loop atof [] l st = Some (l, st)"
| "split_loop atof (token # ts) l st =
     (let tok = trim token (CHR '' '') in
      if length tok > 0 then
        do { (l1, st1) \<leftarrow> list_put_special atof l tok st; split_loop atof ts l1 st1 }
      else split_loop atof ts l st)"

definition split :: "(cstring \<Rightarrow> 'd) \<Rightarrow> cstring option \<Rightarrow> cstring option \<Rightarrow> 'd store \<Rightarrow> (addr option \<times> 'd store) option" where
  "split atof str delim st =
     (case (str, delim) of
        (Some s, Some ds) \<Rightarrow>
          let (l0, st0) = list_init st in
          do {
            (l, st1) \<leftarrow> split_loop atof (strsep_all ds s) (Some l0) st0;
            first \<leftarrow> l;
            it \<leftarrow> cells st1 first;
            (if it_type it = LIST_TYPE_NIL then do { st2 \<leftarrow> free_cell first st1; Some (None, st2) }
             else Some (l, st1))
          }
      | _ \<Rightarrow> Some (None, st))"

section \<open>The list a store holds\<close>

definition type_of :: "'d item_value \<Rightarrow> nat" where
  "type_of v =
     (case v of Unset \<Rightarrow> LIST_TYPE_NIL | ValI _ \<Rightarrow> LIST_TYPE_INT | ValD _ \<Rightarrow> LIST_TYPE_DOUBLE
      | ValPtr _ \<Rightarrow> LIST_TYPE_POINTER | ValArray _ \<Rightarrow> LIST_TYPE_ARRAY)"

text \<open>From \<open>l\<close> on, the items at \<open>as\<close> hold the values \<open>vs\<close>, each with its tag.\<close>

fun chain :: "'d store \<Rightarrow> addr option \<Rightarrow> addr list \<Rightarrow> 'd item_value list \<Rightarrow> bool" where
  "chain st l [] [] = (l = None)"
| "chain st l (a # as) (v # vs) =
     (l = Some a \<and> (case cells st a of
                     None \<Rightarrow> False
                   | Some it \<Rightarrow> it_type it = type_of v \<and> it_value it = v \<and> chain st (it_next it) as vs))"
| "chain st l as vs = False"

text \<open>The list: no items, the item \<open>list_init\<close> makes, or items none of which is of type NIL.\<close>

definition is_list :: "'d store \<Rightarrow> addr option \<Rightarrow> addr list \<Rightarrow> 'd item_value list \<Rightarrow> bool" where
  "is_list st l as vs \<longleftrightarrow> distinct as \<and> (\<forall>a \<in> set as. a < fresh st) \<and>
     (if vs = [] then chain st l as [] \<or> chain st l as [Unset] else chain st l as vs \<and> Unset \<notin> set vs)"

lemma type_of_nil [simp]: "type_of v = LIST_TYPE_NIL \<longleftrightarrow> v = Unset"
  by (cases v) (simp_all add: type_of_def list_types)

lemma chain_nil [simp]: "chain st None as vs \<longleftrightarrow> as = [] \<and> vs = []"
  by (cases "(st, None :: addr option, as, vs)" rule: chain.cases) auto

lemma chain_some:
  "chain st (Some a) as vs \<longleftrightarrow>
     (\<exists>as' v vs' it. as = a # as' \<and> vs = v # vs' \<and> cells st a = Some it \<and> it_type it = type_of v \<and> it_value it = v \<and>
        chain st (it_next it) as' vs')"
  by (cases "(st, Some a, as, vs)" rule: chain.cases) (auto split: option.splits)

lemma chain_frame:
  "(\<And>a. a \<in> set as \<Longrightarrow> cells st' a = cells st a) \<Longrightarrow> chain st' l as vs = chain st l as vs"
  by (induction st l as vs rule: chain.induct) (auto split: option.split)

lemma chain_length: "chain st l as vs \<Longrightarrow> length as = length vs"
  by (induction st l as vs rule: chain.induct) (auto split: option.splits)

lemma chain_empty: "chain st l as [] \<longleftrightarrow> l = None \<and> as = []"
  by (cases as) auto

lemma size_from_chain: "chain st l as vs \<Longrightarrow> size_from st l i = Some (i + int (length vs))"
proof (induction as arbitrary: l vs i)
  case Nil
  then show ?case by (cases vs) (simp_all add: size_from.simps)
next
  case (Cons a as)
  then obtain p where l: "l = Some p" by (cases l) auto
  with Cons show ?case by (subst size_from.simps) (auto simp: chain_some)
qed

lemma at_from_chain:
  "chain st l as vs \<Longrightarrow> k < length vs \<Longrightarrow> at_from st l (i + int k) i = Some (Some (as ! k))"
proof (induction as arbitrary: l vs i k)
  case (Cons a as)
  then obtain p where l: "l = Some p" by (cases l) auto
  show ?case
  proof (cases k)
    case (Suc j)
    obtain v vs' it where v: "p = a" "vs = v # vs'" "cells st a = Some it" "chain st (it_next it) as vs'"
      using Cons.prems(1) l by (auto simp: chain_some)
    have "at_from st (it_next it) ((i + 1) + int j) (i + 1) = Some (Some (as ! j))"
      using Cons.IH [OF v(4)] Cons.prems(2) v(2) Suc by simp
    with v l Suc show ?thesis by (subst at_from.simps) (simp add: algebra_simps)
  qed (use Cons l in \<open>subst at_from.simps, auto simp: chain_some\<close>)
qed (auto simp: chain_empty elim: chain.elims)

lemma last_from_chain:
  "chain st (Some p) as vs \<Longrightarrow>
     last_from st p = Some (last as) \<and> (\<exists>it. cells st (last as) = Some it \<and> it_next it = None)"
proof (induction as arbitrary: p vs)
  case (Cons a as)
  then obtain v vs' it where v: "p = a" "vs = v # vs'" "cells st a = Some it" "chain st (it_next it) as vs'"
    by (auto simp: chain_some)
  show ?case
  proof (cases "it_next it")
    case None
    with v show ?thesis by (simp add: last_from.simps)
  next
    case (Some q)
    with v have "as \<noteq> []" "chain st (Some q) as vs'" by (auto simp: chain_some)
    with Cons.IH v Some show ?thesis by (simp add: last_from.simps)
  qed
qed (simp add: chain_some)

lemma chain_next:
  "chain st l as vs \<Longrightarrow> distinct as \<Longrightarrow> Suc k < length vs \<Longrightarrow> \<exists>c p. cells st (as ! k) = Some c \<and> it_next c = Some p \<and> p \<noteq> as ! k"
proof (induction as arbitrary: l vs k)
  case (Cons a as)
  then obtain v vs' it where v: "vs = v # vs'" "cells st a = Some it" "chain st (it_next it) as vs'"
    by (cases l) (auto simp: chain_some)
  show ?case
  proof (cases k)
    case 0
    have "it_next it \<noteq> None" using Cons.prems(3) v 0 by (cases "it_next it") simp_all
    then obtain p where p: "it_next it = Some p" by blast
    then have "p \<in> set as" using v(3) by (auto simp: chain_some)
    then have "p \<noteq> a" using Cons.prems(2) by auto
    with p v(2) 0 show ?thesis by simp
  qed (use Cons v in simp)
next
  case Nil
  then show ?case using chain_length [OF Nil(1)] by simp
qed

text \<open>Linking a new last item.\<close>

lemma chain_link:
  assumes "chain st (Some p) as vs" "distinct as" "b \<notin> set as" "cells st (last as) = Some c"
    "cells st b = Some \<lparr>it_type = type_of w, it_value = w, it_next = None\<rparr>"
  shows "chain (set_cell (last as) (c\<lparr>it_next := Some b\<rparr>) st) (Some p) (as @ [b]) (vs @ [w])"
  using assms
proof (induction as arbitrary: p vs)
  case (Cons a as)
  then obtain v vs' it where v: "p = a" "vs = v # vs'" "cells st a = Some it" "chain st (it_next it) as vs'"
    and ty: "it_type it = type_of v" "it_value it = v"
    by (auto simp: chain_some)
  let ?st = "set_cell (last (a # as)) (c\<lparr>it_next := Some b\<rparr>) st"
  show ?case
  proof (cases "it_next it")
    case None
    with v(4) have "as = []" "vs' = []" by simp_all
    with v ty Cons.prems show ?thesis by (simp add: set_cell_def)
  next
    case (Some q)
    then have ne: "as \<noteq> []" using v(4) by (auto simp: chain_some)
    then have "a \<noteq> last as" using Cons.prems(2) by auto
    with ne v ty Cons Some show ?thesis by (simp add: set_cell_def)
  qed
qed (simp add: chain_some)

section \<open>Operations on a list\<close>

lemma is_list_cases:
  assumes "is_list st l as vs"
  obtains "vs = []" "l = None" "as = []"
  | a it where "vs = []" "l = Some a" "as = [a]" "cells st a = Some it" "it_type it = LIST_TYPE_NIL"
  | a it where "vs \<noteq> []" "l = Some a" "chain st (Some a) as vs" "Unset \<notin> set vs" "cells st a = Some it" "it_type it \<noteq> LIST_TYPE_NIL"
proof (cases "vs = []")
  case True
  then consider "chain st l as []" | "chain st l as [Unset]" using assms by (auto simp: is_list_def)
  then show thesis
  proof cases
    case 2
    then obtain a where "l = Some a" by (cases l) auto
    with 2 True that(2) show thesis by (auto simp: chain_some chain_empty)
  qed (use True that(1) chain_empty in blast)
next
  case False
  then have c: "chain st l as vs" "Unset \<notin> set vs" using assms by (auto simp: is_list_def)
  then obtain a where "l = Some a" using False by (cases l) auto
  with c False that(3) show thesis by (auto simp: chain_some)
qed

lemma list_empty_rep: "is_list st l as vs \<Longrightarrow> list_empty st l = Some (vs = [])"
  by (elim is_list_cases) (simp_all add: list_empty_def)

lemma list_size_rep: "is_list st l as vs \<Longrightarrow> list_size st l = Some (int (length vs))"
proof -
  assume l: "is_list st l as vs"
  then have "vs \<noteq> [] \<Longrightarrow> chain st l as vs" by (simp add: is_list_def)
  with list_empty_rep [OF l] show ?thesis
    by (cases "vs = []") (simp_all add: list_size_def size_from_chain)
qed

lemma list_at_rep:
  assumes "is_list st l as vs"
  shows "list_at st l i = Some (if 0 \<le> i \<and> i < int (length vs) then Some (as ! nat i) else None)"
proof (cases "0 \<le> i \<and> i < int (length vs)")
  case True
  then have "vs \<noteq> []" by auto
  then have "chain st l as vs" using assms by (simp add: is_list_def)
  moreover from this \<open>vs \<noteq> []\<close> have "l \<noteq> None" by (cases l) auto
  moreover have "nat i < length vs" using True by linarith
  ultimately show ?thesis
    using True at_from_chain [of st l as vs "nat i" 0] by (auto simp: list_at_def list_size_rep [OF assms])
next
  case False
  then show ?thesis by (auto simp: list_at_def list_size_rep [OF assms])
qed

lemma list_put_rep:
  assumes l: "is_list st l as vs" and w: "w \<noteq> Unset" and b: "b \<notin> set as" "b < fresh st"
    and c: "cells st b = Some \<lparr>it_type = type_of w, it_value = w, it_next = None\<rparr>"
  shows "\<exists>l' st'. list_put l b st = Some (l', st') \<and> is_list st' l' (if vs = [] then [b] else as @ [b]) (vs @ [w]) \<and>
    blocks st' = blocks st \<and> fresh st' = fresh st \<and> (\<forall>a. a \<notin> set as \<longrightarrow> cells st' a = cells st a) \<and>
    (vs = [] \<longrightarrow> (\<forall>a \<in> set as. cells st' a = None))"
  using l
proof (cases rule: is_list_cases)
  case 1
  with w b c list_empty_rep [OF l] show ?thesis
    by (intro exI [of _ "Some b"] exI [of _ st]) (simp add: list_put_def is_list_def)
next
  case (2 a it)
  with w b c list_empty_rep [OF l] show ?thesis
    by (intro exI [of _ "Some b"] exI [of _ "st\<lparr>cells := (cells st)(a := None)\<rparr>"])
      (simp add: list_put_def is_list_def free_cell_def)
next
  case (3 a it)
  have d: "distinct as" "\<forall>x \<in> set as. x < fresh st" using l by (simp_all add: is_list_def)
  obtain last_it where last: "last_from st a = Some (last as)" "cells st (last as) = Some last_it"
    using last_from_chain [OF 3(3)] by blast
  have "as \<noteq> []" using 3(3) by (auto simp: chain_some)
  then have "last as \<in> set as" by simp
  let ?st = "set_cell (last as) (last_it\<lparr>it_next := Some b\<rparr>) st"
  have "list_put l b st = Some (Some a, ?st)"
    using 3(1,2) last list_empty_rep [OF l] by (simp add: list_put_def list_last_def)
  moreover have "is_list ?st (Some a) (as @ [b]) (vs @ [w])"
    using chain_link [OF 3(3) d(1) b(1) last(2) c] d b w 3(1,4) by (auto simp: is_list_def set_cell_def)
  ultimately show ?thesis using 3(1) \<open>last as \<in> set as\<close> by (auto simp: set_cell_def)
qed

lemma is_list_frame:
  assumes "is_list st l as vs" "\<And>a. a \<in> set as \<Longrightarrow> cells st' a = cells st a" "fresh st \<le> fresh st'"
  shows "is_list st' l as vs"
  using assms chain_frame [of as st' st l] by (fastforce simp: is_list_def)

lemma fresh_not_in: "is_list st l as vs \<Longrightarrow> fresh st \<notin> set as"
  by (auto simp: is_list_def)

text \<open>A put of a value: the new item is at \<open>fresh st\<close>, and only items of the list change.\<close>

definition appended :: "'d store \<Rightarrow> addr list \<Rightarrow> 'd item_value list \<Rightarrow> 'd item_value \<Rightarrow> addr option \<times> 'd store \<Rightarrow> bool" where
  "appended st as vs w = (\<lambda>(l', st'). is_list st' l' (if vs = [] then [fresh st] else as @ [fresh st]) (vs @ [w]) \<and>
     (\<forall>a. a \<notin> set as \<longrightarrow> a \<noteq> fresh st \<longrightarrow> cells st' a = cells st a) \<and>
     (vs = [] \<longrightarrow> (\<forall>a \<in> set as. cells st' a = None)))"

lemma put_item_rep:
  assumes l: "is_list st l as vs" and w: "w \<noteq> Unset"
  shows "\<exists>r. put_item l (type_of w) w st = Some r \<and> appended st as vs w r \<and> blocks (snd r) = blocks st \<and> fresh (snd r) = Suc (fresh st)"
proof -
  let ?it = "\<lparr>it_type = type_of w, it_value = w, it_next = None\<rparr>"
  let ?st = "st\<lparr>fresh := Suc (fresh st), cells := (cells st)(fresh st \<mapsto> ?it)\<rparr>"
  have put: "put_item l (type_of w) w st = list_put l (fresh st) ?st"
    by (simp add: put_item_def list_item_def set_cell_def)
  have "is_list ?st l as vs"
    by (rule is_list_frame [OF l]) (use fresh_not_in [OF l] in auto)
  from list_put_rep [OF this w fresh_not_in [OF l]] show ?thesis
    unfolding put by (auto simp: set_cell_def appended_def)
qed

section \<open>Freeing\<close>


text \<open>What a list owns: its items and, through them, arrays and strings, each reached once.\<close>

inductive owns :: "'d store \<Rightarrow> addr option \<Rightarrow> addr set \<Rightarrow> addr set \<Rightarrow> bool"
  and owns_value :: "'d store \<Rightarrow> 'd item_value \<Rightarrow> addr set \<Rightarrow> addr set \<Rightarrow> bool"
  for st where
  owns_null: "owns st None {} {}"
| owns_item: "cells st a = Some it \<Longrightarrow> it_type it = type_of (it_value it) \<Longrightarrow> owns_value st (it_value it) C1 B1 \<Longrightarrow>
    owns st (it_next it) C2 B2 \<Longrightarrow> a \<notin> C1 \<union> C2 \<Longrightarrow> C1 \<inter> C2 = {} \<Longrightarrow> B1 \<inter> B2 = {} \<Longrightarrow>
    owns st (Some a) (insert a (C1 \<union> C2)) (B1 \<union> B2)"
| owns_unset: "owns_value st Unset {} {}"
| owns_int: "owns_value st (ValI i) {} {}"
| owns_double: "owns_value st (ValD d) {} {}"
| owns_no_ptr: "owns_value st (ValPtr None) {} {}"
| owns_ptr: "blocks st b \<noteq> None \<Longrightarrow> owns_value st (ValPtr (Some b)) {} {b}"
| owns_array: "owns st l C B \<Longrightarrow> owns_value st (ValArray l) C B"

definition without :: "addr set \<Rightarrow> addr set \<Rightarrow> 'd store \<Rightarrow> 'd store" where
  "without C B st = st\<lparr>cells := (\<lambda>a. if a \<in> C then None else cells st a), blocks := (\<lambda>b. if b \<in> B then None else blocks st b)\<rparr>"

lemma without_simps [simp]:
  "cells (without C B st) a = (if a \<in> C then None else cells st a)"
  "blocks (without C B st) b = (if b \<in> B then None else blocks st b)"
  "fresh (without C B st) = fresh st"
  "without {} {} st = st"
  "without C1 B1 (without C2 B2 st) = without (C1 \<union> C2) (B1 \<union> B2) st"
  by (auto simp: without_def fun_eq_iff)

lemma free_without:
  "cells st a \<noteq> None \<Longrightarrow> free_cell a st = Some (without {a} {} st)"
  "blocks st b \<noteq> None \<Longrightarrow> free_block b st = Some (without {} {b} st)"
  by (simp_all add: free_cell_def free_block_def without_def fun_upd_def if_distrib cong: if_cong)

text \<open>The part of \<open>list_free\<close> that frees the value of an item.\<close>

definition free_value :: "'d item_value \<Rightarrow> 'd store \<Rightarrow> 'd store option" where
  "free_value v st =
     (case v of
        ValArray (Some a) \<Rightarrow> list_free (Some a) st
      | ValPtr (Some b) \<Rightarrow> free_block b st
      | _ \<Rightarrow> Some st)"

lemma list_free_item:
  assumes "cells st a = Some it" "it_type it = type_of (it_value it)"
  shows "list_free (Some a) st =
    Option.bind (free_value (it_value it) st) (\<lambda>st1. Option.bind (free_cell a st1) (list_free (it_next it)))"
  using assms by (subst list_free.simps) (simp add: free_value_def type_of_def list_types split: item_value.split option.split)

definition agree :: "addr set \<Rightarrow> addr set \<Rightarrow> 'd store \<Rightarrow> 'd store \<Rightarrow> bool" where
  "agree C B st st' \<longleftrightarrow> (\<forall>a \<in> C. cells st' a = cells st a) \<and> (\<forall>b \<in> B. blocks st' b = blocks st b)"

lemma agree_refl: "agree C B st st"
  by (simp add: agree_def)

lemma free_exact:
  "owns st l C B \<Longrightarrow> \<forall>st'. agree C B st st' \<longrightarrow> list_free l st' = Some (without C B st')"
  "owns_value st v C B \<Longrightarrow> \<forall>st'. agree C B st st' \<longrightarrow> free_value v st' = Some (without C B st')"
proof (induction rule: owns_owns_value.inducts)
  case (owns_item a it C1 B1 C2 B2)
  show ?case
  proof (intro allI impI)
    fix st' assume st': "agree (insert a (C1 \<union> C2)) (B1 \<union> B2) st st'"
    have "free_value (it_value it) st' = Some (without C1 B1 st')"
      using owns_item.IH st' by (simp add: agree_def)
    moreover have "cells (without C1 B1 st') a \<noteq> None" using owns_item st' by (simp add: agree_def)
    then have "free_cell a (without C1 B1 st') = Some (without (insert a C1) B1 st')" by (simp add: free_without)
    moreover have "agree C2 B2 st (without (insert a C1) B1 st')"
      using owns_item.hyps st' by (auto simp: agree_def)
    then have "list_free (it_next it) (without (insert a C1) B1 st') = Some (without C2 B2 (without (insert a C1) B1 st'))"
      using owns_item.IH by blast
    moreover have "cells st' a = Some it" "it_type it = type_of (it_value it)" using owns_item st' by (simp_all add: agree_def)
    ultimately show "list_free (Some a) st' = Some (without (insert a (C1 \<union> C2)) (B1 \<union> B2) st')"
      by (simp add: list_free_item Un_commute Un_left_commute)
  qed
next
  case (owns_ptr b)
  then show ?case by (auto simp: free_value_def free_without agree_def)
next
  case (owns_array l C B)
  then show ?case by (auto simp: free_value_def list_free.simps [of None] split: option.split)
qed (simp_all add: list_free.simps free_value_def)

section \<open>Removing\<close>

lemma list_free_shrinks:
  assumes "list_free l st = Some st'"
  shows "\<forall>a. cells st' a = None \<or> cells st' a = cells st a"
proof (rule list_free.raw_induct [OF _ assms, of "\<lambda>l st st'. \<forall>a. cells st' a = None \<or> cells st' a = cells st a"], goal_cases)
  case (1 free l st st')
  note IH = 1(1) and st' = 1(2)
  show ?case
  proof (cases l)
    case None
    with st' show ?thesis by simp
  next
    case (Some p)
    with st' obtain it where it: "cells st p = Some it" by (cases "cells st p") auto
    define fv where "fv = (if it_type it = LIST_TYPE_ARRAY then
        (case it_value it of ValArray (Some a) \<Rightarrow> free (Some a) st | ValArray None \<Rightarrow> Some st | _ \<Rightarrow> None)
      else if it_type it = LIST_TYPE_POINTER then
        (case it_value it of ValPtr (Some b) \<Rightarrow> free_block b st | ValPtr None \<Rightarrow> Some st | _ \<Rightarrow> None)
      else Some st)"
    from st' Some it obtain st1 st2 where fv: "fv = Some st1" and st2: "free_cell p st1 = Some st2" "free (it_next it) st2 = Some st'"
      by (auto simp: bind_eq_Some_conv fv_def)
    from fv have st1: "st1 = st \<or> (\<exists>x. free (Some x) st = Some st1) \<or> (\<exists>b. free_block b st = Some st1)"
      unfolding fv_def by (auto split: if_splits item_value.splits option.splits)
    have "cells st1 a = None \<or> cells st1 a = cells st a" for a
      using st1 IH by (auto simp: free_block_def split: if_splits)
    moreover have "cells st2 a = None \<or> cells st2 a = cells st1 a" for a
      using st2(1) by (auto simp: free_cell_def split: if_splits)
    ultimately show ?thesis using IH [OF st2(2)] by metis
  qed
qed

lemma list_free_frees:
  assumes "cells st p = Some it" "it_next it = None" "list_free (Some p) st = Some st'"
  shows "cells st' p = None"
  using assms
  by (subst (asm) list_free.simps) (auto simp: bind_eq_Some_conv free_cell_def list_free.simps [of None] split: if_splits)

lemma list_remove_freed:
  assumes l: "is_list st l as vs" and i: "0 < i" "i < int (length vs)"
  shows "list_remove l i st = None"
proof -
  have ne: "vs \<noteq> []" using i by auto
  then have ch: "chain st l as vs" "distinct as" using l by (simp_all add: is_list_def)
  with ne have lne: "l \<noteq> None" by (cases l) auto
  let ?q = "as ! nat (i - 1)"
  have q: "list_at st l (i - 1) = Some (Some ?q)" using i by (simp add: list_at_rep [OF l])
  have "list_remove l i st = None" if c: "cells st ?q = Some c" and p: "it_next c = Some p" "p \<noteq> ?q" for c p
  proof (cases "cells st p")
    case (Some it)
    let ?st = "set_cell p (it\<lparr>it_next := None\<rparr>) st"
    have "list_free (Some p) ?st = None \<or>
      (\<exists>st1. list_free (Some p) ?st = Some st1 \<and> cells st1 p = None \<and> (cells st1 ?q = None \<or> cells st1 ?q = Some c))"
    proof (cases "list_free (Some p) ?st")
      case (Some st1)
      have "cells st1 p = None" using list_free_frees [OF _ _ Some] by (simp add: set_cell_def)
      moreover have "cells st1 ?q = None \<or> cells st1 ?q = Some c"
        using list_free_shrinks [OF Some] c p(2) by (auto simp: set_cell_def)
      ultimately show ?thesis using Some by simp
    qed simp
    with c p Some q i lne list_size_rep [OF l] show ?thesis by (auto simp: list_remove_def)
  qed (use c p q i lne list_size_rep [OF l] in \<open>auto simp: list_remove_def\<close>)
  moreover have "\<exists>c p. cells st ?q = Some c \<and> it_next c = Some p \<and> p \<noteq> ?q"
    using chain_next [OF ch, of "nat (i - 1)"] i by simp
  ultimately show ?thesis by blast
qed

lemma list_remove_first:
  assumes l: "is_list st l as (v # vs)" and own: "owns_value st v C B" "C \<inter> set as = {}"
  shows "\<exists>l' st'. list_remove l 0 st = Some (1, l', st') \<and> is_list st' l' (tl as) vs \<and>
    (\<forall>x. cells st' x = (if x \<in> insert (hd as) C then None else cells st x)) \<and>
    (\<forall>b. blocks st' b = (if b \<in> B then None else blocks st b))"
proof -
  obtain a as' it where a: "l = Some a" "as = a # as'" "cells st a = Some it" "it_type it = type_of v" "it_value it = v"
    and tl: "chain st (it_next it) as' vs" and d: "a \<notin> set as'" "distinct as'" "\<forall>x \<in> set as'. x < fresh st" and nn: "Unset \<notin> set vs"
    using l by (cases l) (auto simp: is_list_def chain_some)
  let ?st = "set_cell a (it\<lparr>it_next := None\<rparr>) st"
  have aC: "a \<notin> C" using own(2) a(2) by auto
  have "agree C B st ?st" using aC by (auto simp: agree_def set_cell_def)
  then have "free_value v ?st = Some (without C B ?st)" using free_exact(2) [OF own(1)] by blast
  moreover have "free_cell a (without C B ?st) = Some (without (insert a C) B ?st)"
    using aC by (subst free_without) (simp_all add: set_cell_def)
  ultimately have "list_free (Some a) ?st = Some (without (insert a C) B ?st)"
    using list_free_item [of ?st a "it\<lparr>it_next := None\<rparr>"] a(4,5) by (simp add: set_cell_def list_free.simps [of None])
  then have "list_remove l 0 st = Some (1, it_next it, without (insert a C) B ?st)"
    using a list_size_rep [OF l] by (simp add: list_remove_def)
  moreover have "chain (without (insert a C) B ?st) (it_next it) as' vs"
    by (subst chain_frame [of as' _ st]) (use tl d(1) own(2) a(2) in \<open>auto simp: set_cell_def\<close>)
  then have "is_list (without (insert a C) B ?st) (it_next it) as' vs"
    using d nn by (auto simp: is_list_def set_cell_def chain_empty)
  ultimately show ?thesis using a(2) by (auto simp: set_cell_def)
qed

section \<open>\<open>split\<close>\<close>

definition tokens :: "char list \<Rightarrow> cstring \<Rightarrow> cstring list" where
  "tokens delim s = filter (\<lambda>t. t \<noteq> []) (map (\<lambda>t. trim t (CHR '' '')) (strsep_all delim s))"

definition token_value :: "(cstring \<Rightarrow> 'd) \<Rightarrow> 'd store \<Rightarrow> cstring \<Rightarrow> 'd item_value \<Rightarrow> bool" where
  "token_value atof st tok v \<longleftrightarrow>
     (if match_int tok then v = ValI (atoi tok)
      else if match_float tok then v = ValD (atof tok)
      else \<exists>b. v = ValPtr (Some b) \<and> blocks st b = Some tok)"

text \<open>The strings of a list without arrays.\<close>

definition strings :: "'d item_value list \<Rightarrow> addr list" where
  "strings vs = concat (map (\<lambda>v. case v of ValPtr (Some b) \<Rightarrow> [b] | _ \<Rightarrow> []) vs)"

lemma strings_simps [simp]: "strings [] = []" "strings (vs @ ws) = strings vs @ strings ws"
  "strings [ValI i] = []" "strings [ValD d] = []" "strings [ValPtr (Some b)] = [b]" "strings (Unset # vs) = strings vs"
  by (simp_all add: strings_def)

lemma owns_flat:
  "chain st l as vs \<Longrightarrow> distinct as \<Longrightarrow> \<forall>v \<in> set vs. \<forall>x. v \<noteq> ValArray x \<Longrightarrow> distinct (strings vs) \<Longrightarrow>
     \<forall>b \<in> set (strings vs). blocks st b \<noteq> None \<Longrightarrow> owns st l (set as) (set (strings vs))"
proof (induction as arbitrary: l vs)
  case Nil
  then show ?case using chain_length [OF Nil(1)] by (auto simp: owns_null elim: chain.elims)
next
  case (Cons a as)
  then obtain v vs' it where v: "l = Some a" "vs = v # vs'" "cells st a = Some it" "it_type it = type_of v" "it_value it = v"
    "chain st (it_next it) as vs'"
    by (cases l) (auto simp: chain_some)
  have s: "strings vs = strings [v] @ strings vs'" using v(2) by (simp add: strings_def)
  have "owns_value st v {} (set (strings [v]))"
  proof (cases v)
    case (ValPtr p)
    with Cons.prems(5) v(2) show ?thesis by (cases p) (auto simp: strings_def owns_no_ptr owns_ptr)
  qed (use Cons.prems(3) v(2) in \<open>auto simp: strings_def intro: owns_owns_value.intros\<close>)
  moreover have "owns st (it_next it) (set as) (set (strings vs'))"
    using Cons.IH [OF v(6)] Cons.prems v(2) s by auto
  ultimately have "owns st (Some a) (insert a ({} \<union> set as)) (set (strings [v]) \<union> set (strings vs'))"
    using Cons.prems(2,4) v s by (intro owns_item) auto
  with v(1) s show ?case by simp
qed

text \<open>The state of the loop of \<open>split\<close>: the list holds the tokens so far, and everything new in the
  store belongs to it.\<close>

definition splitting :: "(cstring \<Rightarrow> 'd) \<Rightarrow> 'd store \<Rightarrow> cstring list \<Rightarrow> addr option \<Rightarrow> 'd store \<Rightarrow> addr list \<Rightarrow> 'd item_value list \<Rightarrow> bool" where
  "splitting atof st0 toks l st as vs \<longleftrightarrow>
     (\<forall>a \<ge> fresh st0. cells st0 a = None \<and> blocks st0 a = None) \<and> as \<noteq> [] \<and>
     is_list st l as vs \<and> list_all2 (token_value atof st) toks vs \<and> distinct (strings vs) \<and>
     (\<forall>b \<in> set (strings vs). fresh st0 \<le> b \<and> b < fresh st) \<and> fresh st0 \<le> fresh st \<and>
     (\<forall>a \<in> set as. fresh st0 \<le> a) \<and> (\<forall>a. a \<notin> set as \<longrightarrow> cells st a = cells st0 a) \<and>
     (\<forall>b. b \<notin> set (strings vs) \<longrightarrow> blocks st b = blocks st0 b)"

lemma token_values_flat:
  assumes "list_all2 (token_value atof st) toks vs"
  shows "\<forall>v \<in> set vs. \<forall>x. v \<noteq> ValArray x" "\<forall>b \<in> set (strings vs). blocks st b \<noteq> None"
  using assms by (induction rule: list_all2_induct) (auto simp: token_value_def strings_def split: if_splits)

lemma token_value_frame:
  assumes "list_all2 (token_value atof st) toks vs" "\<And>b. b \<in> set (strings vs) \<Longrightarrow> blocks st' b = blocks st b"
  shows "list_all2 (token_value atof st') toks vs"
  using assms by (induction rule: list_all2_induct) (auto simp: token_value_def strings_def split: if_splits)

text \<open>One token: what \<open>list_put_special\<close> adds to the list and to the store.\<close>

definition added :: "(cstring \<Rightarrow> 'd) \<Rightarrow> 'd store \<Rightarrow> addr list \<Rightarrow> 'd item_value list \<Rightarrow> cstring \<Rightarrow> 'd item_value \<Rightarrow> addr option \<times> 'd store \<Rightarrow> bool" where
  "added atof st as vs tok v r \<longleftrightarrow> appended st as vs v r \<and> token_value atof (snd r) tok v \<and> fresh st < fresh (snd r) \<and>
     (strings [v] = [] \<and> blocks (snd r) = blocks st \<or>
      (\<exists>b. strings [v] = [b] \<and> fresh st \<le> b \<and> b < fresh (snd r) \<and> blocks (snd r) = (blocks st)(b \<mapsto> tok)))"

lemma put_special_rep:
  fixes st :: "'d store"
  assumes l: "is_list st l as vs"
  shows "\<exists>v r. list_put_special atof l tok st = Some r \<and> added atof st as vs tok v r"
proof -
  consider (int) "match_int tok" | (dbl) "\<not> match_int tok" "match_float tok" | (str) "\<not> match_int tok" "\<not> match_float tok" by blast
  then show ?thesis
  proof cases
    case int
    define v where "v = (ValI (atoi tok) :: 'd item_value)"
    have "list_put_special atof l tok st = put_item l (type_of v) v st" "v \<noteq> Unset" "strings [v] = []" "\<And>st. token_value atof st tok v"
      using int by (simp_all add: list_put_special_def list_put_i_def type_of_def v_def token_value_def)
    with put_item_rep [OF l, of v] show ?thesis by (fastforce simp: added_def)
  next
    case dbl
    define v where "v = (ValD (atof tok) :: 'd item_value)"
    have "list_put_special atof l tok st = put_item l (type_of v) v st" "v \<noteq> Unset" "strings [v] = []" "\<And>st. token_value atof st tok v"
      using dbl by (simp_all add: list_put_special_def list_put_d_def type_of_def v_def token_value_def)
    with put_item_rep [OF l, of v] show ?thesis by (fastforce simp: added_def)
  next
    case str
    let ?v = "ValPtr (Some (Suc (fresh st))) :: 'd item_value"
    let ?it = "\<lparr>it_type = type_of ?v, it_value = ?v, it_next = None\<rparr>"
    let ?st = "st\<lparr>blocks := (blocks st)(Suc (fresh st) \<mapsto> tok), fresh := Suc (Suc (fresh st)), cells := (cells st)(fresh st \<mapsto> ?it)\<rparr>"
    have put: "list_put_special atof l tok st = list_put l (fresh st) ?st"
      using str by (simp add: list_put_special_def list_item_def strdup_def set_cell_def type_of_def Let_def)
    have "is_list ?st l as vs" by (rule is_list_frame [OF l]) (use fresh_not_in [OF l] in auto)
    from list_put_rep [OF this, of ?v "fresh st"] fresh_not_in [OF l]
    obtain l' st' where "list_put l (fresh st) ?st = Some (l', st')" "is_list st' l' (if vs = [] then [fresh st] else as @ [fresh st]) (vs @ [?v])"
      "blocks st' = (blocks st)(Suc (fresh st) \<mapsto> tok)" "fresh st' = Suc (Suc (fresh st))"
      "\<forall>a. a \<notin> set as \<longrightarrow> cells st' a = cells ?st a" "vs = [] \<longrightarrow> (\<forall>a \<in> set as. cells st' a = None)"
      by auto
    then show ?thesis unfolding put using str
      by (intro exI [of _ ?v] exI [of _ "(l', st')"]) (simp add: added_def appended_def token_value_def)
  qed
qed

lemma splitting_step:
  assumes sp: "splitting atof st0 toks l st as vs" and r: "added atof st as vs tok v (l', st')"
  shows "splitting atof st0 (toks @ [tok]) l' st' (if vs = [] then [fresh st] else as @ [fresh st]) (vs @ [v])"
proof -
  let ?as = "if vs = [] then [fresh st] else as @ [fresh st]"
  have b: "fresh st \<notin> set (strings vs)" "\<And>b. fresh st \<le> b \<Longrightarrow> b \<notin> set (strings vs)" using sp by (auto simp: splitting_def)
  have "blocks st' x = blocks st x" if "x \<in> set (strings vs)" for x
    using that r b(2) by (auto simp: added_def)
  then have "list_all2 (token_value atof st') toks vs" using sp token_value_frame [of atof st toks vs st'] by (simp add: splitting_def)
  then have "list_all2 (token_value atof st') (toks @ [tok]) (vs @ [v])" using r by (simp add: added_def list_all2_appendI)
  moreover have "cells st' a = cells st0 a" if "a \<notin> set ?as" for a
  proof (cases "vs = [] \<and> a \<in> set as")
    case True
    with r have "cells st' a = None" by (auto simp: added_def appended_def)
    moreover from True sp have "cells st0 a = None" by (simp add: splitting_def)
    ultimately show ?thesis by simp
  next
    case False
    with that sp r show ?thesis by (auto simp: splitting_def added_def appended_def split: if_splits)
  qed
  moreover have "is_list st' l' ?as (vs @ [v])" using r by (simp add: added_def appended_def)
  moreover have "\<forall>a \<in> set ?as. fresh st0 \<le> a" using sp by (auto simp: splitting_def)
  moreover have "distinct (strings (vs @ [v]))" "\<forall>b \<in> set (strings (vs @ [v])). fresh st0 \<le> b \<and> b < fresh st'"
    "\<forall>b. b \<notin> set (strings (vs @ [v])) \<longrightarrow> blocks st' b = blocks st0 b"
    using sp r b by (auto simp: splitting_def added_def)
  moreover have "fresh st0 \<le> fresh st'" using sp r by (simp add: splitting_def added_def)
  moreover have "?as \<noteq> []" by simp
  ultimately show ?thesis using sp unfolding splitting_def by blast
qed

lemma split_loop_rep:
  assumes "splitting atof st0 toks l st as vs"
  shows "\<exists>l' st' as' vs'. split_loop atof ts l st = Some (l', st') \<and>
    splitting atof st0 (toks @ filter (\<lambda>t. t \<noteq> []) (map (\<lambda>t. trim t (CHR '' '')) ts)) l' st' as' vs'"
  using assms
proof (induction ts arbitrary: toks l st as vs)
  case (Cons t ts)
  let ?tok = "trim t (CHR '' '')"
  show ?case
  proof (cases "?tok = []")
    case False
    have "is_list st l as vs" using Cons.prems by (simp add: splitting_def)
    from put_special_rep [OF this, of atof ?tok] obtain v l' st' where
      p: "list_put_special atof l ?tok st = Some (l', st')" and a: "added atof st as vs ?tok v (l', st')"
      by auto
    from Cons.IH [OF splitting_step [OF Cons.prems a]] p False show ?thesis by simp
  qed (use Cons in simp)
qed auto

section \<open>Properties\<close>

definition holds_after :: "(addr option \<times> 'd store) option \<Rightarrow> 'd item_value list \<Rightarrow> bool" where
  "holds_after r vs \<longleftrightarrow> (\<exists>l' st' as'. r = Some (l', st') \<and> is_list st' l' as' vs)"

text \<open>C29. The operations of \<open>lib/list.c\<close> act on the sequence of values a list holds: \<open>list_empty\<close> and
  \<open>list_size\<close> tell its length, \<open>list_at\<close> gives the item at every index in range and NULL outside,
  a put appends one value, an index out of range removes nothing, and index 0 takes the first value off and
  frees exactly its item and what that owns; every other index reads an item after freeing it.\<close>

theorem list_refines:
  assumes l: "is_list st l as vs"
  shows "list_empty st l = Some (vs = []) \<and> list_size st l = Some (int (length vs)) \<and>
    list_at st l i = Some (if 0 \<le> i \<and> i < int (length vs) then Some (as ! nat i) else None) \<and>
    holds_after (list_put_i l n st) (vs @ [ValI n]) \<and> holds_after (list_put_d l d st) (vs @ [ValD d]) \<and>
    holds_after (list_put_ptr l p st) (vs @ [ValPtr p]) \<and> holds_after (list_put_array l p st) (vs @ [ValArray p]) \<and>
    (i < 0 \<or> int (length vs) \<le> i \<longrightarrow> list_remove l i st = Some (0, l, st)) \<and>
    (vs = v # ws \<and> owns_value st v C B \<and> C \<inter> set as = {} \<longrightarrow>
      (\<exists>l' st'. list_remove l 0 st = Some (1, l', st') \<and> is_list st' l' (tl as) ws \<and>
        (\<forall>x. cells st' x = (if x \<in> insert (hd as) C then None else cells st x)) \<and>
        (\<forall>b. blocks st' b = (if b \<in> B then None else blocks st b)))) \<and>
    (0 < i \<and> i < int (length vs) \<longrightarrow> list_remove l i st = None)"
proof (intro conjI impI)
  show "list_empty st l = Some (vs = [])" "list_size st l = Some (int (length vs))"
    "list_at st l i = Some (if 0 \<le> i \<and> i < int (length vs) then Some (as ! nat i) else None)"
    using l by (rule list_empty_rep list_size_rep list_at_rep)+
  have put: "holds_after (put_item l (type_of w) w st) (vs @ [w])" if "w \<noteq> Unset" for w
    using put_item_rep [OF l that] by (fastforce simp: appended_def holds_after_def)
  show "holds_after (list_put_i l n st) (vs @ [ValI n])" "holds_after (list_put_d l d st) (vs @ [ValD d])"
    "holds_after (list_put_ptr l p st) (vs @ [ValPtr p])" "holds_after (list_put_array l p st) (vs @ [ValArray p])"
    using put [of "ValI n"] put [of "ValD d"] put [of "ValPtr p"] put [of "ValArray p"]
    by (simp_all add: list_put_i_def list_put_d_def list_put_ptr_def list_put_array_def type_of_def)
  show "list_remove l i st = Some (0, l, st)" if "i < 0 \<or> int (length vs) \<le> i"
    using that list_size_rep [OF l] by (auto simp: list_remove_def split: option.split)
  show "\<exists>l' st'. list_remove l 0 st = Some (1, l', st') \<and> is_list st' l' (tl as) ws \<and>
        (\<forall>x. cells st' x = (if x \<in> insert (hd as) C then None else cells st x)) \<and>
        (\<forall>b. blocks st' b = (if b \<in> B then None else blocks st b))"
    if "vs = v # ws \<and> owns_value st v C B \<and> C \<inter> set as = {}"
    using list_remove_first [of st l as v ws C B] that l by simp
  show "list_remove l i st = None" if "0 < i \<and> i < int (length vs)"
    using list_remove_freed [OF l] that by simp
qed

definition demo_store :: "nat store" where
  "demo_store = \<lparr>cells = Map.empty(0 \<mapsto> \<lparr>it_type = 4, it_value = ValPtr (Some 1), it_next = Some 2\<rparr>,
     2 \<mapsto> \<lparr>it_type = 1, it_value = ValI 7, it_next = None\<rparr>), blocks = Map.empty(1 \<mapsto> ''a''), fresh = 3\<rparr>"

lemma demo_list: "is_list demo_store (Some 0) [0, 2] [ValPtr (Some 1), ValI 7]" "owns_value demo_store (ValPtr (Some 1)) {} {1}"
  by (simp_all add: is_list_def demo_store_def type_of_def list_types owns_ptr)

theorem list_refines_witness:
  "list_size demo_store (Some 0) = Some 2 \<and> list_at demo_store (Some 0) 1 = Some (Some 2) \<and> list_remove (Some 0) 5 demo_store = Some (0, Some 0, demo_store) \<and>
   (\<exists>l' st'. list_remove (Some 0) 0 demo_store = Some (1, l', st') \<and> is_list st' l' [2] [ValI 7]) \<and> list_remove (Some 0) 1 demo_store = None"
proof -
  show ?thesis
    using list_refines [OF demo_list(1), where i = 5]
      list_refines [OF demo_list(1), where i = 1 and v = "ValPtr (Some 1)" and ws = "[ValI 7]" and C = "{}" and B = "{1}"] demo_list(2)
    by auto
qed

text \<open>C30. \<open>split\<close> turns the tokens between the delimiters that are not blank into a list, integers and
  decimals as numbers and the others as copies; \<open>list_free\<close> of the result gives back every item and string
  it allocated, so nothing leaks and nothing is freed twice.\<close>

theorem split_tokens_freed:
  assumes "\<forall>a \<ge> fresh st. cells st a = None \<and> blocks st a = None"
  shows "\<exists>l st' as vs st''. split atof (Some s) (Some ds) st = Some (l, st') \<and> is_list st' l as vs \<and>
    list_all2 (token_value atof st') (tokens ds s) vs \<and> (l = None \<longleftrightarrow> tokens ds s = []) \<and>
    list_free l st' = Some st'' \<and> cells st'' = cells st \<and> blocks st'' = blocks st"
proof -
  let ?st0 = "snd (list_init st)"
  have "splitting atof st [] (Some (fresh st)) ?st0 [fresh st] []"
    using assms by (simp add: splitting_def list_init_def set_cell_def is_list_def type_of_def)
  from split_loop_rep [OF this, of "strsep_all ds s"] obtain l st' as vs where
    loop: "split_loop atof (strsep_all ds s) (Some (fresh st)) ?st0 = Some (l, st')" and sp: "splitting atof st (tokens ds s) l st' as vs"
    by (auto simp: tokens_def)
  then have l: "is_list st' l as vs" and toks: "list_all2 (token_value atof st') (tokens ds s) vs" by (simp_all add: splitting_def)
  have frame: "cells (without (set as) (set (strings vs)) st') = cells st" "blocks (without (set as) (set (strings vs)) st') = blocks st"
    using sp by (auto simp: splitting_def fun_eq_iff)
  have ne: "tokens ds s = [] \<longleftrightarrow> vs = []" using toks by (metis list_all2_Nil list_all2_Nil2)
  show ?thesis
    using l
  proof (cases rule: is_list_cases)
    case 1
    with sp show ?thesis by (simp add: splitting_def)
  next
    case (2 a it)
    then have "split atof (Some s) (Some ds) st = Some (None, without {a} {} st')"
      using loop by (simp add: split_def list_init_def Let_def free_without)
    with 2 frame ne toks show ?thesis
      by (intro exI [of _ None] exI [of _ "without {a} {} st'"] exI [of _ "[]"] exI [of _ "without {a} {} st'"])
        (simp add: is_list_def list_free.simps)
  next
    case (3 a it)
    then have "split atof (Some s) (Some ds) st = Some (l, st')"
      using loop by (simp add: split_def list_init_def Let_def)
    moreover have "distinct as" "distinct (strings vs)" using sp by (auto simp: splitting_def is_list_def)
    then have "owns st' l (set as) (set (strings vs))"
      using 3 token_values_flat [OF toks] by (intro owns_flat) auto
    then have "list_free l st' = Some (without (set as) (set (strings vs)) st')" using free_exact(1) agree_refl by blast
    ultimately show ?thesis using 3(1,2) l toks frame ne by auto
  qed
qed

definition no_store :: "nat store" where
  "no_store = \<lparr>cells = Map.empty, blocks = Map.empty, fresh = 0\<rparr>"

theorem split_tokens_freed_witness:
  "\<exists>l st' as vs st''. split length (Some ''a, 12'') (Some '','') no_store = Some (l, st') \<and> is_list st' l as vs \<and>
    list_all2 (token_value length st') (tokens '','' ''a, 12'') vs \<and> (l = None \<longleftrightarrow> tokens '','' ''a, 12'' = []) \<and>
    list_free l st' = Some st'' \<and> cells st'' = cells no_store \<and> blocks st'' = blocks no_store"
  by (rule split_tokens_freed) (simp add: no_store_def)

end
