(* ===== verification/SystemCalls.thy ===== *)
theory SystemCalls
  imports ClientIo "HOL-Library.Monad_Syntax"
begin

text \<open>
  The wrappers of \<open>lib/utils.c\<close> around system calls: \<open>guard_read\<close>, \<open>guard_write\<close>, \<open>mkdirp\<close>,
  \<open>removeAll\<close>, the \<open>stat\<close> tests, \<open>antd_request_socket\<close> and \<open>antd_listen\<close>.  What the system answers
  is an argument: a script for reads and writes, functions for \<open>stat\<close>, \<open>readdir\<close> and \<open>mkdir\<close>, a record
  for the socket calls.
\<close>

section \<open>\<open>guard_read\<close> and \<open>guard_write\<close>\<close>

text \<open>The answers of \<open>read\<close> or \<open>write\<close>, each at most the length asked for, and the bytes
  of the other end: those to come, or those it has got.  Past the script the other end is closed.\<close>

record pipe =
  answers :: "int list"
  bytes :: "u8 list"

definition next_answer :: "nat \<Rightarrow> pipe \<Rightarrow> int" where
  "next_answer len p =
     (case answers p of [] \<Rightarrow> 0 | a # _ \<Rightarrow> if a < 0 then -1 else min a (int len))"

definition sys_read_fd :: "nat \<Rightarrow> pipe \<Rightarrow> int \<times> u8 list \<times> pipe" where
  "sys_read_fd len p =
     (let a = min (next_answer len p) (int (length (bytes p)))
      in (a, take (nat a) (bytes p), p\<lparr>answers := tl (answers p), bytes := drop (nat a) (bytes p)\<rparr>))"

definition sys_write_fd :: "u8 list \<Rightarrow> pipe \<Rightarrow> int \<times> pipe" where
  "sys_write_fd buf p =
     (let a = next_answer (length buf) p
      in (a, p\<lparr>answers := tl (answers p), bytes := bytes p @ take (nat a) buf\<rparr>))"

lemma next_answer_bound: "next_answer len p \<le> int len" "-1 \<le> next_answer len p"
  by (auto simp: next_answer_def split: list.split)

lemma sys_read_fd_len:
  assumes "sys_read_fd len p = (st, got, p1)" "st \<noteq> -1" "st \<noteq> 0"
  shows "0 < length got" "int (length got) = st" "length got \<le> len" "bytes p = got @ bytes p1"
  using assms next_answer_bound [of len p] by (auto simp: sys_read_fd_def Let_def)

lemma sys_write_fd_len:
  assumes "sys_write_fd buf p = (st, p1)" "st \<noteq> -1" "st \<noteq> 0"
  shows "0 < nat st" "nat st \<le> length buf" "bytes p1 = bytes p @ take (nat st) buf"
  using assms next_answer_bound [of "length buf" p] by (auto simp: sys_write_fd_def Let_def)

text \<open>The loops, for a size below \<open>2 ^ 31\<close>; \<open>buffer\<close> is what was read so far, and \<open>n\<close> its length.\<close>

function guard_read_loop :: "nat \<Rightarrow> u8 list \<Rightarrow> pipe \<Rightarrow> int \<times> u8 list \<times> pipe" where
  "guard_read_loop sz buffer p =
     (if length buffer < sz then
        (case sys_read_fd (sz - length buffer) p of
           (st, got, p1) \<Rightarrow>
             if st = -1 then (-1, buffer, p1)
             else if st = 0 then (-1, buffer, p1)
             else guard_read_loop sz (buffer @ got) p1)
      else (int (length buffer), buffer, p))"
  by pat_completeness auto
termination
proof (relation "measure (\<lambda>(sz, buffer, p). sz - length buffer)", goal_cases)
  case (2 sz buffer p st r got p1)
  then show ?case using sys_read_fd_len(1) [of "sz - length buffer" p st got p1] by (auto intro!: diff_less_mono2)
qed simp

definition guard_read :: "nat \<Rightarrow> pipe \<Rightarrow> int \<times> u8 list \<times> pipe" where
  "guard_read sz p = guard_read_loop sz [] p"

function guard_write_loop :: "u8 list \<Rightarrow> nat \<Rightarrow> pipe \<Rightarrow> int \<times> pipe" where
  "guard_write_loop buffer n p =
     (if n < length buffer then
        (case sys_write_fd (drop n buffer) p of
           (st, p1) \<Rightarrow>
             if st = -1 then (-1, p1)
             else if st = 0 then (-1, p1)
             else guard_write_loop buffer (n + nat st) p1)
      else (int n, p))"
  by pat_completeness auto
termination
proof (relation "measure (\<lambda>(buffer, n, p). length buffer - n)", goal_cases)
  case (2 buffer n p st p1)
  then show ?case using sys_write_fd_len(1) [of "drop n buffer" p st p1] by auto
qed simp

definition guard_write :: "u8 list \<Rightarrow> pipe \<Rightarrow> int \<times> pipe" where
  "guard_write buffer p = guard_write_loop buffer 0 p"

declare guard_read_loop.simps [simp del] guard_write_loop.simps [simp del]

section \<open>Files\<close>

text \<open>\<open>stat\<close> answers the mode; \<open>S_IFDIR\<close> is one bit of the four that tell the type.\<close>

definition S_IFDIR :: u32 where "S_IFDIR = 0x4000"

definition is_dir :: "(cstring \<Rightarrow> u32 option) \<Rightarrow> cstring \<Rightarrow> int" where
  "is_dir stat f = (case stat f of None \<Rightarrow> -1 | Some mode \<Rightarrow> if mode AND S_IFDIR \<noteq> 0 then 1 else 0)"

definition is_file :: "(cstring \<Rightarrow> u32 option) \<Rightarrow> cstring \<Rightarrow> int" where
  "is_file stat f = (let st = is_dir stat f in if st = -1 then -1 else if st = 0 then 1 else 0)"

definition exist :: "(cstring \<Rightarrow> u32 option) \<Rightarrow> cstring \<Rightarrow> bool" where
  "exist stat f \<longleftrightarrow> \<not> stat f = None"

text \<open>\<open>S_ISDIR\<close> compares all four bits.\<close>

definition S_ISDIR :: "u32 \<Rightarrow> bool" where
  "S_ISDIR mode \<longleftrightarrow> mode AND 0xF000 = S_IFDIR"

text \<open>\<open>mkdir\<close>: done, an entry of that name exists, or another error.\<close>

datatype mkdir_result = MkOk | MkExists | MkError

text \<open>The loop over \<open>tmp\<close>: \<open>seen\<close> is what lies before \<open>p\<close>.\<close>

fun mkdirp_loop :: "(cstring \<Rightarrow> 'w \<Rightarrow> mkdir_result \<times> 'w) \<Rightarrow> cstring \<Rightarrow> cstring \<Rightarrow> 'w \<Rightarrow> bool \<times> 'w" where
  "mkdirp_loop mkdir seen [] w = (True, w)"
| "mkdirp_loop mkdir seen (c # cs) w =
     (if c = CHR ''/'' then
        (case mkdir seen w of
           (MkError, w1) \<Rightarrow> (False, w1)
         | (_, w1) \<Rightarrow> mkdirp_loop mkdir (seen @ [c]) cs w1)
      else mkdirp_loop mkdir (seen @ [c]) cs w)"

text \<open>\<open>mkdirp\<close>; an empty path makes it write before the start of \<open>tmp\<close>.\<close>

definition mkdirp :: "(cstring \<Rightarrow> 'w \<Rightarrow> mkdir_result \<times> 'w) \<Rightarrow> cstring \<Rightarrow> 'w \<Rightarrow> (int \<times> 'w) option" where
  "mkdirp mkdir path w =
     (if length path > BUFFLEN then Some (-1, w)
      else
        let tmp = take (BUFFLEN - 1) path in
        if tmp = [] then None
        else
          let tmp1 = (if last tmp = CHR ''/'' then butlast tmp else tmp) in
          (case mkdirp_loop mkdir (take 1 tmp1) (drop 1 tmp1) w of
             (False, w1) \<Rightarrow> Some (-1, w1)
           | (True, w1) \<Rightarrow> (case mkdir path w1 of (MkOk, w2) \<Rightarrow> Some (0, w2) | (_, w2) \<Rightarrow> Some (-1, w2))))"

text \<open>\<open>removeAll\<close>: the paths it gives to \<open>remove\<close>, in order, for a tree of at most the given depth.
  \<open>None\<close> is a descent below that depth; a cycle of symbolic links has no bound, since \<open>stat\<close> follows
  them.\<close>

fun removeAll :: "(cstring \<Rightarrow> u32 option) \<Rightarrow> (cstring \<Rightarrow> cstring list option) \<Rightarrow> nat \<Rightarrow> cstring \<Rightarrow> bool \<Rightarrow> cstring list option" where
  "removeAll stat readdir 0 path mode = None"
| "removeAll stat readdir (Suc depth) path mode =
     (case stat path of
        None \<Rightarrow> Some []
      | Some st \<Rightarrow>
          do {
            inner \<leftarrow>
              (if S_ISDIR st then
                 (case readdir path of
                    None \<Rightarrow> Some []
                  | Some names \<Rightarrow>
                      map_option concat
                        (those (map (\<lambda>d_name. removeAll stat readdir depth (path @ ''/'' @ d_name) True)
                                 (filter (\<lambda>d_name. \<not> (d_name = ''.'' \<or> d_name = ''..'')) names))))
               else Some []);
            Some (inner @ (if mode then [path] else []))
          })"

section \<open>Sockets\<close>

text \<open>What the calls answer; \<open>None\<close> or a negative number is an error.\<close>

record net =
  nt_socket :: int
  nt_aton :: "cstring \<Rightarrow> bool"
  nt_connect :: bool
  nt_bind :: bool
  nt_name :: "int option"
  nt_listen :: bool

text \<open>The result, and the descriptors that were closed.\<close>

definition antd_request_socket :: "net \<Rightarrow> cstring option \<Rightarrow> int \<times> int list" where
  "antd_request_socket os ip =
     (case ip of
        None \<Rightarrow> (-1, [])
      | Some a \<Rightarrow>
          let sockfd = nt_socket os in
          if sockfd < 0 then (-1, [])
          else if \<not> nt_aton os a then (-1, [sockfd])
          else if \<not> nt_connect os then (-1, [sockfd])
          else (sockfd, []))"

text \<open>\<open>antd_listen\<close>: the result and the port, which the system chooses when it is 0.\<close>

definition antd_listen :: "net \<Rightarrow> int \<Rightarrow> int \<times> int" where
  "antd_listen os port =
     (let httpd = nt_socket os in
      if httpd = -1 then (-1, port)
      else if \<not> nt_bind os then (-1, port)
      else if port = 0 then
        (case nt_name os of
           None \<Rightarrow> (-1, port)
         | Some p \<Rightarrow> if nt_listen os then (httpd, p) else (-1, p))
      else if nt_listen os then (httpd, port) else (-1, port))"

definition ip_from_hostname :: "(cstring \<Rightarrow> cstring list option) \<Rightarrow> cstring option \<Rightarrow> cstring option" where
  "ip_from_hostname gethostbyname hostname =
     (case hostname of
        None \<Rightarrow> None
      | Some h \<Rightarrow> (case gethostbyname h of None \<Rightarrow> None | Some [] \<Rightarrow> None | Some (a # _) \<Rightarrow> Some a))"

section \<open>Lemmas\<close>

lemma guard_read_loop_exact:
  "guard_read_loop sz buffer p = (r, buf', p') \<Longrightarrow> length buffer \<le> sz \<Longrightarrow>
     (\<exists>got. buf' = buffer @ got \<and> bytes p = got @ bytes p' \<and> length buf' \<le> sz) \<and> (r = int sz \<and> length buf' = sz \<or> r = -1)"
proof (induction sz buffer p rule: guard_read_loop.induct)
  case (1 sz buffer p)
  obtain st got p1 where rd: "sys_read_fd (sz - length buffer) p = (st, got, p1)" by (metis prod_cases3)
  show ?case
  proof (cases "length buffer < sz")
    case False
    with 1(2,3) show ?thesis by (auto simp: guard_read_loop.simps [of sz buffer])
  next
    case True
    show ?thesis
    proof (cases "st = -1 \<or> st = 0")
      case stop: True
      have "bytes p1 = bytes p" using rd stop by (auto simp: sys_read_fd_def Let_def)
      with stop True rd 1(2,3) show ?thesis by (auto simp: guard_read_loop.simps [of sz buffer])
    next
      case False
      have "guard_read_loop sz (buffer @ got) p1 = (r, buf', p')"
        using 1(2) True False rd by (simp add: guard_read_loop.simps [of sz buffer])
      with 1(1) [OF True rd [symmetric] refl] False sys_read_fd_len [OF rd] True show ?thesis by fastforce
    qed
  qed
qed

lemma guard_write_loop_exact:
  "guard_write_loop buffer n p = (r, p') \<Longrightarrow> n \<le> length buffer \<Longrightarrow>
     \<exists>m \<ge> n. m \<le> length buffer \<and> bytes p' = bytes p @ drop n (take m buffer) \<and> (r = int m \<and> m = length buffer \<or> r = -1)"
proof (induction buffer n p rule: guard_write_loop.induct)
  case (1 buffer n p)
  obtain st p1 where wr: "sys_write_fd (drop n buffer) p = (st, p1)" by fastforce
  show ?case
  proof (cases "n < length buffer")
    case False
    with 1(2,3) show ?thesis by (auto simp: guard_write_loop.simps [of buffer n])
  next
    case True
    show ?thesis
    proof (cases "st = -1 \<or> st = 0")
      case stop: True
      have "bytes p1 = bytes p" using wr stop by (auto simp: sys_write_fd_def Let_def)
      with stop True wr 1(2,3) show ?thesis by (intro exI [of _ n]) (auto simp: guard_write_loop.simps [of buffer n])
    next
      case False
      note w = sys_write_fd_len [OF wr]
      have le: "n + nat st \<le> length buffer" using w(2) False True by simp
      have "guard_write_loop buffer (n + nat st) p1 = (r, p')"
        using 1(2) True False wr by (simp add: guard_write_loop.simps [of buffer n])
      with 1(1) [OF True wr [symmetric]] False le obtain m where
        m: "m \<ge> n + nat st" "m \<le> length buffer" "bytes p' = bytes p1 @ drop (n + nat st) (take m buffer)"
          "r = int m \<and> m = length buffer \<or> r = -1"
        by auto
      have "take (nat st) (drop n buffer) @ drop (n + nat st) (take m buffer) = drop n (take m buffer)"
      proof -
        have "m - n = nat st + (m - (n + nat st))" using m(1) by simp
        then have "take (m - n) (drop n buffer) = take (nat st) (drop n buffer) @ take (m - (n + nat st)) (drop (nat st) (drop n buffer))"
          by (metis take_add)
        then show ?thesis by (simp add: drop_take add.commute)
      qed
      with m w(3) False show ?thesis by (intro exI [of _ m]) auto
    qed
  qed
qed

text \<open>What \<open>guard_write\<close> wrote is what \<open>guard_read\<close> reads, however both are cut.\<close>

lemma guard_transfer:
  assumes "guard_write buf w = (r, w')" "bytes w = []" "bytes p = bytes w' @ extra" "guard_read (length buf) p = (n, got, p')" "r \<noteq> -1"
  shows "r = int (length buf)" "n = int (length buf) \<and> got = buf \<and> bytes p' = extra \<or> n = -1 \<and> (\<exists>rest. buf = got @ rest)"
proof -
  from guard_write_loop_exact [of buf 0 w r w'] assms(1,5) have w: "r = int (length buf)" "bytes w' = bytes w @ buf"
    by (auto simp: guard_write_def)
  then show "r = int (length buf)" by simp
  from guard_read_loop_exact [of "length buf" "[]" p n got p'] assms(4)
  have g: "bytes p = got @ bytes p'" "length got \<le> length buf" "n = int (length buf) \<and> length got = length buf \<or> n = -1"
    by (auto simp: guard_read_def)
  have eq: "buf @ extra = got @ bytes p'" using g(1) assms(2,3) w(2) by simp
  have "take (length got) buf = got" using arg_cong [OF eq, of "take (length got)"] g(2) by simp
  then have "buf = got @ drop (length got) buf" by (metis append_take_drop_id)
  moreover have "got = buf \<and> bytes p' = extra" if "length got = length buf" using eq that by simp
  ultimately show "n = int (length buf) \<and> got = buf \<and> bytes p' = extra \<or> n = -1 \<and> (\<exists>rest. buf = got @ rest)"
    using g(3) by blast
qed

text \<open>An absolute path and its directories.\<close>

definition dir_path :: "cstring list \<Rightarrow> cstring" where
  "dir_path ps = concat (map (\<lambda>n. ''/'' @ n) ps)"

lemma dir_path_simps [simp]: "dir_path [] = []" "dir_path (p # ps) = CHR ''/'' # p @ dir_path ps" "dir_path (ps @ qs) = dir_path ps @ dir_path qs"
  by (simp_all add: dir_path_def)

definition path_names :: "cstring list \<Rightarrow> bool" where
  "path_names ps \<longleftrightarrow> (\<forall>n \<in> set ps. n \<noteq> [] \<and> CHR ''/'' \<notin> set n)"

text \<open>What \<open>mkdir\<close> does to the set of directories.\<close>

definition mkdir_spec :: "(cstring \<Rightarrow> cstring set \<Rightarrow> mkdir_result \<times> cstring set) \<Rightarrow> bool" where
  "mkdir_spec mkdir \<longleftrightarrow> (\<forall>ps n w. dir_path ps \<in> w \<longrightarrow>
     mkdir (dir_path (ps @ [n])) w = (if dir_path (ps @ [n]) \<in> w then (MkExists, w) else (MkOk, insert (dir_path (ps @ [n])) w)))"

lemma mkdirp_loop_name: "CHR ''/'' \<notin> set n \<Longrightarrow> mkdirp_loop mkdir seen (n @ rest) w = mkdirp_loop mkdir (seen @ n) rest w"
  by (induction n arbitrary: seen) auto

lemma atMost_image_Suc: "{f k | k. k \<le> Suc n} = insert (f 0) {f (Suc k) | k. k \<le> n}"
proof -
  have "{f k | k. k \<le> m} = f ` {..m}" for f :: "nat \<Rightarrow> 'a" and m by auto
  then show ?thesis by (simp add: atMost_Suc_eq_insert_0 image_image)
qed

lemma mkdirp_loop_creates:
  assumes "mkdir_spec mkdir" "path_names (n # ns)" "dir_path qs \<in> w"
  shows "mkdirp_loop mkdir (dir_path qs @ ''/'') (n @ dir_path ns) w = (True, w \<union> {dir_path (qs @ take k (n # ns)) | k. k \<le> length ns})"
  using assms(2,3)
proof (induction ns arbitrary: n qs w)
  case Nil
  then show ?case using mkdirp_loop_name [of n mkdir _ "[]"] by (auto simp: path_names_def)
next
  case (Cons m ns)
  let ?d = "dir_path (qs @ [n])" and ?w = "insert (dir_path (qs @ [n])) w"
  have n: "CHR ''/'' \<notin> set n" "path_names (m # ns)" using Cons.prems(1) by (simp_all add: path_names_def)
  have mk: "mkdir ?d w = (MkExists, ?w) \<or> mkdir ?d w = (MkOk, ?w)"
    using assms(1) Cons.prems(2) unfolding mkdir_spec_def by (metis insert_absorb)
  then have "mkdirp_loop mkdir (dir_path qs @ ''/'') (n @ dir_path (m # ns)) w = mkdirp_loop mkdir (?d @ ''/'') (m @ dir_path ns) ?w"
    using n(1) by (auto simp: mkdirp_loop_name)
  also have "\<dots> = (True, ?w \<union> {dir_path ((qs @ [n]) @ take k (m # ns)) | k. k \<le> length ns})"
    by (rule Cons.IH [OF n(2)]) simp
  also have "{dir_path ((qs @ [n]) @ take k (m # ns)) | k. k \<le> length ns} = {dir_path (qs @ take (Suc k) (n # m # ns)) | k. k \<le> length ns}"
    by simp
  also have "?w \<union> \<dots> = w \<union> {dir_path (qs @ take k (n # m # ns)) | k. k \<le> length (m # ns)}"
  proof -
    have "{dir_path (qs @ take k (n # m # ns)) | k. k \<le> length (m # ns)} =
        insert (dir_path (qs @ take 0 (n # m # ns))) {dir_path (qs @ take (Suc k) (n # m # ns)) | k. k \<le> length ns}"
      unfolding list.size(4) add_Suc_right add_0_right by (rule atMost_image_Suc)
    moreover have "?d \<in> {dir_path (qs @ take (Suc k) (n # m # ns)) | k. k \<le> length ns}"
      by (intro CollectI exI [of _ 0]) simp
    ultimately show ?thesis using Cons.prems(2) by auto
  qed
  finally show ?case .
qed

section \<open>Directory trees\<close>

datatype dtree = DFile | DDir "(cstring \<times> dtree) list"

fun describes :: "(cstring \<Rightarrow> u32 option) \<Rightarrow> (cstring \<Rightarrow> cstring list option) \<Rightarrow> cstring \<Rightarrow> dtree \<Rightarrow> bool" where
  "describes stat readdir p DFile \<longleftrightarrow> (\<exists>m. stat p = Some m \<and> \<not> S_ISDIR m)"
| "describes stat readdir p (DDir es) \<longleftrightarrow>
     (\<exists>m names. stat p = Some m \<and> S_ISDIR m \<and> readdir p = Some names \<and>
        filter (\<lambda>n. \<not> (n = ''.'' \<or> n = ''..'')) names = map fst es) \<and>
     (\<forall>e \<in> set es. describes stat readdir (p @ ''/'' @ fst e) (snd e))"

fun post_order :: "cstring \<Rightarrow> dtree \<Rightarrow> cstring list" where
  "post_order p DFile = [p]"
| "post_order p (DDir es) = concat (map (\<lambda>e. post_order (p @ ''/'' @ fst e) (snd e)) es) @ [p]"

fun height :: "dtree \<Rightarrow> nat" where
  "height DFile = 0"
| "height (DDir es) = Suc (foldr max (map (\<lambda>e. height (snd e)) es) 0)"

lemma foldr_max_le: "x \<in> set xs \<Longrightarrow> x \<le> foldr max xs (0 :: nat)"
  by (induction xs) auto

lemma those_Some: "(\<And>x. x \<in> set xs \<Longrightarrow> f x = Some (g x)) \<Longrightarrow> those (map f xs) = Some (map g xs)"
  by (induction xs) auto

lemma removeAll_tree:
  "describes stat readdir p t \<Longrightarrow> height t < depth \<Longrightarrow>
     removeAll stat readdir depth p mode = Some (butlast (post_order p t) @ (if mode then [p] else []))"
proof (induction t arbitrary: p depth mode)
  case DFile
  then show ?case by (cases depth) auto
next
  case (DDir es)
  obtain d where d: "depth = Suc d" using DDir.prems(2) by (cases depth) auto
  have sub: "removeAll stat readdir d (p @ ''/'' @ fst e) True = Some (post_order (p @ ''/'' @ fst e) (snd e))" if "e \<in> set es" for e
  proof -
    have "height (snd e) < d" using that d DDir.prems(2) foldr_max_le [of "height (snd e)" "map (\<lambda>e. height (snd e)) es"] by force
    moreover have "butlast (post_order q t) @ [q] = post_order q t" for q t by (cases t) simp_all
    ultimately show ?thesis using DDir.IH [of e "snd e" "p @ ''/'' @ fst e" d True] DDir.prems(1) that by (cases e) auto
  qed
  have "those (map (\<lambda>e. removeAll stat readdir d (p @ ''/'' @ fst e) True) es) = Some (map (\<lambda>e. post_order (p @ ''/'' @ fst e) (snd e)) es)"
    using sub by (rule those_Some)
  then have "those (map (\<lambda>n. removeAll stat readdir d (p @ ''/'' @ n) True) (map fst es)) = Some (map (\<lambda>e. post_order (p @ ''/'' @ fst e) (snd e)) es)"
    by (simp add: comp_def)
  with DDir.prems(1) d show ?case by auto
qed

section \<open>Properties\<close>

text \<open>C39. \<open>mkdirp\<close> creates every directory on the way to an absolute path shorter than its buffer, and no
  other; its result is 0 when the last one is new and -1, although nothing failed, when it was there.\<close>

theorem mkdirp_creates:
  assumes "mkdir_spec mkdir" "path_names ps" "ps \<noteq> []" "length (dir_path ps) < BUFFLEN" "[] \<in> w"
  shows "mkdirp mkdir (dir_path ps) w = Some (if dir_path ps \<in> w then -1 else 0, w \<union> {dir_path (take k ps) | k. k \<le> length ps})"
proof -
  obtain n ns where ps: "ps = n # ns" using assms(3) by (cases ps) auto
  have last: "last (dir_path ps) \<noteq> CHR ''/''"
  proof -
    obtain qs m where m: "ps = qs @ [m]" using assms(3) by (cases ps rule: rev_cases) auto
    with assms(2) have "m \<noteq> []" "CHR ''/'' \<notin> set m" by (simp_all add: path_names_def)
    then show ?thesis unfolding m by (simp, metis last_in_set)
  qed
  let ?w = "w \<union> {dir_path (take k ps) | k. k \<le> length ns}"
  have loop: "mkdirp_loop mkdir ''/'' (n @ dir_path ns) w = (True, ?w)"
    using mkdirp_loop_creates [OF assms(1) assms(2) [unfolded ps], of "[]" w] assms(5) ps by simp
  have w: "w \<union> {dir_path (take k ps) | k. k \<le> length ps} = insert (dir_path ps) ?w"
  proof -
    have "{dir_path (take k ps) | k. k \<le> Suc (length ns)} = insert (dir_path (take (Suc (length ns)) ps)) {dir_path (take k ps) | k. k \<le> length ns}"
      by (auto simp: le_Suc_eq)
    then show ?thesis by (simp add: ps)
  qed
  have notin: "dir_path ps \<in> ?w \<longleftrightarrow> dir_path ps \<in> w"
  proof -
    have "length (dir_path (take k ps)) < length (dir_path ps)" if "k \<le> length ns" for k
    proof -
      have "dir_path ps = dir_path (take k ps) @ dir_path (drop k ps)" by (metis append_take_drop_id dir_path_simps(3))
      moreover have "drop k ps \<noteq> []" using that ps by simp
      then have "dir_path (drop k ps) \<noteq> []" by (cases "drop k ps") auto
      ultimately show ?thesis by simp
    qed
    then show ?thesis by fastforce
  qed
  obtain qs m where m: "ps = qs @ [m]" using assms(3) by (cases ps rule: rev_cases) auto
  then have "dir_path qs \<in> ?w" using ps by (intro UnI2 CollectI exI [of _ "length qs"]) (auto simp: Cons_eq_append_conv)
  then have mk: "mkdir (dir_path ps) ?w = (if dir_path ps \<in> w then (MkExists, ?w) else (MkOk, insert (dir_path ps) ?w))"
    using assms(1) [unfolded mkdir_spec_def, rule_format, of qs ?w m] notin m by simp
  show ?thesis
  proof -
    have path: "dir_path ps \<noteq> []" "take (BUFFLEN - 1) (dir_path ps) = dir_path ps" "take 1 (dir_path ps) = ''/''" "drop 1 (dir_path ps) = n @ dir_path ns"
      using ps assms(4) by simp_all
    have "mkdirp mkdir (dir_path ps) w = (case mkdir (dir_path ps) ?w of (MkOk, w2) \<Rightarrow> Some (0, w2) | (_, w2) \<Rightarrow> Some (-1, w2))"
      using assms(4) path last loop by (simp add: mkdirp_def Let_def)
    with mk notin show ?thesis unfolding w by (auto simp: insert_absorb)
  qed
qed

definition demo_mkdir :: "cstring \<Rightarrow> cstring set \<Rightarrow> mkdir_result \<times> cstring set" where
  "demo_mkdir p w = (if p \<in> w then (MkExists, w) else (MkOk, insert p w))"

theorem mkdirp_creates_witness:
  "mkdirp demo_mkdir ''/a/b'' {[]} = Some (0, {[]} \<union> {dir_path (take k [''a'', ''b'']) | k. k \<le> 2})"
  using mkdirp_creates [of demo_mkdir "[''a'', ''b'']" "{[]}"]
  by (simp add: mkdir_spec_def demo_mkdir_def path_names_def BUFFLEN_def numeral_2_eq_2)

text \<open>C40. \<open>removeAll\<close> on a directory tree returns, and it removes each path of the tree exactly once, the
  contents of a directory before the directory itself, and the top only if it is asked to.\<close>

theorem removeAll_order:
  assumes "describes stat readdir p t" "height t < depth"
  shows "removeAll stat readdir depth p True = Some (post_order p t) \<and>
    removeAll stat readdir depth p False = Some (butlast (post_order p t)) \<and> last (post_order p t) = p"
  using removeAll_tree [OF assms, of True] removeAll_tree [OF assms, of False] by (cases t) simp_all

theorem removeAll_order_witness:
  "removeAll (\<lambda>p. Some (if p = ''d'' then S_IFDIR else 0x8000)) (\<lambda>p. Some [''.'', ''x'', ''..'', ''y'']) 2 ''d'' True = Some [''d/x'', ''d/y'', ''d'']"
proof -
  have "describes (\<lambda>p. Some (if p = ''d'' then S_IFDIR else 0x8000)) (\<lambda>p. Some [''.'', ''x'', ''..'', ''y'']) ''d'' (DDir [(''x'', DFile), (''y'', DFile)])"
    by (simp add: S_ISDIR_def S_IFDIR_def)
  from removeAll_order [OF this, of 2] show ?thesis by simp
qed

end
