(* ===== verification/Ini.thy ===== *)
theory Ini
  imports UrlCodec
begin

text \<open>
  The configuration file parser, \<open>lib/ini.c\<close>, with the settings of \<open>lib/ini.h\<close>: continuation
  lines and a byte order mark are accepted, an error does not stop the parser.  The file is its list
  of bytes; the handler is a parameter that returns its answer and the new user data.
\<close>

section \<open>Lines\<close>

definition INI_MAX_LINE :: nat where "INI_MAX_LINE = 512"
definition MAX_SECTION :: nat where "MAX_SECTION = 50"
definition MAX_NAME :: nat where "MAX_NAME = 50"

text \<open>\<open>fgets(line, n + 1, file)\<close>: a line or its first \<open>n\<close> characters, and the rest.\<close>

fun fgets :: "nat \<Rightarrow> char list \<Rightarrow> char list \<times> char list" where
  "fgets 0 s = ([], s)"
| "fgets n [] = ([], [])"
| "fgets (Suc n) (c # cs) = (if c = LF then ([c], cs) else (case fgets n cs of (l, r) \<Rightarrow> (c # l, r)))"

lemma fgets_split: "s = fst (fgets n s) @ snd (fgets n s)"
  by (induction n s rule: fgets.induct) (auto split: prod.splits)

lemma fgets_progress: "0 < n \<Longrightarrow> s \<noteq> [] \<Longrightarrow> length (snd (fgets n s)) < length s"
  using fgets_split [of s n] by (cases n; cases s) (auto split: prod.splits dest!: arg_cong [of _ _ length])

function ini_lines :: "char list \<Rightarrow> char list list" where
  "ini_lines s = (if s = [] then [] else case fgets (INI_MAX_LINE - 1) s of (l, r) \<Rightarrow> l # ini_lines r)"
  by pat_completeness auto
termination
proof (relation "measure length", goal_cases)
  case (2 s l r)
  then show ?case using fgets_progress [of "INI_MAX_LINE - 1" s] by (auto simp: INI_MAX_LINE_def dest: sym)
qed simp

declare ini_lines.simps [simp del]

section \<open>Text\<close>

definition rstrip :: "cstring \<Rightarrow> cstring" where
  "rstrip s = rev (dropWhile c_isspace (rev s))"

definition lskip :: "cstring \<Rightarrow> cstring" where
  "lskip s = dropWhile c_isspace s"

text \<open>\<open>find_char_or_comment\<close> as the text before the place it finds and the text from there on; \<open>None\<close>
  is the terminator.\<close>

fun find_char_from :: "bool \<Rightarrow> cstring \<Rightarrow> char option \<Rightarrow> cstring \<times> cstring" where
  "find_char_from ws [] c = ([], [])"
| "find_char_from ws (x # xs) c =
     (if Some x = c \<or> ws \<and> x = CHR '';'' then ([], x # xs)
      else (case find_char_from (c_isspace x) xs c of (a, b) \<Rightarrow> (x # a, b)))"

definition find_char_or_comment :: "cstring \<Rightarrow> char option \<Rightarrow> cstring \<times> cstring" where
  "find_char_or_comment s c = find_char_from False s c"

definition strncpy0 :: "cstring \<Rightarrow> nat \<Rightarrow> cstring" where
  "strncpy0 src n = take (n - 1) src"

section \<open>The parser\<close>

type_synonym 'u ini_handler = "'u \<Rightarrow> cstring \<Rightarrow> cstring \<Rightarrow> cstring \<Rightarrow> int \<times> 'u"

record 'u ini =
  ini_user :: 'u
  ini_section :: cstring
  ini_prev_name :: cstring
  ini_lineno :: int
  ini_error :: int

definition ini_fail :: "'u ini \<Rightarrow> 'u ini" where
  "ini_fail p = (if ini_error p = 0 then p\<lparr>ini_error := ini_lineno p\<rparr> else p)"

definition ini_call :: "'u ini_handler \<Rightarrow> cstring \<Rightarrow> cstring \<Rightarrow> 'u ini \<Rightarrow> 'u ini" where
  "ini_call h name val p =
     (case h (ini_user p) (ini_section p) name val of
        (ok, u) \<Rightarrow> if ok = 0 then ini_fail (p\<lparr>ini_user := u\<rparr>) else p\<lparr>ini_user := u\<rparr>)"

definition has_bom :: "cstring \<Rightarrow> bool" where
  "has_bom s \<longleftrightarrow> map code_of (take 3 s) = [0xEF, 0xBB, 0xBF]"

definition ini_line :: "'u ini_handler \<Rightarrow> 'u ini \<Rightarrow> char list \<Rightarrow> 'u ini" where
  "ini_line h p0 l =
     (let p = p0\<lparr>ini_lineno := ini_lineno p0 + 1\<rparr>;
          line = cstr l;
          bom = ini_lineno p = 1 \<and> has_bom line;
          body = rstrip (if bom then drop 3 line else line);
          start = lskip body;
          moved = bom \<or> length start < length body
      in case start of
           [] \<Rightarrow> p
         | c # cs \<Rightarrow>
             if c = CHR '';'' \<or> c = CHR ''#'' then p
             else if ini_prev_name p \<noteq> [] \<and> moved then ini_call h (ini_prev_name p) start p
             else if c = CHR ''['' then
               (case find_char_or_comment cs (Some CHR '']'') of
                  (sec, e) \<Rightarrow>
                    if e \<noteq> [] \<and> hd e = CHR '']''
                    then p\<lparr>ini_section := strncpy0 sec MAX_SECTION, ini_prev_name := []\<rparr>
                    else ini_fail p)
             else
               (case (case find_char_or_comment start (Some CHR ''='') of
                        (n, e) \<Rightarrow> if e \<noteq> [] \<and> hd e = CHR ''='' then (n, e)
                                  else find_char_or_comment start (Some CHR '':'')) of
                  (n, e) \<Rightarrow>
                    if e \<noteq> [] \<and> (hd e = CHR ''='' \<or> hd e = CHR '':'') then
                      let name = rstrip n;
                          val = lskip (tl e);
                          val' = rstrip (fst (find_char_or_comment val None))
                      in ini_call h name val' (p\<lparr>ini_prev_name := strncpy0 name MAX_NAME\<rparr>)
                    else ini_fail p))"

definition ini_parse_file :: "char list \<Rightarrow> 'u ini_handler \<Rightarrow> 'u \<Rightarrow> int \<times> 'u" where
  "ini_parse_file text h u =
     (let p = foldl (ini_line h) \<lparr>ini_user = u, ini_section = [], ini_prev_name = [], ini_lineno = 0, ini_error = 0\<rparr>
            (ini_lines text)
      in (ini_error p, ini_user p))"

text \<open>The file is \<open>None\<close> when it cannot be opened.\<close>

definition ini_parse :: "char list option \<Rightarrow> 'u ini_handler \<Rightarrow> 'u \<Rightarrow> int \<times> 'u" where
  "ini_parse content h u = (case content of None \<Rightarrow> (-1, u) | Some text \<Rightarrow> ini_parse_file text h u)"

section \<open>Lemmas\<close>

lemma fgets_line: "LF \<notin> set m \<Longrightarrow> length m < n \<Longrightarrow> fgets n (m @ LF # r) = (m @ [LF], r)"
proof (induction m arbitrary: n)
  case Nil
  then show ?case by (cases n) auto
next
  case (Cons c m)
  then show ?case by (cases n) auto
qed

definition file_line :: "char list \<Rightarrow> bool" where
  "file_line l \<longleftrightarrow> (\<exists>m. l = m @ [LF] \<and> LF \<notin> set m \<and> length m + 1 < INI_MAX_LINE)"

lemma ini_lines_concat: "\<forall>l \<in> set ls. file_line l \<Longrightarrow> ini_lines (concat ls) = ls"
proof (induction ls)
  case (Cons l ls)
  then obtain m where m: "l = m @ [LF]" "LF \<notin> set m" "length m + 1 < INI_MAX_LINE" by (auto simp: file_line_def)
  with fgets_line [of m "INI_MAX_LINE - 1" "concat ls"] Cons show ?case
    by (simp add: ini_lines.simps [of "m @ _"])
qed (simp add: ini_lines.simps)

lemma rstrip_keep: "\<not> c_isspace c \<Longrightarrow> rstrip (a @ c # b) = a @ c # rstrip b"
  by (simp add: rstrip_def dropWhile_append)

lemma rstrip_end: "\<not> c_isspace c \<Longrightarrow> rstrip (a @ [c]) = a @ [c]"
  by (simp add: rstrip_def)

lemma rstrip_id: "s = [] \<or> \<not> c_isspace (last s) \<Longrightarrow> rstrip s = s"
  by (cases s rule: rev_cases) (auto simp: rstrip_def)

lemma rstrip_space: "c_isspace c \<Longrightarrow> rstrip (s @ [c]) = rstrip s"
  by (simp add: rstrip_def)

lemma lskip_id: "s = [] \<or> \<not> c_isspace (hd s) \<Longrightarrow> lskip s = s"
  by (cases s) (auto simp: lskip_def)

lemma find_char_here:
  "x \<notin> set a \<Longrightarrow> CHR '';'' \<notin> set a \<Longrightarrow> find_char_from ws (a @ x # r) (Some x) = (a, x # r)"
  by (induction a arbitrary: ws) auto

lemma find_char_end: "CHR '';'' \<notin> set a \<Longrightarrow> find_char_from ws a None = (a, [])"
  by (induction a arbitrary: ws) auto

lemma find_char_comment:
  "CHR '';'' \<notin> set a \<Longrightarrow> find_char_from ws (a @ SP # CHR '';'' # t) None = (a @ [SP], CHR '';'' # t)"
  by (induction a arbitrary: ws) (auto simp: c_isspace_def code_of_def)

section \<open>A file as it is written\<close>

type_synonym entry = "cstring \<times> cstring \<times> cstring option"

definition entry_text :: "entry \<Rightarrow> cstring" where
  "entry_text e = (case e of (k, v, c) \<Rightarrow>
     k @ '' = '' @ v @ (case c of None \<Rightarrow> [] | Some t \<Rightarrow> '' ;'' @ t) @ [LF])"

definition section_line :: "cstring \<Rightarrow> cstring" where
  "section_line s = CHR ''['' # s @ CHR '']'' # [LF]"

definition section_text :: "cstring \<times> entry list \<Rightarrow> cstring list" where
  "section_text se = section_line (fst se) # map entry_text (snd se)"

definition plain_text :: "cstring \<Rightarrow> bool" where
  "plain_text t \<longleftrightarrow> set t \<inter> {NUL, LF, CHR '';''} = {} \<and> (t = [] \<or> \<not> c_isspace (hd t) \<and> \<not> c_isspace (last t))"

definition good_entry :: "entry \<Rightarrow> bool" where
  "good_entry e = (case e of (k, v, c) \<Rightarrow>
     plain_text k \<and> k \<noteq> [] \<and> CHR ''='' \<notin> set k \<and> hd k \<notin> {CHR ''['', CHR ''#''} \<and> plain_text v \<and>
     (case c of None \<Rightarrow> True | Some t \<Rightarrow> v \<noteq> [] \<and> set t \<inter> {NUL, LF} = {}) \<and> length (entry_text e) < INI_MAX_LINE)"

definition good_section :: "cstring \<Rightarrow> bool" where
  "good_section s \<longleftrightarrow> set s \<inter> {NUL, LF, CHR '']'', CHR '';''} = {} \<and> length s < MAX_SECTION"

lemma spaces [simp]: "c_isspace SP" "c_isspace LF" "\<not> c_isspace (CHR ''='')" "\<not> c_isspace (CHR ''['')" "\<not> c_isspace (CHR '']'')"
    "\<not> c_isspace (CHR '';'')" "\<not> c_isspace (CHR ''#'')" 
  by (simp_all add: c_isspace_def code_of_def)

lemma section_line_ok:
  assumes "good_section s"
  shows "ini_line h p (section_line s) = p\<lparr>ini_lineno := ini_lineno p + 1, ini_section := s, ini_prev_name := []\<rparr>"
proof -
  have "cstr (section_line s) = section_line s"
    using assms by (intro cstr_id) (auto simp: is_cstr_def section_line_def good_section_def)
  moreover have "\<not> has_bom (section_line s)" by (simp add: has_bom_def section_line_def code_of_def)
  moreover have "rstrip (section_line s) = CHR ''['' # s @ [CHR '']'']"
    using rstrip_space [of LF "CHR ''['' # s @ [CHR '']'']"] rstrip_end [of "CHR '']''" "CHR ''['' # s"]
    by (simp add: section_line_def)
  moreover have "find_char_or_comment (s @ [CHR '']'']) (Some CHR '']'') = (s, [CHR '']''])"
    unfolding find_char_or_comment_def by (rule find_char_here) (use assms in \<open>auto simp: good_section_def\<close>)
  ultimately show ?thesis
    using assms by (simp add: ini_line_def Let_def lskip_id strncpy0_def good_section_def MAX_SECTION_def)
qed

text \<open>What is left of the text behind the equals sign.\<close>

lemma value_text:
  assumes "plain_text v" "case c of None \<Rightarrow> True | Some t \<Rightarrow> v \<noteq> []"
  shows "rstrip (fst (find_char_or_comment (lskip (rstrip (SP # v @ (case c of None \<Rightarrow> [] | Some t \<Rightarrow> '' ;'' @ t) @ [LF]))) None)) = v"
proof (cases c)
  case None
  show ?thesis
  proof (cases "v = []")
    case True
    with None show ?thesis by (simp add: rstrip_def lskip_def find_char_or_comment_def)
  next
    case False
    with assms(1) have v: "rstrip v = v" "rstrip (SP # v) = SP # v" "lskip v = v" "CHR '';'' \<notin> set v"
      by (auto simp: plain_text_def intro!: rstrip_id lskip_id)
    have "lskip (SP # v) = v" using v(3) by (simp add: lskip_def)
    with None v rstrip_space [of LF "SP # v"] show ?thesis by (simp add: find_char_or_comment_def find_char_end)
  qed
next
  case (Some t)
  with assms have v: "rstrip v = v" "lskip (v @ x) = v @ x" "CHR '';'' \<notin> set v" for x
    by (auto simp: plain_text_def hd_append intro!: rstrip_id lskip_id)
  have "rstrip (SP # v @ '' ;'' @ t @ [LF]) = SP # v @ SP # CHR '';'' # rstrip (t @ [LF])"
    using rstrip_keep [of "CHR '';''" "SP # v @ [SP]" "t @ [LF]"] by simp
  moreover have "lskip (SP # v @ x) = v @ x" for x using v(2) [of x] by (simp add: lskip_def)
  moreover have "rstrip (v @ [SP]) = v" using v(1) rstrip_space [of SP v] by simp
  ultimately show ?thesis using Some v(3) by (simp add: find_char_or_comment_def find_char_comment)
qed

lemma entry_line_ok:
  assumes "good_entry (k, v, c)" "ini_lineno p \<noteq> 0"
  shows "ini_line h p (entry_text (k, v, c)) =
    ini_call h k v (p\<lparr>ini_lineno := ini_lineno p + 1, ini_prev_name := strncpy0 k MAX_NAME\<rparr>)"
proof -
  let ?rest = "SP # v @ (case c of None \<Rightarrow> [] | Some t \<Rightarrow> '' ;'' @ t) @ [LF]"
  have k: "plain_text k" "k \<noteq> []" "CHR ''='' \<notin> set k" "hd k \<noteq> CHR ''[''" "hd k \<noteq> CHR ''#''" "CHR '';'' \<notin> set k"
    using assms(1) by (auto simp: good_entry_def plain_text_def)
  obtain x xs where kx: "k = x # xs" using k(2) by (cases k) auto
  have v: "plain_text v" "case c of None \<Rightarrow> True | Some t \<Rightarrow> v \<noteq> []"
    using assms(1) by (auto simp: good_entry_def split: option.splits)
  have line: "entry_text (k, v, c) = k @ SP # CHR ''='' # ?rest" by (simp add: entry_text_def)
  have cs: "cstr (entry_text (k, v, c)) = entry_text (k, v, c)"
    using assms(1) by (intro cstr_id) (auto simp: is_cstr_def entry_text_def good_entry_def plain_text_def split: option.splits)
  have body: "rstrip (entry_text (k, v, c)) = k @ SP # CHR ''='' # rstrip ?rest"
    using rstrip_keep [of "CHR ''=''" "k @ [SP]" ?rest] by (simp add: line)
  define R where "R = rstrip ?rest"
  define L where "L = entry_text (k, v, c)"
  have "lskip (k @ r) = k @ r" for r using k(1,2) by (intro lskip_id) (auto simp: plain_text_def)
  from this [of "SP # CHR ''='' # R"] have start: "lskip (x # xs @ SP # CHR ''='' # R) = x # xs @ SP # CHR ''='' # R"
    by (simp add: kx)
  have "find_char_or_comment ((k @ [SP]) @ CHR ''='' # R) (Some CHR ''='') = (k @ [SP], CHR ''='' # R)"
    unfolding find_char_or_comment_def by (rule find_char_here) (use k in auto)
  then have cut: "find_char_or_comment (x # xs @ SP # CHR ''='' # R) (Some CHR ''='') = (k @ [SP], CHR ''='' # R)"
    by (simp add: kx)
  have name: "rstrip (k @ [SP]) = k"
    using rstrip_space [of SP k] rstrip_id [of k] k(1,2) by (simp add: plain_text_def)
  have "x \<noteq> CHR '';''" "x \<noteq> CHR ''#''" "x \<noteq> CHR ''[''" "rstrip L = x # xs @ SP # CHR ''='' # R"
    using k(4-6) kx body by (auto simp: L_def R_def)
  then have "ini_line h p L = ini_call h k (rstrip (fst (find_char_or_comment (lskip R) None)))
      (p\<lparr>ini_lineno := ini_lineno p + 1, ini_prev_name := strncpy0 k MAX_NAME\<rparr>)"
    using assms(2) cs [folded L_def] by (simp add: ini_line_def Let_def start cut name)
  then show ?thesis using value_text [OF v] by (simp add: L_def R_def)
qed

section \<open>Properties\<close>

text \<open>What reading a file should do: each entry of each section goes to the handler, in order; the
  error is the line of the first entry it refuses.\<close>

fun run_entries :: "'u ini_handler \<Rightarrow> cstring \<Rightarrow> int \<Rightarrow> entry list \<Rightarrow> int \<times> 'u \<Rightarrow> int \<times> 'u" where
  "run_entries h s n [] (err, u) = (err, u)"
| "run_entries h s n ((k, v, c) # es) (err, u) =
     (case h u s k v of (ok, u') \<Rightarrow> run_entries h s (n + 1) es (if ok = 0 \<and> err = 0 then n else err, u'))"

fun run_sections :: "'u ini_handler \<Rightarrow> int \<Rightarrow> (cstring \<times> entry list) list \<Rightarrow> int \<times> 'u \<Rightarrow> int \<times> 'u" where
  "run_sections h n [] r = r"
| "run_sections h n ((s, es) # ses) r =
     run_sections h (n + 1 + int (length es)) ses (run_entries h s (n + 1) es r)"

lemma run_entries_lines:
  assumes "\<forall>e \<in> set es. good_entry e" "0 < ini_lineno p"
  shows "\<exists>p'. foldl (ini_line h) p (map entry_text es) = p' \<and> ini_lineno p' = ini_lineno p + int (length es) \<and>
    run_entries h (ini_section p) (ini_lineno p + 1) es (ini_error p, ini_user p) = (ini_error p', ini_user p')"
  using assms
proof (induction es arbitrary: p)
  case (Cons e es)
  obtain k v c where e: "e = (k, v, c)" by (cases e)
  obtain ok u where hu: "h (ini_user p) (ini_section p) k v = (ok, u)" by (cases "h (ini_user p) (ini_section p) k v")
  define q where "q = ini_line h p (entry_text e)"
  have "q = ini_call h k v (p\<lparr>ini_lineno := ini_lineno p + 1, ini_prev_name := strncpy0 k MAX_NAME\<rparr>)"
    unfolding q_def e by (rule entry_line_ok) (use Cons.prems e in auto)
  then have q: "ini_lineno q = ini_lineno p + 1" "ini_section q = ini_section p" "ini_user q = u"
    "ini_error q = (if ok = 0 \<and> ini_error p = 0 then ini_lineno p + 1 else ini_error p)"
    by (auto simp: ini_call_def ini_fail_def hu)
  with Cons.IH [of q] Cons.prems show ?case by (auto simp: e hu add.commute add.left_commute simp flip: q_def [unfolded e])
qed simp

lemma run_sections_lines:
  assumes "\<forall>(s, es) \<in> set ses. good_section s \<and> (\<forall>e \<in> set es. good_entry e)" "0 \<le> ini_lineno p"
  shows "run_sections h (ini_lineno p + 1) ses (ini_error p, ini_user p) =
    (let p' = foldl (ini_line h) p (concat (map section_text ses)) in (ini_error p', ini_user p'))"
  using assms
proof (induction ses arbitrary: p)
  case (Cons se ses)
  obtain s es where se: "se = (s, es)" by (cases se)
  define q where "q = p\<lparr>ini_lineno := ini_lineno p + 1, ini_section := s, ini_prev_name := []\<rparr>"
  have "ini_line h p (section_line s) = q"
    unfolding q_def by (rule section_line_ok) (use Cons.prems se in auto)
  moreover obtain q' where q': "foldl (ini_line h) q (map entry_text es) = q'" "ini_lineno q' = ini_lineno q + int (length es)"
      "run_entries h (ini_section q) (ini_lineno q + 1) es (ini_error q, ini_user q) = (ini_error q', ini_user q')"
    using run_entries_lines [of es q h] Cons.prems se by (auto simp: q_def)
  moreover have "ini_section q = s" "ini_lineno q = ini_lineno p + 1" "ini_error q = ini_error p" "ini_user q = ini_user p"
    by (simp_all add: q_def)
  ultimately show ?case
    using Cons.IH [of q'] Cons.prems by (simp add: se section_text_def algebra_simps)
qed simp

lemma ini_parse_sections:
  assumes "\<forall>(s, es) \<in> set ses. good_section s \<and> (\<forall>e \<in> set es. good_entry e)"
  shows "ini_parse (Some (concat (concat (map section_text ses)))) h u = run_sections h 1 ses (0, u)"
proof -
  have "file_line l" if "l \<in> set (concat (map section_text ses))" for l
  proof -
    from that obtain s es where se: "(s, es) \<in> set ses" "l \<in> set (section_text (s, es))" by auto
    then consider "l = section_line s" | e where "e \<in> set es" "l = entry_text e" by (auto simp: section_text_def)
    then show ?thesis
    proof cases
      case 1
      with assms se(1) show ?thesis
        unfolding file_line_def
        by (intro exI [of _ "CHR ''['' # s @ [CHR '']'']"]) (auto simp: section_line_def good_section_def MAX_SECTION_def INI_MAX_LINE_def)
    next
      case 2
      with assms se(1) have "good_entry e" by auto
      with 2 show ?thesis
        unfolding file_line_def by (intro exI [of _ "butlast (entry_text e)"])
          (auto simp: entry_text_def good_entry_def plain_text_def butlast_append split: option.splits prod.splits)
    qed
  qed
  then have "ini_lines (concat (concat (map section_text ses))) = concat (map section_text ses)"
    by (intro ini_lines_concat) blast
  then show ?thesis
    using run_sections_lines [OF assms, of "\<lparr>ini_user = u, ini_section = [], ini_prev_name = [], ini_lineno = 0, ini_error = 0\<rparr>" h]
    by (simp add: ini_parse_def ini_parse_file_def Let_def)
qed

text \<open>C20. Reading back a configuration file: a file of sections and \<open>name = value\<close> lines, with comments
  behind them or not, calls the handler for exactly its entries, in order, with section, name and
  value as written, and the result is 0 or the number of the first line whose entry was refused.\<close>

theorem ini_roundtrip:
  assumes "\<forall>(s, es) \<in> set ses. good_section s \<and> (\<forall>e \<in> set es. good_entry e)"
  shows "ini_parse (Some (concat (concat (map section_text ses)))) h u = run_sections h 1 ses (0, u)"
  using assms by (rule ini_parse_sections)

theorem ini_roundtrip_witness:
  "ini_parse (Some (concat (concat (map section_text [(''PORT:80'', [(''htdocs'', ''/www'', Some ''root''), (''x:y'', [], None)])]))))
     (\<lambda>u s k v. (if v = [] then 0 else 1, u @ [(s, k, v)])) [] =
   (3, [(''PORT:80'', ''htdocs'', ''/www''), (''PORT:80'', ''x:y'', [])])"
  by (subst ini_roundtrip)
    (simp_all add: good_section_def good_entry_def plain_text_def entry_text_def INI_MAX_LINE_def MAX_SECTION_def ctype_defs code_of_def)

end
