(* ===== verification/Config.thy ===== *)
theory Config
  imports Ini Utils
begin

text \<open>
  The server configuration, \<open>config.h\<close> and \<open>config.c\<close>, for a build with OpenSSL and without zlib:
  \<open>config_handler\<close> stores one entry of the file, \<open>init_plugins\<close> reads the plugin sections,
  \<open>load_config\<close> puts them together.  The file system is an environment: which paths exist, and what
  \<open>realpath\<close> says about a path once its directory has been made.  Directories made, emptied and
  plugins loaded are a log.
\<close>

section \<open>Data\<close>

datatype proto = ANTD_PROTO_IP_4 | ANTD_PROTO_IP_6 | ANTD_PROTO_ALL

text \<open>\<open>usessl\<close> is not initialised when a port is created: \<open>None\<close>.\<close>

record port_config =
  pc_port :: int
  pc_usessl :: "int option"
  pc_htdocs :: "cstring option"
  pc_plugins :: "cstring option"
  pc_sock :: int
  pc_type :: proto
  pc_rules :: "cstring dictionary"

record config =
  cf_plugins_dir :: cstring
  cf_plugins_ext :: cstring
  cf_db_path :: cstring
  cf_tmpdir :: cstring
  cf_stat_fifo_path :: cstring
  cf_handlers :: "cstring dictionary"
  cf_backlog :: int
  cf_maxcon :: int
  cf_connection :: int
  cf_n_workers :: int
  cf_scheduler_timeout :: int
  cf_max_upload_size :: int
  cf_enable_ssl :: int
  cf_sslcert :: cstring
  cf_sslkey :: cstring
  cf_ssl_cipher :: "cstring option"
  cf_gzip_enable :: int
  cf_debug_enable :: int
  cf_mimes :: "cstring dictionary"
  cf_ports :: "port_config dictionary"
  cf_plugins :: "cstring dictionary dictionary"

datatype effect = MkDirP cstring | RemoveAll cstring | SetEnv cstring cstring | LoadPlugin cstring

record sys_env =
  path_exists :: "cstring \<Rightarrow> bool"
  real_path :: "cstring \<Rightarrow> cstring option"

record loader =
  ld_config :: config
  ld_log :: "effect list"

definition logged :: "effect list \<Rightarrow> loader \<Rightarrow> loader" where
  "logged es l = l\<lparr>ld_log := ld_log l @ es\<rparr>"

definition set_config :: "(config \<Rightarrow> config) \<Rightarrow> loader \<Rightarrow> loader" where
  "set_config f l = l\<lparr>ld_config := f (ld_config l)\<rparr>"

section \<open>\<open>config_handler\<close>\<close>

text \<open>\<open>regex_match("PORT:\s*([0-9]+)", section, 2, regex_matches)\<close> and the pattern of plugin sections,
  anywhere in the name and in any case: the first group.\<close>

fun port_section :: "cstring \<Rightarrow> cstring option" where
  "port_section [] = None"
| "port_section (c # cs) =
     (let digits = takeWhile c_isdigit (dropWhile c_isspace (drop 4 cs)) in
      if strcasecmp_eq (take 5 (c # cs)) ''PORT:'' \<and> digits \<noteq> [] then Some digits else port_section cs)"

fun plugin_section :: "cstring \<Rightarrow> cstring option" where
  "plugin_section [] = None"
| "plugin_section (c # cs) =
     (if strcasecmp_eq (take 7 (c # cs)) ''PLUGIN:'' then Some (dropWhile c_isspace (drop 6 cs)) else plugin_section cs)"

definition make_missing :: "sys_env \<Rightarrow> cstring \<Rightarrow> effect list" where
  "make_missing env path = (if path_exists env path then [] else [MkDirP path])"

definition new_port :: "cstring \<Rightarrow> port_config" where
  "new_port buf = \<lparr>pc_port = atoi buf, pc_usessl = None, pc_htdocs = None, pc_plugins = None, pc_sock = -1,
     pc_type = ANTD_PROTO_ALL, pc_rules = dict_n 1\<rparr>"

text \<open>One entry of a port section: the port and whether TLS must be set up.\<close>

definition port_setting :: "sys_env \<Rightarrow> cstring \<Rightarrow> cstring \<Rightarrow> port_config \<Rightarrow> port_config \<times> bool" where
  "port_setting env name val p =
     (if name = ''htdocs'' then
        (p\<lparr>pc_htdocs := Some (case real_path env val of Some r \<Rightarrow> r | None \<Rightarrow> val)\<rparr>, False)
      else if name = ''plugins'' then (p\<lparr>pc_plugins := Some val\<rparr>, False)
      else if name = ''ssl.enable'' then (p\<lparr>pc_usessl := Some (atoi val)\<rparr>, atoi val \<noteq> 0)
      else if name = ''protocol'' then
        (if val = ''ipv4'' then p\<lparr>pc_type := ANTD_PROTO_IP_4\<rparr>
         else if val = ''ipv6'' then p\<lparr>pc_type := ANTD_PROTO_IP_6\<rparr> else p, False)
      else (p\<lparr>pc_rules := dput (pc_rules p) name (Some val)\<rparr>, False))"

definition store_port :: "sys_env \<Rightarrow> cstring \<Rightarrow> cstring \<Rightarrow> cstring \<Rightarrow> loader \<Rightarrow> loader" where
  "store_port env buf name val l =
     (let c = ld_config l;
          p = (case dvalue (cf_ports c) buf of Some p \<Rightarrow> p | None \<Rightarrow> new_port buf);
          (p', tls) = port_setting env name val p
      in logged (if name = ''htdocs'' then make_missing env val else [])
           (l\<lparr>ld_config := c\<lparr>cf_ports := dput (cf_ports c) buf (Some p'),
                cf_enable_ssl := if tls then 1 else cf_enable_ssl c\<rparr>\<rparr>))"

definition store_plugin :: "cstring \<Rightarrow> cstring \<Rightarrow> cstring \<Rightarrow> loader \<Rightarrow> loader" where
  "store_plugin buf name val =
     set_config (\<lambda>c. c\<lparr>cf_plugins := dput (cf_plugins c) buf
       (Some (dput (case dvalue (cf_plugins c) buf of Some p \<Rightarrow> p | None \<Rightarrow> dict) name (Some val)))\<rparr>)"

definition config_handler :: "sys_env \<Rightarrow> loader ini_handler" where
  "config_handler env l section name val =
     (let server = (\<lambda>n. section = ''SERVER'' \<and> name = n); set = (\<lambda>f. (1, set_config f l)) in
      if server ''plugins'' then
        (1, logged (make_missing env val)
             (case real_path env val of None \<Rightarrow> l | Some tmp \<Rightarrow> set_config (\<lambda>c. c\<lparr>cf_plugins_dir := tmp\<rparr>) l))
      else if server ''plugins_ext'' then set (\<lambda>c. c\<lparr>cf_plugins_ext := val\<rparr>)
      else if server ''tmpdir'' then
        (1, logged [if path_exists env val then RemoveAll val else MkDirP val]
             (case real_path env val of None \<Rightarrow> l | Some tmp \<Rightarrow> set_config (\<lambda>c. c\<lparr>cf_tmpdir := tmp\<rparr>) l))
      else if server ''statistic_fifo'' then set (\<lambda>c. c\<lparr>cf_stat_fifo_path := val\<rparr>)
      else if server ''max_upload_size'' then set (\<lambda>c. c\<lparr>cf_max_upload_size := atoi val\<rparr>)
      else if server ''maxcon'' then set (\<lambda>c. c\<lparr>cf_maxcon := atoi val\<rparr>)
      else if server ''backlog'' then set (\<lambda>c. c\<lparr>cf_backlog := atoi val\<rparr>)
      else if server ''workers'' then set (\<lambda>c. c\<lparr>cf_n_workers := atoi val\<rparr>)
      else if server ''debug_enable'' then
        (1, logged [SetEnv ''ANTD_DEBUG'' val] (set_config (\<lambda>c. c\<lparr>cf_debug_enable := atoi val\<rparr>) l))
      else if server ''scheduler_timeout'' then set (\<lambda>c. c\<lparr>cf_scheduler_timeout := atoi val\<rparr>)
      else if server ''ssl.cert'' then set (\<lambda>c. c\<lparr>cf_sslcert := val\<rparr>)
      else if server ''ssl.key'' then set (\<lambda>c. c\<lparr>cf_sslkey := val\<rparr>)
      else if server ''ssl.cipher'' then set (\<lambda>c. c\<lparr>cf_ssl_cipher := Some val\<rparr>)
      else if section = ''MIMES'' then set (\<lambda>c. c\<lparr>cf_mimes := dput (cf_mimes c) name (Some val)\<rparr>)
      else
        (case port_section section of
           Some buf \<Rightarrow> (1, store_port env buf name val l)
         | None \<Rightarrow>
             (case plugin_section section of
                Some buf \<Rightarrow> (1, store_plugin buf name val l)
              | None \<Rightarrow> (0, l))))"

section \<open>\<open>init_plugins\<close> and \<open>load_config\<close>\<close>

text \<open>One entry of a plugin section: the file types it lists.\<close>

definition add_types :: "cstring \<Rightarrow> cstring \<Rightarrow> cstring dictionary \<Rightarrow> cstring dictionary" where
  "add_types plugin file_type handlers =
     foldl (\<lambda>h token. let t = trim token SP in if length t > 0 then dput h t (Some plugin) else h)
       handlers (strsep_all '','' file_type)"

definition plugin_types :: "cstring \<Rightarrow> cstring dictionary \<Rightarrow> cstring dictionary \<Rightarrow> cstring dictionary" where
  "plugin_types plugin cfg handlers =
     foldl (\<lambda>h it2. case snd it2 of
                Some v \<Rightarrow> if take 9 (fst it2) = ''file_type'' then add_types plugin v h else h
              | None \<Rightarrow> h)
       handlers (dict_items cfg)"

definition autoloads :: "cstring dictionary \<Rightarrow> bool" where
  "autoloads cfg = (case dvalue cfg ''autoload'' of None \<Rightarrow> False
     | Some val \<Rightarrow> take 1 val = ''1'' \<or> take 3 val = ''tru'')"

definition init_plugins :: "loader \<Rightarrow> loader" where
  "init_plugins l =
     foldl (\<lambda>l it. case snd it of
              None \<Rightarrow> l
            | Some cfg \<Rightarrow>
                let l' = set_config (\<lambda>c. c\<lparr>cf_handlers := plugin_types (fst it) cfg (cf_handlers c)\<rparr>) l
                in if autoloads cfg then logged [LoadPlugin (fst it)] l' else l')
       l (dict_items (cf_plugins (ld_config l)))"

definition default_mimes :: "(cstring \<times> cstring) list" where
  "default_mimes =
     [(''image/bmp'', ''bmp''), (''image/jpeg'', ''jpg,jpeg''), (''text/css'', ''css''), (''text/markdown'', ''md''),
      (''text/csv'', ''csv''), (''application/pdf'', ''pdf''), (''image/gif'', ''gif''), (''text/html'', ''html''),
      (''application/json'', ''json''), (''application/javascript'', ''js''), (''image/png'', ''png''),
      (''text/plain'', ''txt''), (''application/xhtml+xml'', ''xhtml''), (''application/xml'', ''xml''),
      (''image/svg+xml'', ''svg'')]"

definition default_config :: config where
  "default_config = \<lparr>cf_plugins_dir = ''plugins/'', cf_plugins_ext = ''.so'', cf_db_path = ''databases/'',
     cf_tmpdir = ''/tmp/'', cf_stat_fifo_path = [], cf_handlers = dict, cf_backlog = 1000, cf_maxcon = 100,
     cf_connection = 0, cf_n_workers = 4, cf_scheduler_timeout = 30, cf_max_upload_size = 10000000,
     cf_enable_ssl = 0, cf_sslcert = ''cert.pem'', cf_sslkey = ''key.pem'', cf_ssl_cipher = None,
     cf_gzip_enable = 0, cf_debug_enable = 0,
     cf_mimes = foldl (\<lambda>d (t, e). dput d t (Some e)) dict default_mimes, cf_ports = dict, cf_plugins = dict\<rparr>"

definition load_config :: "sys_env \<Rightarrow> char list option \<Rightarrow> loader" where
  "load_config env content =
     init_plugins (snd (ini_parse content (config_handler env) \<lparr>ld_config = default_config, ld_log = []\<rparr>))"

section \<open>Lemmas\<close>

lemma init_plugins_ports [simp]:
  "cf_ports (ld_config (init_plugins l)) = cf_ports (ld_config l)"
  "cf_mimes (ld_config (init_plugins l)) = cf_mimes (ld_config l)"
proof -
  define its where "its = dict_items (cf_plugins (ld_config l))"
  have "cf_ports (ld_config (foldl (\<lambda>l it. case snd it of None \<Rightarrow> l
      | Some cfg \<Rightarrow> let l' = set_config (\<lambda>c. c\<lparr>cf_handlers := plugin_types (fst it) cfg (cf_handlers c)\<rparr>) l
                in if autoloads cfg then logged [LoadPlugin (fst it)] l' else l') l its)) = cf_ports (ld_config l) \<and>
    cf_mimes (ld_config (foldl (\<lambda>l it. case snd it of None \<Rightarrow> l
      | Some cfg \<Rightarrow> let l' = set_config (\<lambda>c. c\<lparr>cf_handlers := plugin_types (fst it) cfg (cf_handlers c)\<rparr>) l
                in if autoloads cfg then logged [LoadPlugin (fst it)] l' else l') l its)) = cf_mimes (ld_config l)" for its
    by (induction its arbitrary: l) (auto simp: set_config_def logged_def Let_def split: option.splits)
  then show "cf_ports (ld_config (init_plugins l)) = cf_ports (ld_config l)"
    "cf_mimes (ld_config (init_plugins l)) = cf_mimes (ld_config l)"
    by (simp_all add: init_plugins_def)
qed

lemma port_sections:
  assumes "port_section s = Some buf"
  shows "s \<noteq> ''SERVER''" "s \<noteq> ''MIMES''"
proof -
  have "port_section ''SERVER'' = None" "port_section ''MIMES'' = None"
    by (simp_all add: strcasecmp_eq_def c_tolower_def c_isupper_def code_of_def)
  with assms show "s \<noteq> ''SERVER''" "s \<noteq> ''MIMES''" by (metis option.distinct(1))+
qed

lemma port_entry:
  assumes "port_section s = Some buf"
  shows "config_handler env l s name val = (1, store_port env buf name val l)"
  using assms port_sections [OF assms] by (simp add: config_handler_def Let_def)

text \<open>The entries of a port section are folded into its port.\<close>

definition port_of :: "cstring \<Rightarrow> loader \<Rightarrow> port_config" where
  "port_of buf l = (case dvalue (cf_ports (ld_config l)) buf of Some p \<Rightarrow> p | None \<Rightarrow> new_port buf)"

lemma store_port_facts:
  assumes "dict_ok (cf_ports (ld_config l))"
  shows "dict_ok (cf_ports (ld_config (store_port env buf name val l)))"
    "dvalue (cf_ports (ld_config (store_port env buf name val l))) buf = Some (fst (port_setting env name val (port_of buf l)))"
    "port_of buf (store_port env buf name val l) = fst (port_setting env name val (port_of buf l))"
    "buf' \<noteq> buf \<Longrightarrow> dvalue (cf_ports (ld_config (store_port env buf name val l))) buf' = dvalue (cf_ports (ld_config l)) buf'"
  using assms by (simp_all add: store_port_def port_of_def Let_def logged_def split_beta dict_ok_dput)

lemma port_entries:
  assumes "port_section s = Some buf" "dict_ok (cf_ports (ld_config l))"
  shows "\<exists>err' l'. run_entries (config_handler env) s n es (err, l) = (err', l') \<and> err' = err \<and> dict_ok (cf_ports (ld_config l')) \<and>
    port_of buf l' = foldl (\<lambda>p (k, v, c). fst (port_setting env k v p)) (port_of buf l) es \<and>
    (es \<noteq> [] \<longrightarrow> dvalue (cf_ports (ld_config l')) buf = Some (port_of buf l')) \<and>
    (\<forall>buf'. buf' \<noteq> buf \<longrightarrow> dvalue (cf_ports (ld_config l')) buf' = dvalue (cf_ports (ld_config l)) buf')"
  using assms(2)
proof (induction es arbitrary: l n)
  case (Cons e es)
  obtain k v c where e: "e = (k, v, c)" by (cases e)
  let ?l = "store_port env buf k v l"
  note f = store_port_facts [OF Cons.prems, where env = env and buf = buf and name = k and val = v]
  from Cons.IH [OF f(1), where n = "n + 1"] obtain l' where l': "run_entries (config_handler env) s (n + 1) es (err, ?l) = (err, l')"
    "dict_ok (cf_ports (ld_config l'))" "port_of buf l' = foldl (\<lambda>p (k, v, c). fst (port_setting env k v p)) (port_of buf ?l) es"
    "es \<noteq> [] \<longrightarrow> dvalue (cf_ports (ld_config l')) buf = Some (port_of buf l')"
    "\<forall>buf'. buf' \<noteq> buf \<longrightarrow> dvalue (cf_ports (ld_config l')) buf' = dvalue (cf_ports (ld_config ?l)) buf'"
    by blast
  have "dvalue (cf_ports (ld_config l')) buf = Some (port_of buf l')"
    using l'(1,3,4) f(2,3) by (cases "es = []") auto
  with l' f(3,4) show ?case by (simp add: e port_entry [OF assms(1)])
qed simp

section \<open>Properties\<close>

lemma default_ports [simp]: "cf_ports default_config = dict" "cf_plugins default_config = dict"
  by (simp_all add: default_config_def)

definition port_names :: "cstring set" where
  "port_names = {''htdocs'', ''plugins'', ''ssl.enable'', ''protocol''}"



end
