(* ===== verification/Request.thy ===== *)
theory Request
  imports FormFields Rules Base64 Sha1 Response Config "HOL-Library.Monad_Syntax"
begin

text \<open>
  Decoding of a request in \<open>decode.c\<close>: the header (\<open>decode_request_header\<close>), the method and
  the WebSocket upgrade (\<open>decode_request\<close>, \<open>ws_confirm_request\<close>), the reverse proxy
  (\<open>check_proxy\<close>).  Each handler is one function from the request to the request it leaves behind and the task it
  returns; \<open>None\<close> is a read through a null pointer or an access outside a buffer.
\<close>

section \<open>Requests, configuration and tasks\<close>

text \<open>A value of the request dictionary is a string, another dictionary or the connection to another
  server; the code changes the inner dictionaries and the connection through the pointers it finds there.\<close>

datatype rqval = RqStr cstring | RqDict "cstring dictionary" | RqClient client

record request =
  rq_client :: client
  rq_dict :: "rqval dictionary"

definition rq_str :: "request \<Rightarrow> cstring \<Rightarrow> cstring option" where
  "rq_str rq key = (case dvalue (rq_dict rq) key of Some (RqStr s) \<Rightarrow> Some s | _ \<Rightarrow> None)"

definition rq_sub :: "request \<Rightarrow> cstring \<Rightarrow> cstring dictionary option" where
  "rq_sub rq key = (case dvalue (rq_dict rq) key of Some (RqDict d) \<Rightarrow> Some d | _ \<Rightarrow> None)"

definition rq_put :: "cstring \<Rightarrow> rqval \<Rightarrow> request \<Rightarrow> request" where
  "rq_put key v rq = rq\<lparr>rq_dict := dput (rq_dict rq) key (Some v)\<rparr>"

text \<open>The handlers a task may carry, and the part of a task its creator chooses: handler, callback, access time
  and bound events (descriptor, timeout, flags).\<close>

datatype handler = AcceptRequest | DecodeRequestHeader | DecodeRequest | ResolveRequest | Proxify | ProxyMonitor
  | DecodePostRequest | DecodeMultiPartData | ServeFile | FinishRequest | PluginHandle cstring

record reply =
  rp_handle :: "handler option"
  rp_callback :: "handler option"
  rp_access :: int
  rp_events :: "(int \<times> int \<times> nat) list"

abbreviation ON_READABLE :: nat where "ON_READABLE \<equiv> 2"
abbreviation ON_WRITABLE :: nat where "ON_WRITABLE \<equiv> 4"

text \<open>\<open>antd_create_task(handle, rq, NULL, rq->client->last_io)\<close> and
  \<open>antd_task_bind_event(task, rq->client->sock, 0, flags)\<close>.\<close>

definition create_task :: "handler option \<Rightarrow> request \<Rightarrow> reply" where
  "create_task h rq = \<lparr>rp_handle = h, rp_callback = None, rp_access = last_io (rq_client rq), rp_events = []\<rparr>"

definition bind_event :: "request \<Rightarrow> nat \<Rightarrow> reply \<Rightarrow> reply" where
  "bind_event rq flags r = r\<lparr>rp_events := rp_events r @ [(sock (rq_client rq), 0, flags)]\<rparr>"

definition rq_error :: "int \<Rightarrow> cstring \<Rightarrow> request \<Rightarrow> request" where
  "rq_error status msg rq = rq\<lparr>rq_client := antd_error (rq_client rq) status msg\<rparr>"

definition set_state :: "nat \<Rightarrow> request \<Rightarrow> request" where
  "set_state s rq = rq\<lparr>rq_client := (rq_client rq)\<lparr>state := s\<rparr>\<rparr>"

definition ANTD_CLIENT_HEADER_DECODE :: nat where "ANTD_CLIENT_HEADER_DECODE = 2"

section \<open>The WebSocket upgrade\<close>

definition WS_MAGIC_STRING :: cstring where
  "WS_MAGIC_STRING = ''258EAFA5-E914-47DA-95CA-C5AB0DC85B11''"

text \<open>The buffer \<open>rkey[128]\<close>: \<open>strncpy\<close> leaves it without terminator for a key of 127 characters
  or more, and \<open>strncat\<close> writes up to \<open>n\<close> characters and the terminator.\<close>

definition ws_rkey :: "cstring \<Rightarrow> cstring option" where
  "ws_rkey key =
     (if length key \<ge> 127 then None
      else let rkey = key @ take (128 - length key) WS_MAGIC_STRING in
           if length rkey + 1 > 128 then None else Some rkey)"

text \<open>\<open>sprintf(buf, ...); antd_send(client, buf, strlen(buf))\<close>, the result ignored.\<close>

definition send_text :: "client \<Rightarrow> cstring \<Rightarrow> client" where
  "send_text c line = snd (antd_send c (map byte_of (line @ CRLF)))"

text \<open>The buffer of the hash context is not initialised; its contents do not matter.\<close>

definition ws_confirm_request :: "client \<Rightarrow> cstring \<Rightarrow> client option" where
  "ws_confirm_request c key =
     (case ws_rkey key of
        None \<Rightarrow> None
      | Some rkey \<Rightarrow>
          (case SHA1_Final (fst (SHA1_Update (SHA1_Init (replicate 64 0)) (map byte_of rkey))) of
             None \<Rightarrow> None
           | Some sha_d \<Rightarrow>
               let base64 = cstr (snd (Base64encode sha_d)) in
               Some (foldl send_text c
                 [''HTTP/1.1 101 Switching Protocols'', ''Upgrade: websocket'', ''Connection: Upgrade'',
                  ''Sec-WebSocket-Accept: '' @ base64, []])))"

text \<open>A socket in order is a sink for these lines too.\<close>

interpretation text_sink: byte_sink tx_ready sent send_text line_bytes
proof (unfold_locales, goal_cases)
  case (1 c line)
  then show ?case by (rule antd_send_ready [of _ "map byte_of (line @ CRLF)"]) (simp add: send_text_def)
next
  case (2 c line)
  then show ?case by (rule antd_send_ready [of _ "map byte_of (line @ CRLF)"]) (simp add: send_text_def line_bytes_def)
qed

section \<open>\<open>decode_request\<close>\<close>

definition decode_request :: "request \<Rightarrow> (reply \<times> request) option" where
  "decode_request rq =
     do {
       headers \<leftarrow> rq_sub rq ''REQUEST_HEADER'';
       let ws_key = dvalue headers ''Sec-WebSocket-Key'';
       let ws = (case dvalue headers ''Upgrade'' of None \<Rightarrow> False | Some tmp \<Rightarrow> strcasecmp_eq tmp ''websocket'');
       method \<leftarrow> rq_str rq ''METHOD'';
       let task = create_task None rq;
       (if method = ''GET'' then
          (case ws_key of
             Some key \<Rightarrow>
               if ws then
                 do {
                   c \<leftarrow> ws_confirm_request (rq_client rq) key;
                   Some (task\<lparr>rp_handle := Some ResolveRequest\<rparr>,
                         rq_put ''__web_socket__'' (RqStr ''1'') (rq\<lparr>rq_client := c\<rparr>))
                 }
               else Some (task\<lparr>rp_handle := Some ResolveRequest\<rparr>, rq)
           | None \<Rightarrow> Some (task\<lparr>rp_handle := Some ResolveRequest\<rparr>, rq))
        else if method = ''HEAD'' \<or> method = ''OPTIONS'' \<or> method = ''DELETE'' then
          Some (task\<lparr>rp_handle := Some ResolveRequest\<rparr>, rq)
        else if method = ''POST'' \<or> method = ''PUT'' \<or> method = ''PATCH'' then
          Some (task\<lparr>rp_handle := Some ResolveRequest\<rparr>, rq)
        else Some (task, rq_error 501 ''Request Method Not Implemented'' rq))
     }"

section \<open>\<open>check_proxy\<close>\<close>

text \<open>The first result is the task, if the request goes to another server.  A host or port of
  256 characters or more makes the terminator land behind \<open>buff[256]\<close>.\<close>

definition check_proxy :: "request \<Rightarrow> cstring \<Rightarrow> cstring \<Rightarrow> (reply option \<times> request) option" where
  "check_proxy rq path query =
     (let task = create_task None rq in
      case proxy_match path of
        None \<Rightarrow> Some (None, rq)
      | Some (scheme, host, port, rest) \<Rightarrow>
          if length scheme = 5 then Some (Some task, rq_error 503 ''Service Unavailable'' rq)
          else if length host \<ge> 256 \<or> length port \<ge> 256 then None
          else
            Some (Some (bind_event rq (ON_READABLE + ON_WRITABLE) (task\<lparr>rp_handle := Some Proxify\<rparr>)),
              rq_put ''PROXY_QUERY'' (RqStr query)
               (rq_put ''PROXY_PATH'' (RqStr rest)
                (rq_put ''PROXY_PORT'' (RqStr port)
                 (rq_put ''PROXY_HOST'' (RqStr host) rq)))))"

section \<open>\<open>decode_request_header\<close>\<close>

definition HEADER_MAX_SIZE :: nat where "HEADER_MAX_SIZE = 8192"

text \<open>The local variables of the loop: header fields, cookies and host.\<close>

record fields =
  hd_fields :: "cstring dictionary"
  hd_cookie :: "cstring dictionary option"
  hd_host :: "cstring option"

text \<open>One line.  A line without colon leaves \<open>line\<close> NULL, which \<open>strdup\<close> reads if the token is
  \<open>Cookie\<close> or \<open>Host\<close>.\<close>

definition header_line :: "cstring \<Rightarrow> fields \<Rightarrow> fields option" where
  "header_line buf h =
     (case strsep '':'' (trim (trim buf LF) CR) of
        (token0, line0) \<Rightarrow>
          let token1 = trim token0 SP;
              line = map_option (\<lambda>l. trim l SP) line0;
              keep = (case line of Some l \<Rightarrow> length l > 0 | None \<Rightarrow> False);
              token = (if keep then verify_header token1 else token1);
              h1 = (if keep then h\<lparr>hd_fields := dput (hd_fields h) token line\<rparr> else h)
          in if strcasecmp_eq token ''Cookie'' then
               (case line of
                  None \<Rightarrow> None
                | Some l \<Rightarrow>
                    Some (h1\<lparr>hd_cookie :=
                      Some (decode_cookie l (case hd_cookie h1 of None \<Rightarrow> dict | Some d \<Rightarrow> d))\<rparr>))
             else if strcasecmp_eq token ''Host'' then
               (case line of None \<Rightarrow> None | Some l \<Rightarrow> Some (h1\<lparr>hd_host := Some l\<rparr>))
             else Some h1)"

text \<open>The loop: the last result of \<open>read_buf\<close>, or \<open>None\<close> when the header is too large.\<close>

function header_loop :: "client \<Rightarrow> fields \<Rightarrow> nat \<Rightarrow> (int option \<times> client \<times> fields) option" where
  "header_loop c h header_size =
     (case read_buf c URI_SIZE of
        (ret, buf, c1) \<Rightarrow>
          if ret > 0 \<and> cstr buf \<noteq> CRLF then
            (case header_line (cstr buf) h of
               None \<Rightarrow> None
             | Some h1 \<Rightarrow>
                 let header_size' = header_size + nat ret in
                 if header_size' > HEADER_MAX_SIZE then Some (None, c1, h1)
                 else header_loop c1 h1 header_size')
          else Some (Some ret, c1, h))"
  by pat_completeness auto
termination
  by (relation "measure (\<lambda>(c, h, header_size). Suc HEADER_MAX_SIZE - header_size)") auto

declare header_loop.simps [simp del]

text \<open>The part after the loop, from the \<open>Content-Length\<close> check on.\<close>

definition finish_header ::
  "(cstring \<Rightarrow> cstring \<Rightarrow> regmatch list option) \<Rightarrow> config \<Rightarrow> port_config option \<Rightarrow> cstring \<Rightarrow> fields \<Rightarrow> request
    \<Rightarrow> (reply \<times> request) option" where
  "finish_header rgx cfg pcnf url h rq =
     (if (case dvalue (hd_fields h) ''Content-Length'' of
            None \<Rightarrow> False
          | Some line \<Rightarrow> atoi line > cf_max_upload_size cfg) then
        (let rq1 = rq_error 413 ''Request body data is too large'' rq in Some (create_task None rq1, rq1))
      else
        do {
          pc \<leftarrow> pcnf;
          (buf, query) \<leftarrow> apply_rules rgx (pc_rules pc) (hd_host h) (take (URI_SIZE - 1) url);
          let rq1 = (case hd_cookie h of None \<Rightarrow> rq | Some d \<Rightarrow> rq_put ''COOKIE'' (RqDict d) rq);
          (task, rq2) \<leftarrow> check_proxy rq1 buf query;
          (case task of
             Some t \<Rightarrow> Some (t, rq2)
           | None \<Rightarrow>
               do {
                 uri \<leftarrow> url_decode (Some buf);
                 request \<leftarrow> rq_sub rq2 ''REQUEST_DATA'';
                 let rq3 = rq_put ''REQUEST_QUERY'' (RqStr query)
                      (rq_put ''REQUEST_DATA'' (RqDict (decode_url_request (Some query) request))
                       (rq_put ''REQUEST_URI'' (RqStr uri) rq2));
                 Some (bind_event rq3 (ON_WRITABLE + ON_READABLE) (create_task (Some DecodeRequest) rq3), rq3)
               })
        })"

definition decode_request_header ::
  "(cstring \<Rightarrow> cstring \<Rightarrow> regmatch list option) \<Rightarrow> config \<Rightarrow> request \<Rightarrow> (reply \<times> request) option" where
  "decode_request_header rgx cfg rq0 =
     do {
       let rq = set_state ANTD_CLIENT_HEADER_DECODE rq0;
       url \<leftarrow> rq_str rq ''REQUEST_QUERY'';
       xheader \<leftarrow> rq_sub rq ''REQUEST_HEADER'';
       port_s \<leftarrow> rq_str rq ''SERVER_PORT'';
       let pcnf = dvalue (cf_ports cfg) port_s;
       (ret, c1, h) \<leftarrow> header_loop (rq_client rq) \<lparr>hd_fields = xheader, hd_cookie = None, hd_host = None\<rparr> 0;
       let rq1 = rq_put ''REQUEST_HEADER'' (RqDict (hd_fields h)) (rq\<lparr>rq_client := c1\<rparr>);
       (case ret of
          None \<Rightarrow> let rq2 = rq_error 413 ''Payload Too Large'' rq1 in Some (create_task None rq2, rq2)
        | Some n \<Rightarrow>
            if n = 0 then
              Some (bind_event rq1 ON_READABLE (create_task (Some DecodeRequestHeader) rq1), rq1)
            else finish_header rgx cfg pcnf url h rq1)
     }"

section \<open>Header lines\<close>

text \<open>A header field as clients send it, and what a field means.\<close>

type_synonym field = "cstring \<times> cstring"

definition field_line :: "field \<Rightarrow> cstring" where
  "field_line kv = fst kv @ CHR '':'' # SP # snd kv @ CRLF"

definition good_field :: "field \<Rightarrow> bool" where
  "good_field kv \<longleftrightarrow> fst kv \<noteq> [] \<and> snd kv \<noteq> [] \<and> set (fst kv @ snd kv) \<inter> {NUL, LF} = {} \<and> CHR '':'' \<notin> set (fst kv) \<and>
     hd (fst kv) \<notin> {SP, CR} \<and> last (fst kv) \<noteq> SP \<and> hd (snd kv) \<noteq> SP \<and> last (snd kv) \<notin> {SP, CR} \<and>
     length (field_line kv) < URI_SIZE"

definition take_field :: "fields \<Rightarrow> field \<Rightarrow> fields" where
  "take_field h kv =
     (let h1 = h\<lparr>hd_fields := dput (hd_fields h) (verify_header (fst kv)) (Some (snd kv))\<rparr> in
      if strcasecmp_eq (verify_header (fst kv)) ''Cookie'' then
        h1\<lparr>hd_cookie := Some (decode_cookie (snd kv) (case hd_cookie h of None \<Rightarrow> dict | Some d \<Rightarrow> d))\<rparr>
      else if strcasecmp_eq (verify_header (fst kv)) ''Host'' then h1\<lparr>hd_host := Some (snd kv)\<rparr>
      else h1)"

lemma trim_line_end:
  assumes "s \<noteq> []" "hd s \<notin> {LF, CR}" "last s \<notin> {LF, CR}"
  shows "trim (trim (s @ CRLF) LF) CR = s"
proof -
  have "dropWhile (\<lambda>c. c = LF) s = s" "dropWhile (\<lambda>c. c = CR) s = s" "dropWhile (\<lambda>c. c = CR) (rev s) = rev s"
    "dropWhile (\<lambda>c. c = LF) (s @ [CR]) = s @ [CR]"
    using assms by (simp_all add: dropWhile_eq_self_iff hd_rev hd_append)
  then show ?thesis by (simp add: trim_eq)
qed

lemma header_line_field:
  assumes "good_field kv"
  shows "header_line (field_line kv) h = Some (take_field h kv)"
proof -
  obtain k v where kv: "kv = (k, v)" by (cases kv)
  have g: "k \<noteq> []" "v \<noteq> []" "LF \<notin> set k" "LF \<notin> set v" "CHR '':'' \<notin> set k" "hd k \<noteq> SP" "hd k \<noteq> CR" "last k \<noteq> SP"
      "hd v \<noteq> SP" "last v \<noteq> SP" "last v \<noteq> CR"
    using assms by (auto simp: good_field_def kv)
  let ?s = "k @ CHR '':'' # SP # v"
  have ends: "hd k \<noteq> LF" "last v \<noteq> LF" using g(1-4) by (metis hd_in_set, metis last_in_set)
  have "trim (trim (field_line kv) LF) CR = ?s"
    using trim_line_end [of ?s] g ends by (simp add: field_line_def kv hd_append)
  then have cut: "strsep '':'' (trim (trim (field_line kv) LF) CR) = (k, Some (SP # v))"
    using g(5) by (simp add: str_simps)
  have "trim k SP = k" "trim (SP # v) SP = v" using g by (simp_all add: str_simps)
  then show ?thesis
    using g(2) unfolding header_line_def cut by (simp add: take_field_def kv Let_def)
qed

definition header_bytes :: "field list \<Rightarrow> u8 list" where
  "header_bytes hs = concat (map (\<lambda>kv. map byte_of (field_line kv)) hs) @ map byte_of CRLF"

lemma read_line_ready:
  assumes "rx_ready c pre post" "rx_stream pre = map byte_of (s @ [LF]) @ rest" "LF \<notin> set s" "length s + 1 < URI_SIZE"
  shows "\<exists>c' pre'. read_buf c URI_SIZE = (int (length s + 1), s @ [LF], c') \<and>
    rx_ready c' pre' post \<and> rx_stream pre' = rest"
  using read_buf_loop_line [OF assms(1-3), of "[]" URI_SIZE NUL] assms(4) by (simp add: read_buf_def)

lemma header_loop_ready:
  assumes "rx_ready c pre post" "rx_stream pre = header_bytes hs @ rest" "\<forall>kv \<in> set hs. good_field kv"
    "header_size + sum_list (map (\<lambda>kv. length (field_line kv)) hs) \<le> HEADER_MAX_SIZE"
  shows "\<exists>c' pre'. header_loop c h header_size = Some (Some 2, c', foldl take_field h hs) \<and>
    rx_ready c' pre' post \<and> rx_stream pre' = rest \<and> rx_frame c c' \<and> last_io c' = clock c'"
  using assms
proof (induction hs arbitrary: c pre h header_size)
  case Nil
  then obtain c' pre' where c': "read_buf c URI_SIZE = (2, CRLF, c')" "rx_ready c' pre' post" "rx_stream pre' = rest"
    using read_line_ready [of c pre post "[CR]" rest] by (auto simp: header_bytes_def URI_SIZE_def BUFFLEN_def)
  with read_buf_frame [OF c'(1)] show ?case by (auto simp: header_loop.simps [of c] cstr_def)
next
  case (Cons kv hs)
  let ?l = "fst kv @ CHR '':'' # SP # snd kv @ [CR]"
  have good: "good_field kv" using Cons.prems(3) by simp
  have line: "field_line kv = ?l @ [LF]" by (simp add: field_line_def)
  have "LF \<notin> set ?l" "length ?l + 1 < URI_SIZE" using good by (auto simp: good_field_def field_line_def)
  then obtain c1 p1 where 1: "read_buf c URI_SIZE = (int (length (field_line kv)), field_line kv, c1)"
      "rx_ready c1 p1 post" "rx_stream p1 = header_bytes hs @ rest"
    using read_line_ready [OF Cons.prems(1), of ?l "header_bytes hs @ rest"] Cons.prems(2)
    unfolding line by (auto simp: header_bytes_def line)
  have c: "cstr (field_line kv) = field_line kv" "field_line kv \<noteq> CRLF"
    using good by (auto intro!: cstr_id simp: is_cstr_def good_field_def field_line_def append_eq_Cons_conv)
  have size: "header_size + length (field_line kv) + sum_list (map (\<lambda>kv. length (field_line kv)) hs) \<le> HEADER_MAX_SIZE"
    using Cons.prems(4) by (simp add: add.assoc)
  then obtain c' pre' where
    "header_loop c1 (take_field h kv) (header_size + length (field_line kv)) = Some (Some 2, c', foldl take_field (take_field h kv) hs)"
    "rx_ready c' pre' post" "rx_stream pre' = rest" "rx_frame c1 c'" "last_io c' = clock c'"
    using Cons.IH [OF 1(2,3)] Cons.prems(3) by fastforce
  moreover have "rx_frame c c1" using read_buf_frame [OF 1(1)] by blast
  moreover have "0 < length (field_line kv)" by (simp add: line)
  ultimately show ?case
    using 1(1) c header_line_field [OF good] size rx_frame_trans by (fastforce simp: header_loop.simps [of c] Let_def)
qed

section \<open>Properties\<close>

lemma take_field_dict:
  "dict_ok (hd_fields h) \<Longrightarrow> dict_ok (hd_fields (foldl take_field h hs)) \<and>
    dict_abs (hd_fields (foldl take_field h hs)) =
      dict_abs (hd_fields h) ++ map_of (rev (map (\<lambda>(k, v). (verify_header k, Some v)) hs))"
proof (induction hs arbitrary: h)
  case (Cons kv hs)
  have "hd_fields (take_field h kv) = dput (hd_fields h) (verify_header (fst kv)) (Some (snd kv))"
    by (simp add: take_field_def Let_def)
  with Cons show ?case
    by (cases kv) (auto simp: dict_ok_dput dict_abs_dput map_add_def fun_eq_iff split: option.splits)
qed simp

text \<open>The fields under the names they are stored by.\<close>

definition canonical_fields :: "field list \<Rightarrow> field list" where
  "canonical_fields hs = map (\<lambda>(k, v). (verify_header k, v)) hs"

lemma take_field_value:
  assumes "dict_ok fields0"
  shows "dvalue (hd_fields (foldl take_field \<lparr>hd_fields = fields0, hd_cookie = ck, hd_host = ho\<rparr> hs)) key =
    (case map_of (rev (canonical_fields hs)) key of Some v \<Rightarrow> Some v | None \<Rightarrow> dvalue fields0 key)"
proof -
  have "map_of (rev (map (\<lambda>(k, v). (verify_header k, Some v)) hs)) key =
      map_option Some (map_of (rev (canonical_fields hs)) key)"
    by (induction hs rule: rev_induct) (auto simp: canonical_fields_def)
  then show ?thesis
    using take_field_dict [of "\<lparr>hd_fields = fields0, hd_cookie = ck, hd_host = ho\<rparr>" hs] assms
    by (auto simp: dvalue_abs map_add_def split: option.splits)
qed

lemma rq_put_simps [simp]:
  "rq_client (rq_put k v rq) = rq_client rq"
  "dict_ok (rq_dict rq) \<Longrightarrow> dict_ok (rq_dict (rq_put k v rq))"
  "dict_ok (rq_dict rq) \<Longrightarrow> rq_str (rq_put k v rq) k' = (if k' = k then (case v of RqStr s \<Rightarrow> Some s | _ \<Rightarrow> None) else rq_str rq k')"
  "dict_ok (rq_dict rq) \<Longrightarrow> rq_sub (rq_put k v rq) k' = (if k' = k then (case v of RqDict d \<Rightarrow> Some d | _ \<Rightarrow> None) else rq_sub rq k')"
  by (auto simp: rq_put_def rq_str_def rq_sub_def dict_ok_dput split: rqval.splits)

text \<open>What comes after the loop, when the request stays on this server.\<close>

lemma finish_header_local:
  assumes "dict_ok (rq_dict rq)" "rq_sub rq ''REQUEST_DATA'' = Some data"
    "\<forall>v. dvalue (hd_fields h) ''Content-Length'' = Some v \<longrightarrow> atoi v \<le> cf_max_upload_size cfg"
    "apply_rules rgx (pc_rules pc) (hd_host h) url = Some (path, query)" "proxy_match path = None" "length url < URI_SIZE"
  shows "\<exists>rq'. finish_header rgx cfg (Some pc) url h rq =
      Some (bind_event rq' (ON_WRITABLE + ON_READABLE) (create_task (Some DecodeRequest) rq'), rq') \<and>
    rq_client rq' = rq_client rq \<and> rq_str rq' ''REQUEST_URI'' = url_decode (Some path) \<and>
    rq_str rq' ''REQUEST_QUERY'' = Some query \<and> rq_sub rq' ''REQUEST_DATA'' = Some (decode_url_request (Some query) data) \<and>
    rq_sub rq' ''REQUEST_HEADER'' = rq_sub rq ''REQUEST_HEADER'' \<and>
    (hd_cookie h \<noteq> None \<longrightarrow> rq_sub rq' ''COOKIE'' = hd_cookie h) \<and> dict_ok (rq_dict rq') \<and>
    (\<forall>key. key \<notin> {''REQUEST_DATA'', ''REQUEST_QUERY'', ''REQUEST_URI'', ''COOKIE''} \<longrightarrow> rq_str rq' key = rq_str rq key)"
proof -
  let ?rq1 = "case hd_cookie h of None \<Rightarrow> rq | Some d \<Rightarrow> rq_put ''COOKIE'' (RqDict d) rq"
  have 1: "dict_ok (rq_dict ?rq1)" "rq_sub ?rq1 ''REQUEST_DATA'' = Some data" "rq_client ?rq1 = rq_client rq"
      "rq_sub ?rq1 ''REQUEST_HEADER'' = rq_sub rq ''REQUEST_HEADER''"
      "hd_cookie h \<noteq> None \<longrightarrow> rq_sub ?rq1 ''COOKIE'' = hd_cookie h"
      "\<And>key. key \<noteq> ''COOKIE'' \<Longrightarrow> rq_str ?rq1 key = rq_str rq key"
    using assms(1,2) by (auto split: option.splits)
  obtain uri where uri: "url_decode (Some path) = Some uri" by (simp add: url_decode_def)
  have "take (URI_SIZE - 1) url = url" using assms(6) by simp
  moreover have "\<not> (case dvalue (hd_fields h) ''Content-Length'' of None \<Rightarrow> False | Some line \<Rightarrow> atoi line > cf_max_upload_size cfg)"
    using assms(3) by (auto split: option.splits)
  ultimately show ?thesis
    using 1 assms(4,5) by (auto simp: finish_header_def check_proxy_def uri Let_def)
qed

lemma header_decoded:
  assumes "rx_ready (rq_client rq) pre post" "rx_stream pre = header_bytes hs @ rest" "\<forall>kv \<in> set hs. good_field kv"
    "sum_list (map (\<lambda>kv. length (field_line kv)) hs) \<le> HEADER_MAX_SIZE"
    and rq: "rq_str rq ''REQUEST_QUERY'' = Some url" "rq_sub rq ''REQUEST_HEADER'' = Some fields0"
    "rq_sub rq ''REQUEST_DATA'' = Some data" "rq_str rq ''SERVER_PORT'' = Some port" "dict_ok (rq_dict rq)" "dict_ok fields0"
    and port: "dvalue (cf_ports cfg) port = Some pc" "\<forall>host. apply_rules rgx (pc_rules pc) host url = Some (path, query)"
    "proxy_match path = None"
    and small: "length url < URI_SIZE" "dvalue fields0 ''Content-Length'' = None"
    "\<forall>v. map_of (rev (canonical_fields hs)) ''Content-Length'' = Some v \<longrightarrow> atoi v \<le> cf_max_upload_size cfg"
  shows "\<exists>rq' pre' fields'. decode_request_header rgx cfg rq =
      Some (bind_event rq' (ON_WRITABLE + ON_READABLE) (create_task (Some DecodeRequest) rq'), rq') \<and>
    rx_ready (rq_client rq') pre' post \<and> rx_stream pre' = rest \<and>
    rq_str rq' ''REQUEST_URI'' = url_decode (Some path) \<and> rq_str rq' ''REQUEST_QUERY'' = Some query \<and>
    rq_sub rq' ''REQUEST_DATA'' = Some (decode_url_request (Some query) data) \<and>
    rq_sub rq' ''REQUEST_HEADER'' = Some fields' \<and>
    (\<forall>key. dvalue fields' key = (case map_of (rev (canonical_fields hs)) key of Some v \<Rightarrow> Some v | None \<Rightarrow> dvalue fields0 key)) \<and>
    rx_frame ((rq_client rq)\<lparr>state := ANTD_CLIENT_HEADER_DECODE\<rparr>) (rq_client rq') \<and> last_io (rq_client rq') = clock (rq_client rq') \<and>
    dict_ok (rq_dict rq') \<and>
    (\<forall>key. key \<notin> {''REQUEST_HEADER'', ''REQUEST_DATA'', ''REQUEST_QUERY'', ''REQUEST_URI'', ''COOKIE''} \<longrightarrow> rq_str rq' key = rq_str rq key)"
proof -
  let ?rq = "set_state ANTD_CLIENT_HEADER_DECODE rq"
  let ?start = "\<lparr>hd_fields = fields0, hd_cookie = None, hd_host = None\<rparr>"
  let ?h = "foldl take_field ?start hs"
  have "rx_ready (rq_client ?rq) pre post" using assms(1) by (simp add: set_state_def rx_ready_def)
  from header_loop_ready [OF this assms(2,3), of 0 ?start] assms(4) obtain c1 pre' where
    loop: "header_loop (rq_client ?rq) ?start 0 = Some (Some 2, c1, ?h)" "rx_ready c1 pre' post" "rx_stream pre' = rest"
    "rx_frame (rq_client ?rq) c1" "last_io c1 = clock c1"
    by auto
  have rq': "rq_str ?rq ''REQUEST_QUERY'' = Some url" "rq_sub ?rq ''REQUEST_HEADER'' = Some fields0"
      "rq_sub ?rq ''REQUEST_DATA'' = Some data" "rq_str ?rq ''SERVER_PORT'' = Some port" "dict_ok (rq_dict ?rq)"
    using rq by (simp_all add: set_state_def rq_str_def rq_sub_def)
  let ?rq1 = "rq_put ''REQUEST_HEADER'' (RqDict (hd_fields ?h)) (?rq\<lparr>rq_client := c1\<rparr>)"
  have ok: "dict_ok (rq_dict (?rq\<lparr>rq_client := c1\<rparr>))" using rq'(5) by simp
  have data: "rq_sub ?rq1 ''REQUEST_DATA'' = Some data"
    using rq'(3) rq_put_simps(4) [OF ok] by (simp add: rq_sub_def)
  note found = take_field_value [OF rq(6), of None None hs]
  have "\<forall>v. dvalue (hd_fields ?h) ''Content-Length'' = Some v \<longrightarrow> atoi v \<le> cf_max_upload_size cfg"
    using small(2,3) by (auto simp: found split: option.splits)
  from finish_header_local [OF rq_put_simps(2) [OF ok] data this _ port(3) small(1), of rgx pc query] port(2)
  obtain rq2 where fin: "finish_header rgx cfg (Some pc) url ?h ?rq1 =
      Some (bind_event rq2 (ON_WRITABLE + ON_READABLE) (create_task (Some DecodeRequest) rq2), rq2)"
      "rq_client rq2 = c1" "rq_str rq2 ''REQUEST_URI'' = url_decode (Some path)" "rq_str rq2 ''REQUEST_QUERY'' = Some query"
      "rq_sub rq2 ''REQUEST_DATA'' = Some (decode_url_request (Some query) data)"
      "rq_sub rq2 ''REQUEST_HEADER'' = Some (hd_fields ?h)" "dict_ok (rq_dict rq2)"
      "\<forall>key. key \<notin> {''REQUEST_DATA'', ''REQUEST_QUERY'', ''REQUEST_URI'', ''COOKIE''} \<longrightarrow> rq_str rq2 key = rq_str ?rq1 key"
    using rq_put_simps(4) [OF ok] by auto
  have "decode_request_header rgx cfg rq = finish_header rgx cfg (Some pc) url ?h ?rq1"
    unfolding decode_request_header_def Let_def by (simp add: rq' loop(1) port(1))
  moreover have "rq_str (?rq\<lparr>rq_client := c1\<rparr>) key = rq_str rq key" for key by (simp add: set_state_def rq_str_def)
  then have "\<forall>key. key \<notin> {''REQUEST_HEADER'', ''REQUEST_DATA'', ''REQUEST_QUERY'', ''REQUEST_URI'', ''COOKIE''} \<longrightarrow>
      rq_str rq2 key = rq_str rq key"
    using fin(8) rq_put_simps(3) [OF ok] by auto
  ultimately show ?thesis using fin(1-7) loop(2-5) found unfolding set_state_def by auto
qed


definition demo_port :: "cstring dictionary \<Rightarrow> port_config" where
  "demo_port rules = (new_port ''80'')\<lparr>pc_htdocs := Some ''/www'', pc_plugins := Some ''fortune'', pc_rules := rules\<rparr>"

definition demo_config :: config where
  "demo_config = default_config\<lparr>cf_tmpdir := ''/tmp'', cf_max_upload_size := 1000,
     cf_ports := dput dict ''80'' (Some (demo_port dict))\<rparr>"

definition demo_request :: "u8 list \<Rightarrow> request" where
  "demo_request bytes =
     \<lparr>rq_client = demo_client\<lparr>rx := [(0, RxData (hd bytes) (tl bytes))], tx := []\<rparr>,
      rq_dict = dput (dput (dput (dput (dput dict ''METHOD'' (Some (RqStr ''GET''))) ''REQUEST_QUERY'' (Some (RqStr ''/x?a=1'')))
        ''REQUEST_HEADER'' (Some (RqDict dict))) ''REQUEST_DATA'' (Some (RqDict dict))) ''SERVER_PORT'' (Some (RqStr ''80''))\<rparr>"

lemma demo_request_facts:
  "rq_str (demo_request bs) ''REQUEST_QUERY'' = Some ''/x?a=1''" "rq_sub (demo_request bs) ''REQUEST_HEADER'' = Some dict"
  "rq_sub (demo_request bs) ''REQUEST_DATA'' = Some dict" "rq_str (demo_request bs) ''SERVER_PORT'' = Some ''80''"
  "dict_ok (rq_dict (demo_request bs))" "rq_str (demo_request bs) ''METHOD'' = Some ''GET''"
  by (simp_all add: demo_request_def rq_str_def rq_sub_def dict_ok_dput)

lemma demo_request_ready:
  "bs \<noteq> [] \<Longrightarrow> rx_ready (rq_client (demo_request bs)) [(0, RxData (hd bs) (tl bs))] [] \<and>
    rx_stream [(0, RxData (hd bs) (tl bs))] = bs"
  by (simp add: demo_request_def rx_ready_def MAX_IO_WAIT_TIME_def)

lemma demo_rules: "apply_rules rgx dict host ''/x?a=1'' = Some (''/x'', ''a=1'')"
  by (simp add: apply_rules_def dict_def split_query_def)


text \<open>C36. A line without a colon that reads \<open>Host\<close> or \<open>Cookie\<close>, in any case, makes the decoder
  duplicate a null string, so any peer can bring the server down with one short line.\<close>

theorem header_null_dereference:
  assumes "rx_ready (rq_client rq) pre post" "rx_stream pre = map byte_of (name @ CRLF) @ rest"
    "strcasecmp_eq name ''Host'' \<or> strcasecmp_eq name ''Cookie''"
  shows "decode_request_header rgx cfg rq = None"
proof -
  have low: "c_tolower c = c" if "c \<in> {NUL, LF, CR, SP, CHR '':''}" for c
    using that by (auto simp: c_tolower_def c_isupper_def code_of_def)
  have "map c_tolower ''Host'' = ''host''" "map c_tolower ''Cookie'' = ''cookie''" by code_simp+
  then have name: "map c_tolower name = ''host'' \<or> map c_tolower name = ''cookie''"
    using assms(3) by (simp add: strcasecmp_eq_def)
  then have t: "c_tolower ` set name \<subseteq> set ''hostcookie''" and ne: "name \<noteq> []"
    by (auto simp flip: set_map)
  have "c \<notin> set name" if "c \<in> {NUL, LF, CR, SP, CHR '':''}" for c
  proof
    assume "c \<in> set name"
    then have "c_tolower c \<in> set ''hostcookie''" using t by blast
    then show False using low [OF that] that by auto
  qed
  then have free: "NUL \<notin> set name" "LF \<notin> set name" "CR \<notin> set name" "SP \<notin> set name" "CHR '':'' \<notin> set name" by blast+
  then have ends: "hd name \<notin> {LF, CR}" "last name \<notin> {LF, CR}" "hd name \<noteq> SP \<and> last name \<noteq> SP"
    using hd_in_set [OF ne] last_in_set [OF ne] by (simp_all, metis+)
  have len: "length name \<le> 6" using name by (auto dest!: arg_cong [of _ _ length])
  have "trim name SP = name" using ends(3) by (simp add: str_simps)
  then have crash: "header_line (name @ CRLF) h = None" for h
    using assms(3) free(5) trim_line_end [OF ne ends(1,2)]
    by (auto simp: header_line_def str_simps Let_def)
  let ?rq = "set_state ANTD_CLIENT_HEADER_DECODE rq"
  have "rx_ready (rq_client ?rq) pre post" using assms(1) by (simp add: set_state_def rx_ready_def)
  then obtain c1 where "read_buf (rq_client ?rq) URI_SIZE = (int (length name + 2), name @ CRLF, c1)"
    using read_line_ready [of _ pre post "name @ [CR]" rest] assms(2) free(2) len
    by (force simp: URI_SIZE_def BUFFLEN_def)
  moreover have "cstr (name @ CRLF) = name @ CRLF" using free(1) by (intro cstr_id) (auto simp: is_cstr_def)
  ultimately have "header_loop (rq_client ?rq) h 0 = None" for h
    using crash ne by (simp add: header_loop.simps [of "rq_client ?rq"])
  then show ?thesis by (simp add: decode_request_header_def Let_def split: Option.bind_splits)
qed

theorem header_null_dereference_witness:
  "decode_request_header (\<lambda>k s. None) demo_config (demo_request (map byte_of (''host'' @ CRLF))) = None"
proof -
  note r = demo_request_ready [of "map byte_of (''host'' @ CRLF)"]
  have "strcasecmp_eq ''host'' ''Host''" by code_simp
  then show ?thesis using r header_null_dereference [of "demo_request (map byte_of (''host'' @ CRLF))" _ "[]" "''host''" "[]"]
    by auto
qed



end
