(* ===== verification/Upload.thy ===== *)
theory Upload
  imports Request
begin

text \<open>
  Decoding of a request body in \<open>decode.c\<close>: form data in the body (\<open>post_data_decode\<close>), multi-part
  form data and file uploads (\<open>decode_multi_part_request\<close>, \<open>decode_multi_part_request_data\<close>),
  and the dispatch (\<open>decode_post_request\<close>).  The file system is \<open>fs_open\<close>, which tells
  the paths \<open>open\<close> succeeds for, and the list of files written; a regular file takes every
  write.
\<close>

section \<open>Form data in the body\<close>

lemma recv_upto_moved:
  assumes "antd_recv_upto c n = (r, bs, c1)" "0 < n"
  shows "0 < r \<Longrightarrow> bs \<noteq> [] \<and> length bs \<le> n \<and> length (rx c1) \<le> length (rx c)"
    "r = 0 \<Longrightarrow> length (rx c1) < length (rx c)"
proof -
  have data: "0 < r \<and> bs \<noteq> [] \<and> length bs \<le> n \<and> length (rx c1) \<le> length (rx c)"
    if rx: "rx c = (d, RxData b bs') # rest" for d b bs' rest
  proof -
    obtain got c2 where s: "sys_read n c = (IoMoved got, c2)" using rx by (simp add: sys_read_def Let_def)
    from sys_read_moved [OF s assms(2)] s assms(1) rx show ?thesis by (auto simp: antd_recv_upto_def)
  qed
  have other: "r \<le> 0 \<and> (r = 0 \<longrightarrow> length (rx c1) < length (rx c))" if "\<forall>d b bs' rest. rx c \<noteq> (d, RxData b bs') # rest"
    using assms(1) that
    by (auto simp: antd_recv_upto_def rx_fail_def tick_def Let_def
        split: list.splits prod.splits rx_ev.splits if_splits tls_err.splits)
  show "0 < r \<Longrightarrow> bs \<noteq> [] \<and> length bs \<le> n \<and> length (rx c1) \<le> length (rx c)"
    "r = 0 \<Longrightarrow> length (rx c1) < length (rx c)"
    using data other by force+
qed

text \<open>The loop of \<open>post_data_decode\<close>: an answer of 0 is tried again until the peer has been silent for
  too long.\<close>

function post_loop :: "int \<Rightarrow> u8 list \<Rightarrow> client \<Rightarrow> u8 list \<times> client" where
  "post_loop len acc c =
     (let readlen = io_chunk len (length acc) in
      if readlen > 0 then
        (case antd_recv_upto c (nat readlen) of
           (stat, bs, c1) \<Rightarrow>
             if stat > 0 then post_loop len (acc @ bs) c1
             else if stat = 0 \<and> \<not> timed_out c1 then post_loop len acc c1
             else (acc, c1))
      else (acc, c))"
  by pat_completeness auto
termination
proof (relation "measure (\<lambda>(len, acc, c). nat (len - int (length acc)) + length (rx c))", goal_cases)
  case (2 len acc c readlen stat y bs c1)
  then have r: "antd_recv_upto c (nat readlen) = (stat, bs, c1)" "0 < nat readlen" by auto
  then have "bs \<noteq> []" "length (rx c1) \<le> length (rx c)"
    using recv_upto_moved(1) [OF r] 2 by auto
  moreover have "0 < len - int (length acc)" using 2 by (auto simp: io_chunk_def split: if_splits)
  ultimately show ?case by (cases bs) auto
next
  case (3 len acc c readlen stat y bs c1)
  then have r: "antd_recv_upto c (nat readlen) = (stat, bs, c1)" "0 < nat readlen" by auto
  then have "length (rx c1) < length (rx c)" using recv_upto_moved(2) [OF r] 3 by auto
  then show ?case by simp
qed simp

declare post_loop.simps [simp del]

definition post_data_decode :: "client \<Rightarrow> int \<Rightarrow> cstring option \<times> client" where
  "post_data_decode c len =
     (case post_loop len [] c of
        (bs, c1) \<Rightarrow> (if length bs > 0 then Some (cstr (map char_of_byte bs)) else None, c1))"

section \<open>Multi-part data\<close>

lemma read_buf_loop_stream:
  "read_buf_loop sz buf ch c = (n, buf', c') \<Longrightarrow>
    \<exists>got. buf' = buf @ got \<and> rx_stream (rx c) = map byte_of got @ rx_stream (rx c') \<and> n = int (length buf')"
proof (induction sz buf ch c rule: read_buf_loop.induct)
  case (1 sz buf ch c)
  show ?case
  proof (cases "length buf < sz - 1 \<and> ch \<noteq> LF")
    case False
    with "1.prems" show ?thesis by (auto simp: read_buf_loop.simps [of sz buf])
  next
    case True
    obtain m bytes c1 where r: "antd_recv c 1 = (m, bytes, c1)" by (cases "antd_recv c 1")
    from r have spec: "rx_stream (rx c) = bytes @ rx_stream (rx c1)" "m = int (length bytes) \<or> m \<le> 0 \<and> bytes = []"
        "length bytes \<le> 1"
      using recv_loop_spec [of 1 "[]" c m bytes c1] recv_loop_bound [of 1 "[]" c m bytes c1]
      by (auto simp: antd_recv_def)
    show ?thesis
    proof (cases "m > 0")
      case False
      with spec(2) have "bytes = []" by auto
      with spec(1) "1.IH"(2) [OF True r [symmetric] refl False] "1.prems" True r False show ?thesis
        by (simp add: read_buf_loop.simps [of sz buf ch])
    next
      case m: True
      then obtain b where b: "bytes = [b]" using spec(2,3) by (cases bytes) auto
      have "read_buf_loop sz (buf @ [char_of_byte b]) (char_of_byte b) c1 = (n, buf', c')"
        using "1.prems" True r m b by (simp add: read_buf_loop.simps [of sz buf ch] Let_def)
      from "1.IH"(1) [OF True r [symmetric] refl m refl, unfolded b list.sel, OF this] spec(1) b show ?thesis
        by auto
    qed
  qed
qed

lemma read_buf_shrinks:
  assumes "read_buf c sz = (n, buf, c')" "0 < n"
  shows "length (rx_stream (rx c')) < length (rx_stream (rx c))"
  using read_buf_loop_stream [OF assms(1) [unfolded read_buf_def]] assms(2) by auto

text \<open>\<open>while ((len = read_buf(...)) > 0 && !found(buf));\<close> with the last result and buffer.\<close>

function skip_until :: "(cstring \<Rightarrow> bool) \<Rightarrow> client \<Rightarrow> int \<times> char list \<times> client" where
  "skip_until found c =
     (case read_buf c BUFFLEN of
        (len, buf, c1) \<Rightarrow> if len > 0 \<and> \<not> found (cstr buf) then skip_until found c1 else (len, buf, c1))"
  by pat_completeness auto
termination
  by (relation "measure (\<lambda>(found, c). length (rx_stream (rx c)))") (simp, metis in_measure old.prod.case read_buf_shrinks)

declare skip_until.simps [simp del]

text \<open>The same loop with a body: everything read before the boundary.\<close>

function read_part :: "cstring \<Rightarrow> client \<Rightarrow> char list \<Rightarrow> nat \<Rightarrow> char list \<times> nat \<times> char list \<times> client" where
  "read_part boundary c acc turns =
     (case read_buf c BUFFLEN of
        (len, buf, c1) \<Rightarrow>
          if len > 0 \<and> \<not> strstr (cstr buf) boundary then read_part boundary c1 (acc @ buf) (Suc turns)
          else (acc, turns, buf, c1))"
  by pat_completeness auto
termination
  by (relation "measure (\<lambda>(boundary, c, acc, turns). length (rx_stream (rx c)))")
    (simp, metis in_measure old.prod.case read_buf_shrinks)

declare read_part.simps [simp del]

text \<open>The parameters of the \<open>Content-Disposition\<close> line: name and file name.\<close>

definition part_param :: "cstring option \<times> cstring option \<Rightarrow> cstring \<Rightarrow> cstring option \<times> cstring option" where
  "part_param ps token =
     (case strsep ''='' token of
        (keytoken, None) \<Rightarrow> ps
      | (keytoken, Some rest) \<Rightarrow>
          if length keytoken > 0 then
            let key = trim keytoken SP;
                val = trim (trim (trim (trim (fst (strsep ''='' rest)) SP) LF) CR) CHR 0x22
            in if key = ''name'' then (Some val, snd ps)
               else if key = ''filename'' then (fst ps, Some val) else ps
          else ps)"

type_synonym written = "cstring \<times> u8 list"

text \<open>A file that was written: \<open>ftruncate\<close> cuts two bytes, and fails when there are fewer.\<close>

definition upload_path :: "config \<Rightarrow> client \<Rightarrow> cstring \<Rightarrow> cstring" where
  "upload_path cfg c part_file = cf_tmpdir cfg @ ''/'' @ part_file @ ''.'' @ dec_nat (nat (clock c mod 2 ^ 32))"

definition cut_end :: "char list \<Rightarrow> u8 list" where
  "cut_end content = map byte_of (if length content < 2 then content else take (length content - 2) content)"

definition decode_multi_part_request_data ::
  "(cstring \<Rightarrow> bool) \<Rightarrow> config \<Rightarrow> request \<Rightarrow> (reply \<times> request \<times> written list) option" where
  "decode_multi_part_request_data fs_open cfg rq =
     do {
       let task = bind_event rq (ON_WRITABLE + ON_READABLE) (create_task None rq);
       boundary \<leftarrow> rq_str rq ''MULTI_PART_BOUNDARY'';
       dic \<leftarrow> rq_sub rq ''REQUEST_DATA'';
       let (len, buf, c1) = skip_until (\<lambda>s. strstr s ''Content-Disposition:'') (rq_client rq);
       (if len \<le> 0 \<or> \<not> strstr (cstr buf) ''Content-Disposition:'' then Some (task, rq\<lparr>rq_client := c1\<rparr>, [])
        else
          let (part_name, part_file) = foldl part_param (None, None) (strsep_all '';'' (cstr buf));
              (line, dic', files, c2) =
                (case part_name of
                   None \<Rightarrow> (None, dic, [], c1)
                 | Some name \<Rightarrow>
                     let (len3, buf3, c3) = skip_until (is_prefix_of CRLF) c1 in
                     (case part_file of
                        None \<Rightarrow>
                          let (len4, buf4, c4) = read_buf c3 BUFFLEN;
                              dic4 = (if len4 > 0
                                      then dput dic name (Some (trim (trim (trim (cstr buf4) LF) CR) SP)) else dic);
                              (acc, turns, buf5, c5) = read_part boundary c4 [] 0
                          in (if len4 > 0 \<or> turns > 0 then Some (cstr buf5) else None, dic4, [], c5)
                      | Some pfile \<Rightarrow>
                          let path = upload_path cfg c3 pfile in
                          if fs_open path then
                            let (content, turns, buf5, c5) = read_part boundary c3 [] 0;
                                totalsize = int (length content) - 2;
                                dic5 = dput (dput (dput (dput dic
                                  (name @ ''.file'') (Some pfile))
                                  (name @ ''.tmp'') (Some path))
                                  (name @ ''.size'') (Some (dec_int totalsize)))
                                  (name @ ''.ext'') (ext (Some pfile))
                            in (Some (cstr buf5), dic5, [(path, cut_end content)], c5)
                          else (None, dic, [], c3)));
              rq1 = rq_put ''REQUEST_DATA'' (RqDict dic') (rq\<lparr>rq_client := c2\<rparr>);
              task1 = task\<lparr>rp_access := last_io c2\<rparr>
          in case line of
               None \<Rightarrow> Some (task1, rq1, files)
             | Some l \<Rightarrow>
                 if strstr l (boundary @ ''--'') then Some (task1, rq1, files)
                 else if strstr l boundary then Some (task1\<lparr>rp_handle := Some DecodeMultiPartData\<rparr>, rq1, files)
                 else Some (task1, rq1, files))
     }"

text \<open>\<open>strsep\<close> cuts the header value in place, so the boundary is gone from \<open>Content-Type\<close>
  afterwards.\<close>

definition decode_multi_part_request :: "request \<Rightarrow> cstring dictionary \<Rightarrow> cstring \<Rightarrow> (reply \<times> request) option" where
  "decode_multi_part_request rq headers ctype =
     (let task = bind_event rq (ON_WRITABLE + ON_READABLE) (create_task None rq) in
      case strsep ''='' ctype of
        (first, None) \<Rightarrow> Some (task, rq)
      | (first, Some boundary) \<Rightarrow>
          let rq1 = rq_put ''REQUEST_HEADER'' (RqDict (dput headers ''Content-Type'' (Some first))) rq in
          if length boundary > 0 then
            let b = trim boundary SP;
                (len, buf, c1) = skip_until (\<lambda>s. strstr s b) (rq_client rq1);
                rq2 = rq_put ''MULTI_PART_BOUNDARY'' (RqStr b) (rq1\<lparr>rq_client := c1\<rparr>)
            in Some (if len > 0 then task\<lparr>rp_handle := Some DecodeMultiPartData\<rparr> else task, rq2)
          else Some (task, rq1))"

section \<open>Dispatch\<close>

definition FORM_URL_ENCODE :: cstring where "FORM_URL_ENCODE = ''application/x-www-form-urlencoded''"
definition FORM_MULTI_PART :: cstring where "FORM_MULTI_PART = ''multipart/form-data''"
definition ANTD_CLIENT_RQ_DATA_DECODE :: nat where "ANTD_CLIENT_RQ_DATA_DECODE = 7"

definition decode_post_request :: "request \<Rightarrow> (reply \<times> request) option" where
  "decode_post_request rq0 =
     do {
       let rq = set_state ANTD_CLIENT_RQ_DATA_DECODE rq0;
       request \<leftarrow> rq_sub rq ''REQUEST_DATA'';
       headers \<leftarrow> rq_sub rq ''REQUEST_HEADER'';
       let clen = (case dvalue headers ''Content-Length'' of None \<Rightarrow> -1 | Some tmp \<Rightarrow> atoi tmp);
       let task = create_task None rq;
       (if rq_str rq ''METHOD'' \<notin> {Some ''POST'', Some ''PUT'', Some ''PATCH''} then Some (task, rq)
        else
          case dvalue headers ''Content-Type'' of
            None \<Rightarrow> Some (task, rq_error 400 ''Bad Request, missing content description'' rq)
          | Some ctype \<Rightarrow>
              if clen = -1 then Some (task, rq_error 400 ''Bad Request, missing content description'' rq)
              else if strstr ctype FORM_URL_ENCODE then
                (case post_data_decode (rq_client rq) clen of
                   (Some pquery, c1) \<Rightarrow>
                     let rq1 = rq_put ''REQUEST_DATA'' (RqDict (decode_url_request (Some pquery) request)) (rq\<lparr>rq_client := c1\<rparr>)
                     in Some (bind_event rq1 ON_WRITABLE task, rq1)
                 | (None, c1) \<Rightarrow>
                     let rq1 = rq\<lparr>rq_client := c1\<rparr> in
                     if clen > 0 then Some (task, rq_error 400 ''Bad Request, missing content data'' rq1)
                     else Some (bind_event rq1 ON_WRITABLE task, rq1))
              else if strstr ctype FORM_MULTI_PART then decode_multi_part_request rq headers ctype
              else
                let rq1 = rq_put ''REQUEST_DATA'' (RqDict (dput request ''HAS_RAW_BODY'' (Some ''true''))) rq
                in Some (bind_event rq1 ON_WRITABLE task, rq1))
     }"

section \<open>Reading form data\<close>

lemma antd_recv_upto_ready:
  assumes "rx_ready c pre post" "rx_stream pre \<noteq> []" "0 < n"
  obtains (moved) got c' pre' where "antd_recv_upto c n = (int (length got), got, c')" "got \<noteq> []" "length got \<le> n"
      "rx_ready c' pre' post" "rx_stream pre = got @ rx_stream pre'"
  | (retry) c' pre' where "antd_recv_upto c n = (0, [], c')" "\<not> timed_out c'" "rx_ready c' pre' post"
      "rx_stream pre' = rx_stream pre"
proof -
  from assms(2) obtain d ev rest where pre: "pre = (d, ev) # rest" by (cases pre) auto
  have rx: "rx c = (d, ev) # rest @ post" using assms(1) pre by (simp add: rx_ready_def)
  show thesis
  proof (cases ev)
    case (RxData b bs)
    from assms show thesis
    proof (cases rule: sys_read_ready)
      case (moved got c' pre')
      with sys_read_moved [OF moved(1) assms(3)] rx RxData show thesis
        by (intro that(1) [of got c' pre']) (simp_all add: antd_recv_upto_def)
    next
      case (retry c' pre')
      with rx RxData show thesis by (simp add: sys_read_def Let_def)
    qed
  next
    case (RxErr again)
    with rx assms(1) pre show thesis
      by (intro that(2) [of "snd (snd (antd_recv_upto c n))" rest])
        (auto simp: rx_ready_def antd_recv_upto_def rx_fail_def tick_def timed_out_def algebra_simps)
  next
    case (RxTls r err)
    with rx assms(1) pre show thesis
      by (intro that(2) [of "snd (snd (antd_recv_upto c n))" rest])
        (auto simp: rx_ready_def antd_recv_upto_def rx_fail_def tick_def timed_out_def tls_again_def algebra_simps)
  next
    case RxClosed
    with assms(1) pre show thesis by (simp add: rx_ready_def)
  qed
qed

lemma post_loop_ready:
  assumes "rx_ready c pre post" "len - int (length acc) \<le> int (length (rx_stream pre))" "int (length acc) \<le> len"
  shows "\<exists>c' pre'. post_loop len acc c = (acc @ take (nat len - length acc) (rx_stream pre), c') \<and>
    rx_ready c' pre' post \<and> rx_stream pre' = drop (nat len - length acc) (rx_stream pre)"
  using assms
proof (induction len acc c arbitrary: pre rule: post_loop.induct)
  case (1 len acc c)
  let ?n = "io_chunk len (length acc)"
  show ?case
  proof (cases "?n > 0")
    case False
    with 1(5) have "len = int (length acc)" by (auto simp: io_chunk_def BUFFLEN_def split: if_splits)
    with False 1(3) show ?thesis by (auto simp: post_loop.simps [of "int (length acc)" acc])
  next
    case True
    then have more: "int (length acc) < len" by (auto simp: io_chunk_def split: if_splits)
    with 1(4) have ne: "rx_stream pre \<noteq> []" by auto
    from True have "0 < nat ?n" by simp
    with 1(3) ne show ?thesis
    proof (cases rule: antd_recv_upto_ready)
      case (moved got c1 pre')
      have le: "nat ?n \<le> nat len - length acc" by (rule io_chunk_le)
      have "\<exists>c' pre''. post_loop len (acc @ got) c1 =
          ((acc @ got) @ take (nat len - length (acc @ got)) (rx_stream pre'), c') \<and>
          rx_ready c' pre'' post \<and> rx_stream pre'' = drop (nat len - length (acc @ got)) (rx_stream pre')"
        by (rule 1(1) [OF refl True moved(1) [symmetric] refl _ moved(4)])
          (use le more moved(2,3,5) 1(4) in auto)
      with le True moved show ?thesis by (auto simp: post_loop.simps [of len acc] Let_def)
    next
      case (retry c1 pre')
      have "\<exists>c' pre''. post_loop len acc c1 = (acc @ take (nat len - length acc) (rx_stream pre'), c') \<and>
          rx_ready c' pre'' post \<and> rx_stream pre'' = drop (nat len - length acc) (rx_stream pre')"
        by (rule 1(2) [OF refl True retry(1) [symmetric] refl _ _ retry(3)])
          (use 1(4,5) retry(2,4) in auto)
      with True retry show ?thesis by (auto simp: post_loop.simps [of len acc] Let_def)
    qed
  qed
qed

lemma post_data_decode_ready:
  assumes "rx_ready c pre post" "rx_stream pre = map byte_of body @ rest" "is_cstr body" "body \<noteq> []"
  shows "\<exists>c' pre'. post_data_decode c (int (length body)) = (Some body, c') \<and> rx_ready c' pre' post \<and> rx_stream pre' = rest"
  using post_loop_ready [OF assms(1), of "int (length body)" "[]"] assms(2-4)
  by (auto simp: post_data_decode_def comp_def cstr_id)

section \<open>Properties\<close>

text \<open>C11. Form data in a body: a POST, PUT or PATCH request with the content type of a form and a
  length is answered by reading exactly that many bytes, however they arrive, and storing exactly
  the pairs they encode next to those of the query string; what follows the body stays unread.\<close>

theorem post_form_decoded:
  assumes "rx_ready (rq_client rq) pre post" "rx_stream pre = map byte_of body @ rest" "is_cstr body" "body \<noteq> []"
    "length body < 2 ^ 31"
    and form: "body = join_with CHR ''&'' (map query_pair kvs)"
    "\<forall>(k, v) \<in> set kvs. k \<noteq> [] \<and> set k \<inter> {CHR ''&'', CHR ''=''} = {} \<and> is_cstr v"
    and rq: "dict_ok (rq_dict rq)" "rq_str rq ''METHOD'' \<in> {Some ''POST'', Some ''PUT'', Some ''PATCH''}"
    "rq_sub rq ''REQUEST_DATA'' = Some data" "dict_ok data" "rq_sub rq ''REQUEST_HEADER'' = Some headers"
    "dvalue headers ''Content-Type'' = Some ctype" "strstr ctype FORM_URL_ENCODE"
    "dvalue headers ''Content-Length'' = Some (dec_nat (length body))"
  shows "\<exists>task rq' pre' data'. decode_post_request rq = Some (task, rq') \<and>
    rp_handle task = None \<and> rp_events task = [(sock (rq_client rq'), 0, ON_WRITABLE)] \<and>
    rx_ready (rq_client rq') pre' post \<and> rx_stream pre' = rest \<and>
    rq_sub rq' ''REQUEST_DATA'' = Some data' \<and>
    dict_abs data' = dict_abs data ++ map_of (rev (map (\<lambda>(k, v). (k, Some v)) kvs))"
proof -
  let ?rq = "set_state ANTD_CLIENT_RQ_DATA_DECODE rq"
  have "rx_ready (rq_client ?rq) pre post" using assms(1) by (simp add: set_state_def rx_ready_def)
  from post_data_decode_ready [OF this assms(2-4)] obtain c' pre' where
    c': "post_data_decode (rq_client ?rq) (int (length body)) = (Some body, c')" "rx_ready c' pre' post" "rx_stream pre' = rest"
    by blast
  have rq': "rq_str ?rq ''METHOD'' = rq_str rq ''METHOD''" "rq_sub ?rq ''REQUEST_DATA'' = Some data"
      "rq_sub ?rq ''REQUEST_HEADER'' = Some headers"
    using rq by (simp_all add: set_state_def rq_str_def rq_sub_def)
  have len: "atoi (dec_nat (length body)) = int (length body)" by (rule atoi_dec_nat [OF assms(5)])
  let ?rq1 = "rq_put ''REQUEST_DATA'' (RqDict (decode_url_request (Some body) data)) (?rq\<lparr>rq_client := c'\<rparr>)"
  have "decode_post_request rq = Some (bind_event ?rq1 ON_WRITABLE (create_task None ?rq), ?rq1)"
    using rq(2,6-8) c'(1) rq' len by (auto simp: decode_post_request_def Let_def)
  moreover have "rq_sub ?rq1 ''REQUEST_DATA'' = Some (decode_url_request (Some body) data)"
    using rq(1) by (simp add: set_state_def)
  moreover have "dict_abs (decode_url_request (Some body) data) =
      dict_abs data ++ map_of (rev (map (\<lambda>(k, v). (k, Some v)) kvs))"
    using decode_query_pairs [OF rq(4) form(2)] form(1) by simp
  ultimately show ?thesis using c'(2,3)
    by (intro exI [of _ "bind_event ?rq1 ON_WRITABLE (create_task None ?rq)"] exI [of _ ?rq1])
      (auto simp: bind_event_def create_task_def)
qed

definition form_request :: "cstring \<Rightarrow> cstring \<Rightarrow> u8 list \<Rightarrow> request" where
  "form_request ctype len body =
     rq_put ''METHOD'' (RqStr ''POST'')
      (rq_put ''REQUEST_HEADER''
        (RqDict (dput (dput dict ''Content-Type'' (Some ctype)) ''Content-Length'' (Some len)))
        (demo_request body))"

lemma form_request_facts:
  "rq_sub (form_request ct len bs) ''REQUEST_HEADER'' =
     Some (dput (dput dict ''Content-Type'' (Some ct)) ''Content-Length'' (Some len))"
  "rq_sub (form_request ct len bs) ''REQUEST_DATA'' = Some dict" "dict_ok (rq_dict (form_request ct len bs))"
  "rq_str (form_request ct len bs) ''METHOD'' = Some ''POST''" "rq_client (form_request ct len bs) = rq_client (demo_request bs)"
  by (simp_all add: form_request_def demo_request_facts)

theorem post_form_decoded_witness:
  "\<exists>task rq' data'. decode_post_request (form_request FORM_URL_ENCODE ''9'' (map byte_of ''a=x+y&b=1'')) = Some (task, rq') \<and>
     rq_sub rq' ''REQUEST_DATA'' = Some data' \<and> dict_abs data' ''a'' = Some (Some ''x y'') \<and> dict_abs data' ''b'' = Some (Some ''1'')"
proof -
  let ?body = "''a=x+y&b=1''"
  let ?rq = "form_request FORM_URL_ENCODE ''9'' (map byte_of ?body)"
  have "join_with CHR ''&'' (map query_pair [(''a'', ''x y''), (''b'', ''1'')]) = ?body" by code_simp
  moreover have "dec_nat (length ?body) = ''9''" by code_simp
  moreover have "strstr FORM_URL_ENCODE FORM_URL_ENCODE" by (auto simp: strstr_iff intro: exI [of _ "[]"])
  moreover have "is_cstr ?body" by (simp add: is_cstr_def)
  ultimately show ?thesis
    using post_form_decoded [of ?rq _ "[]" ?body "[]" "[(''a'', ''x y''), (''b'', ''1'')]" dict _ FORM_URL_ENCODE]
      demo_request_ready [of "map byte_of ?body"] form_request_facts [of FORM_URL_ENCODE "''9''" "map byte_of ?body"]
    by (fastforce simp: is_cstr_def dict_ok_dput)
qed

section \<open>Reading up to a boundary\<close>

text \<open>What one call of \<open>read_buf\<close> takes: a line, or a full buffer without line feed.\<close>

definition buf_line :: "nat \<Rightarrow> char list \<Rightarrow> bool" where
  "buf_line sz l \<longleftrightarrow> l \<noteq> [] \<and> LF \<notin> set (butlast l) \<and>
     (last l = LF \<and> length l \<le> sz - 1 \<or> last l \<noteq> LF \<and> length l = sz - 1)"

lemma read_buf_loop_upto:
  assumes "rx_ready c pre post" "rx_stream pre = map byte_of l @ rest" "LF \<notin> set l" "length buf + length l \<le> sz - 1" "ch \<noteq> LF"
  shows "\<exists>c' pre' ch'. read_buf_loop sz buf ch c = read_buf_loop sz (buf @ l) ch' c' \<and> ch' \<noteq> LF \<and>
    rx_ready c' pre' post \<and> rx_stream pre' = rest"
  using assms
proof (induction l arbitrary: buf ch c pre)
  case (Cons x l)
  have "1 \<le> length (rx_stream pre)" using Cons.prems(2) by simp
  then obtain c1 pre1 where "antd_recv c (int 1) = (int 1, take 1 (rx_stream pre), c1)"
      "rx_ready c1 pre1 post" "rx_stream pre1 = drop 1 (rx_stream pre)"
    by (rule antd_recv_ready [OF Cons.prems(1)])
  then have c1: "antd_recv c 1 = (1, [byte_of x], c1)" "rx_ready c1 pre1 post" "rx_stream pre1 = map byte_of l @ rest"
    using Cons.prems(2) by simp_all
  have "x \<noteq> LF" using Cons.prems(3) by auto
  with Cons.IH [OF c1(2,3), of "buf @ [x]" x] Cons.prems c1(1) show ?case
    by (simp add: read_buf_loop.simps [of sz buf ch])
qed auto

lemma read_chunk_ready:
  assumes "rx_ready c pre post" "rx_stream pre = map byte_of l @ rest" "buf_line sz l"
  shows "\<exists>c' pre'. read_buf c sz = (int (length l), l, c') \<and> rx_ready c' pre' post \<and> rx_stream pre' = rest"
proof (cases "last l = LF")
  case True
  define m where "m = butlast l"
  have "l \<noteq> []" using assms(3) by (simp add: buf_line_def)
  with True have l: "l = m @ [LF]" unfolding m_def by (metis append_butlast_last_id)
  have m: "LF \<notin> set m" "length m + 1 \<le> sz - 1" using assms(3) by (simp_all add: buf_line_def l)
  from read_buf_loop_line [OF assms(1) _ m(1), of rest "[]" sz NUL] assms(2) m(2) show ?thesis
    by (simp add: read_buf_def l add.commute)
next
  case False
  with assms(3) have l: "l \<noteq> []" "LF \<notin> set (butlast l)" "length l = sz - 1" by (auto simp: buf_line_def)
  have "set l = insert (last l) (set (butlast l))" using l(1) by (metis append_butlast_last_id Un_insert_right list.set(1,2) set_append sup_bot_right)
  with False l(2) have "LF \<notin> set l" by auto
  from read_buf_loop_upto [OF assms(1,2) this, of "[]" sz NUL] l(3) show ?thesis
    by (auto simp: read_buf_def read_buf_loop.simps [of sz l])
qed

text \<open>Data that ends with a line feed falls into such pieces, whatever it holds.\<close>

lemma buf_lines_exist:
  assumes "2 \<le> sz" "s = [] \<or> last s = LF"
  shows "\<exists>ls. s = concat ls \<and> (\<forall>l \<in> set ls. buf_line sz l)"
  using assms(2)
proof (induction "length s" arbitrary: s rule: less_induct)
  case less
  show ?case
  proof (cases "s = []")
    case True
    then show ?thesis by (intro exI [of _ "[]"]) simp
  next
    case False
    then have "LF \<in> set s" using less.prems by (metis last_in_set)
    then obtain a b where ab: "s = a @ LF # b" "LF \<notin> set a" by (meson split_list_first)
    define l where "l = (if length a < sz - 1 then a @ [LF] else take (sz - 1) a)"
    define r where "r = drop (length l) s"
    have l: "buf_line sz l" "s = l @ r"
      using ab assms(1) by (auto simp: l_def r_def buf_line_def min_absorb2 dest!: in_set_butlastD in_set_takeD) 
    have "length r < length s" "r = [] \<or> last r = LF"
      using l less.prems by (auto simp: buf_line_def last_append split: if_splits)
    from less.hyps [OF this] obtain ls where "r = concat ls" "\<forall>l \<in> set ls. buf_line sz l" by blast
    with l show ?thesis by (intro exI [of _ "l # ls"]) simp
  qed
qed

lemma skip_until_ready:
  assumes "rx_ready c pre post" "rx_stream pre = map byte_of (concat ls @ dl) @ rest"
    "\<forall>l \<in> set ls. buf_line BUFFLEN l \<and> \<not> found (cstr l)" "buf_line BUFFLEN dl" "found (cstr dl)"
  shows "\<exists>c' pre'. skip_until found c = (int (length dl), dl, c') \<and> rx_ready c' pre' post \<and> rx_stream pre' = rest"
  using assms(1-3)
proof (induction ls arbitrary: c pre)
  case Nil
  from read_chunk_ready [OF Nil(1) _ assms(4), of rest] Nil(2) assms(5) show ?case
    by (auto simp: skip_until.simps [of found c])
next
  case (Cons l ls)
  have l: "buf_line BUFFLEN l" "\<not> found (cstr l)" "0 < length l" using Cons.prems(3) by (auto simp: buf_line_def)
  from read_chunk_ready [OF Cons.prems(1) _ l(1), of "map byte_of (concat ls @ dl) @ rest"] Cons.prems(2) obtain c1 p1 where
    1: "read_buf c BUFFLEN = (int (length l), l, c1)" "rx_ready c1 p1 post" "rx_stream p1 = map byte_of (concat ls @ dl) @ rest"
    by auto
  from Cons.IH [OF 1(2,3)] Cons.prems(3) 1(1) l(2,3) show ?case by (simp add: skip_until.simps [of found c])
qed

lemma read_part_ready:
  assumes "rx_ready c pre post" "rx_stream pre = map byte_of (concat ls @ dl) @ rest"
    "\<forall>l \<in> set ls. buf_line BUFFLEN l \<and> \<not> strstr (cstr l) boundary" "buf_line BUFFLEN dl" "strstr (cstr dl) boundary"
  shows "\<exists>c' pre'. read_part boundary c acc turns = (acc @ concat ls, turns + length ls, dl, c') \<and>
    rx_ready c' pre' post \<and> rx_stream pre' = rest"
  using assms(1-3)
proof (induction ls arbitrary: c pre acc turns)
  case Nil
  from read_chunk_ready [OF Nil(1) _ assms(4), of rest] Nil(2) assms(5) show ?case
    by (auto simp: read_part.simps [of boundary c])
next
  case (Cons l ls)
  have l: "buf_line BUFFLEN l" "\<not> strstr (cstr l) boundary" "0 < length l" using Cons.prems(3) by (auto simp: buf_line_def)
  from read_chunk_ready [OF Cons.prems(1) _ l(1), of "map byte_of (concat ls @ dl) @ rest"] Cons.prems(2) obtain c1 p1 where
    1: "read_buf c BUFFLEN = (int (length l), l, c1)" "rx_ready c1 p1 post" "rx_stream p1 = map byte_of (concat ls @ dl) @ rest"
    by auto
  from Cons.IH [OF 1(2,3), of "acc @ l" "Suc turns"] Cons.prems(3) 1(1) l(2,3) show ?case
    by (simp add: read_part.simps [of boundary c])
qed

lemma strstr_piece:
  assumes "\<not> strstr (concat ls) b" "l \<in> set ls"
  shows "\<not> strstr (cstr l) b"
proof
  assume "strstr (cstr l) b"
  then obtain x y where "cstr l = x @ b @ y" by (auto simp: strstr_iff)
  moreover have "l = cstr l @ dropWhile (\<lambda>c. c \<noteq> NUL) l" by (simp add: cstr_def)
  moreover obtain us vs where "ls = us @ l # vs" using assms(2) by (meson split_list)
  ultimately have "concat ls = (concat us @ x) @ b @ (y @ dropWhile (\<lambda>c. c \<noteq> NUL) l @ concat vs)"
    by (metis append.assoc concat.simps(2) concat_append)
  with assms(1) show False unfolding strstr_iff by blast
qed

section \<open>The header of a part\<close>

definition quoted :: "cstring \<Rightarrow> cstring" where
  "quoted v = CHR 0x22 # v @ [CHR 0x22]"

definition part_head :: "cstring \<Rightarrow> cstring \<Rightarrow> cstring" where
  "part_head name fname = ''Content-Disposition: form-data; name='' @ quoted name @ ''; filename='' @ quoted fname @ CRLF"

definition part_name_ok :: "cstring \<Rightarrow> bool" where
  "part_name_ok v \<longleftrightarrow> set v \<inter> {NUL, LF, CHR 0x22, CHR '';'', CHR ''=''} = {}"

lemma trim_quoted: "CHR 0x22 \<notin> set v \<Longrightarrow> trim (quoted v) (CHR 0x22) = v"
proof (cases "v = []")
  case True
  then show ?thesis by (simp add: quoted_def trim_eq)
next
  case False
  assume q: "CHR 0x22 \<notin> set v"
  have "last v \<noteq> CHR 0x22" "hd v \<noteq> CHR 0x22"
    using q last_in_set [OF False] hd_in_set [OF False] by auto
  then have "dropWhile (\<lambda>c. c = CHR 0x22) (rev v @ [CHR 0x22]) = rev v @ [CHR 0x22]"
      "dropWhile (\<lambda>c. c = CHR 0x22) v = v"
    using False by (simp_all add: dropWhile_eq_self_iff hd_append hd_rev)
  then show ?thesis by (simp add: quoted_def trim_eq)
qed

lemma quoted_simps [simp]:
  "quoted v \<noteq> []" "hd (quoted v) = CHR 0x22" "last (quoted v) = CHR 0x22" "hd (quoted v @ r) = CHR 0x22"
  "set (quoted v) = insert (CHR 0x22) (set v)"
  by (auto simp: quoted_def)

lemma trim_back:
  assumes "s \<noteq> []" "hd s \<noteq> d" "last s \<noteq> d"
  shows "trim (s @ [d]) d = s"
proof -
  have "dropWhile (\<lambda>c. c = d) (rev s) = rev s" "dropWhile (\<lambda>c. c = d) s = s"
    using assms by (simp_all add: dropWhile_eq_self_iff hd_rev)
  then show ?thesis by (simp add: trim_eq)
qed

lemma part_params:
  assumes "part_name_ok name" "part_name_ok fname"
  shows "foldl part_param (None, None) (strsep_all '';'' (cstr (part_head name fname))) = (Some name, Some fname)"
proof -
  let ?t1 = "''Content-Disposition: form-data''" and ?t2 = "'' name='' @ quoted name"
    and ?t3 = "'' filename='' @ quoted fname @ CRLF"
  have ok: "CHR 0x22 \<notin> set name" "CHR ''='' \<notin> set name" "CHR 0x22 \<notin> set fname" "CHR ''='' \<notin> set fname"
    using assms by (auto simp: part_name_ok_def)
  have "cstr (part_head name fname) = part_head name fname"
    using assms by (intro cstr_id) (auto simp: is_cstr_def part_head_def part_name_ok_def)
  moreover have "part_head name fname = join_with CHR '';'' [?t1, ?t2, ?t3]" by (simp add: part_head_def)
  moreover have "strsep_all '';'' (join_with CHR '';'' [?t1, ?t2, ?t3]) = [?t1, ?t2, ?t3]"
    by (rule strsep_all_join) (use assms in \<open>auto simp: part_name_ok_def\<close>)
  ultimately have toks: "strsep_all '';'' (cstr (part_head name fname)) = [?t1, ?t2, ?t3]" by (simp only:)
  have 1: "part_param ps ?t1 = ps" for ps by (simp add: part_param_def str_simps)
  have "strsep ''='' ?t2 = ('' name'', Some (quoted name))"
    using strsep_here [of "CHR ''=''" "'' name''" "quoted name"] by simp
  moreover have "strsep ''='' (quoted name) = (quoted name, None)" using ok by (intro strsep_none) simp
  moreover have "trim '' name'' SP = ''name''" by (simp add: trim_eq)
  ultimately have 2: "part_param ps ?t2 = (Some name, snd ps)" for ps
    using ok by (simp add: part_param_def trim_idle trim_quoted)
  have "strsep ''='' ?t3 = ('' filename'', Some (quoted fname @ CRLF))"
    using strsep_here [of "CHR ''=''" "'' filename''" "quoted fname @ CRLF"] by simp
  moreover have "strsep ''='' (quoted fname @ CRLF) = (quoted fname @ CRLF, None)" using ok by (intro strsep_none) simp
  moreover have "trim '' filename'' SP = ''filename''" by (simp add: trim_eq)
  moreover have "trim (quoted fname @ CRLF) SP = quoted fname @ CRLF" by (rule trim_idle) simp
  moreover have "trim (quoted fname @ CRLF) LF = quoted fname @ [CR]" using trim_back [of "quoted fname @ [CR]" LF] by simp
  moreover have "trim (quoted fname @ [CR]) CR = quoted fname" by (rule trim_back) simp_all
  ultimately have 3: "part_param ps ?t3 = (fst ps, Some fname)" for ps
    using ok by (simp add: part_param_def trim_quoted)
  show ?thesis unfolding toks by (simp only: foldl.simps 1 2 3 fst_conv snd_conv)
qed

text \<open>The three reads of a part: its \<open>Content-Disposition\<close> line, its header up to the empty line, its data.\<close>

lemma part_reads:
  assumes "rx_ready c pre post"
    "rx_stream pre = map byte_of (part_head name fname @ concat hs @ CRLF @ content @ CRLF @ ''--'' @ boundary @ tail @ CRLF) @ rest"
    and names: "part_name_ok name" "part_name_ok fname" "buf_line BUFFLEN (part_head name fname)"
    and hs: "\<forall>h \<in> set hs. buf_line BUFFLEN h \<and> \<not> is_prefix_of CRLF (cstr h)"
    and content: "\<not> strstr (content @ CRLF) boundary"
    and delim: "buf_line BUFFLEN (''--'' @ boundary @ tail @ CRLF)" "NUL \<notin> set (boundary @ tail)"
  obtains c1 c2 c3 p3 turns where
    "skip_until (\<lambda>s. strstr s ''Content-Disposition:'') c = (int (length (part_head name fname)), part_head name fname, c1)"
    "strstr (cstr (part_head name fname)) ''Content-Disposition:''"
    "skip_until (is_prefix_of CRLF) c1 = (2, CRLF, c2)"
    "read_part boundary c2 [] 0 = (content @ CRLF, turns, ''--'' @ boundary @ tail @ CRLF, c3)"
    "rx_ready c3 p3 post" "rx_stream p3 = rest"
    "cstr (''--'' @ boundary @ tail @ CRLF) = ''--'' @ boundary @ tail @ CRLF"
    "strstr (''--'' @ boundary @ tail @ CRLF) boundary"
proof -
  let ?head = "part_head name fname" and ?dl = "''--'' @ boundary @ tail @ CRLF"
  let ?disp = "''Content-Disposition:''"
  have "strstr ?head ?disp" by (simp add: part_head_def)
  moreover have head: "cstr ?head = ?head"
    using names(1,2) by (intro cstr_id) (auto simp: is_cstr_def part_head_def part_name_ok_def)
  ultimately have disp: "strstr (cstr ?head) ?disp" by simp
  from skip_until_ready [OF assms(1), of "[]" ?head _ "\<lambda>s. strstr s ?disp", OF _ _ names(3)] assms(2) disp
  obtain c1 p1 where 1: "skip_until (\<lambda>s. strstr s ?disp) c = (int (length ?head), ?head, c1)"
      "rx_ready c1 p1 post" "rx_stream p1 = map byte_of (concat hs @ CRLF) @ map byte_of (content @ CRLF @ ?dl) @ rest"
    by fastforce
  have "buf_line BUFFLEN CRLF" "is_prefix_of CRLF (cstr CRLF)" by (simp_all add: buf_line_def BUFFLEN_def cstr_def)
  with skip_until_ready [where found = "is_prefix_of CRLF" and ls = hs and dl = CRLF, OF 1(2,3)] hs obtain c2 p2 where
    2: "skip_until (is_prefix_of CRLF) c1 = (2, CRLF, c2)" "rx_ready c2 p2 post"
      "rx_stream p2 = map byte_of (content @ CRLF @ ?dl) @ rest"
    by auto
  obtain ls where ls: "content @ CRLF = concat ls" "\<forall>l \<in> set ls. buf_line BUFFLEN l"
    using buf_lines_exist [of BUFFLEN "content @ CRLF"] by (auto simp: BUFFLEN_def)
  have "\<forall>l \<in> set ls. buf_line BUFFLEN l \<and> \<not> strstr (cstr l) boundary"
    using ls strstr_piece [of ls boundary] content by auto
  moreover have "cstr ?dl = ?dl" using delim(2) by (intro cstr_id) (auto simp: is_cstr_def)
  then have dl: "cstr ?dl = ?dl" "strstr (cstr ?dl) boundary" by (auto simp: strstr_iff) (metis append_Cons append_Nil)
  moreover have "rx_stream p2 = map byte_of (concat ls @ ?dl) @ rest" using 2(3) by (simp flip: ls(1))
  ultimately obtain c3 p3 turns where 3: "read_part boundary c2 [] 0 = (content @ CRLF, turns, ?dl, c3)"
      "rx_ready c3 p3 post" "rx_stream p3 = rest"
    using read_part_ready [OF 2(2) _ _ delim(1), of ls rest boundary "[]" 0] ls(1) by auto
  have "strstr ?dl boundary" using dl by simp
  with that 1(1) 2(1) 3 disp dl(1) show thesis by blast
qed

text \<open>C10. A file upload arrives exact: when a part with a name, a file name and any header lines holds
  content in which the boundary does not occur, whatever its bytes and its length, the file written
  to the temporary directory is that content without the line end before the boundary, and its
  path, name and size are in the request data.  The file name of the client is part of that path as
  it is, so \<open>../\<close> in it leaves the directory.\<close>

theorem upload_exact:
  assumes "rx_ready (rq_client rq) pre post"
    "rx_stream pre = map byte_of (part_head name fname @ concat hs @ CRLF @ content @ CRLF @ ''--'' @ boundary @ tail @ CRLF) @ rest"
    and names: "part_name_ok name" "part_name_ok fname" "buf_line BUFFLEN (part_head name fname)"
    and hs: "\<forall>h \<in> set hs. buf_line BUFFLEN h \<and> \<not> is_prefix_of CRLF (cstr h)"
    and content: "\<not> strstr (content @ CRLF) boundary" "length content < 2 ^ 31"
    and delim: "buf_line BUFFLEN (''--'' @ boundary @ tail @ CRLF)" "NUL \<notin> set (boundary @ tail)"
    and rq: "dict_ok (rq_dict rq)" "rq_str rq ''MULTI_PART_BOUNDARY'' = Some boundary" "rq_sub rq ''REQUEST_DATA'' = Some dic" "dict_ok dic"
    and writable: "\<forall>c. fs_open (upload_path cfg c fname)"
  shows "\<exists>task rq' c dic' pre'. decode_multi_part_request_data fs_open cfg rq = Some (task, rq', [(upload_path cfg c fname, map byte_of content)]) \<and>
    rp_handle task = (if strstr (''--'' @ boundary @ tail @ CRLF) (boundary @ ''--'') then None else Some DecodeMultiPartData) \<and>
    rx_ready (rq_client rq') pre' post \<and> rx_stream pre' = rest \<and> rq_sub rq' ''REQUEST_DATA'' = Some dic' \<and>
    dvalue dic' (name @ ''.file'') = Some fname \<and> dvalue dic' (name @ ''.tmp'') = Some (upload_path cfg c fname) \<and>
    dvalue dic' (name @ ''.size'') = Some (dec_nat (length content))"
proof -
  define D where "D = ''--'' @ boundary @ tail @ CRLF"
  let ?head = "part_head name fname"
  obtain c1 c2 c3 p3 turns where 1: "skip_until (\<lambda>s. strstr s ''Content-Disposition:'') (rq_client rq) = (int (length ?head), ?head, c1)"
      and disp: "strstr (cstr ?head) ''Content-Disposition:''"
      and 2: "skip_until (is_prefix_of CRLF) c1 = (2, CRLF, c2)"
      and 3: "read_part boundary c2 [] 0 = (content @ CRLF, turns, D, c3)" "rx_ready c3 p3 post" "rx_stream p3 = rest"
      and D: "cstr D = D" "strstr D boundary"
    unfolding D_def by (rule part_reads [OF assms(1-6) content(1) delim])
  let ?path = "upload_path cfg c2 fname"
  let ?dic = "dput (dput (dput (dput dic (name @ ''.file'') (Some fname)) (name @ ''.tmp'') (Some ?path))
    (name @ ''.size'') (Some (dec_nat (length content)))) (name @ ''.ext'') (ext (Some fname))"
  let ?task = "(bind_event rq (ON_WRITABLE + ON_READABLE) (create_task None rq))\<lparr>rp_access := last_io c3\<rparr>"
  let ?rq' = "rq_put ''REQUEST_DATA'' (RqDict ?dic) (rq\<lparr>rq_client := c3\<rparr>)"
  have cut: "cut_end (content @ CRLF) = map byte_of content" by (simp add: cut_end_def)
  have "0 < length ?head" by (simp add: part_head_def)
  then have "decode_multi_part_request_data fs_open cfg rq =
      Some (if strstr D (boundary @ ''--'') then ?task else ?task\<lparr>rp_handle := Some DecodeMultiPartData\<rparr>, ?rq', [(?path, map byte_of content)])"
    using rq(2,3) writable disp
    by (simp add: decode_multi_part_request_data_def Let_def 1 2 3(1) part_params [OF names(1,2)] cut D dec_int_def)
  moreover have "rq_sub ?rq' ''REQUEST_DATA'' = Some ?dic" using rq(1) by simp
  moreover have "dvalue ?dic (name @ ''.file'') = Some fname" "dvalue ?dic (name @ ''.tmp'') = Some ?path"
    "dvalue ?dic (name @ ''.size'') = Some (dec_nat (length content))"
    using rq(4) by (simp_all add: dict_ok_dput)
  ultimately show ?thesis
    using 3(2,3) unfolding D_def [symmetric]
    by (intro exI conjI) (assumption | simp add: bind_event_def create_task_def)+
qed

definition demo_part :: "char list" where
  "demo_part = part_head ''f'' ''../x'' @ concat [''Content-Type: a/b'' @ CRLF] @ CRLF @ (''A'' @ [LF, NUL] @ ''B'') @ CRLF @
     ''--'' @ ''XYZ'' @ ''--'' @ CRLF"

theorem upload_exact_witness:
  "\<exists>task rq' c. decode_multi_part_request_data (\<lambda>p. True) demo_config
      (rq_put ''MULTI_PART_BOUNDARY'' (RqStr ''XYZ'') (demo_request (map byte_of demo_part))) =
      Some (task, rq', [(upload_path demo_config c ''../x'', map byte_of (''A'' @ [LF, NUL] @ ''B''))]) \<and>
    rp_handle task = None"
proof -
  let ?content = "''A'' @ [LF, NUL] @ ''B''"
  let ?bs = "map byte_of demo_part"
  let ?rq = "rq_put ''MULTI_PART_BOUNDARY'' (RqStr ''XYZ'') (demo_request ?bs)"
  have "?bs \<noteq> []" by (simp add: demo_part_def part_head_def)
  then have ready: "rx_ready (rq_client ?rq) [(0, RxData (hd ?bs) (tl ?bs))] []"
      "rx_stream [(0, RxData (hd ?bs) (tl ?bs))] = map byte_of demo_part @ []"
    using demo_request_ready [of ?bs] by simp_all
  have "part_name_ok ''f''" "part_name_ok ''../x''" by (simp_all add: part_name_ok_def)
  moreover have "buf_line BUFFLEN (part_head ''f'' ''../x'')" "buf_line BUFFLEN (''--'' @ ''XYZ'' @ ''--'' @ CRLF)"
    by (simp_all add: buf_line_def part_head_def quoted_def BUFFLEN_def)
  moreover have "\<forall>h \<in> set [''Content-Type: a/b'' @ CRLF]. buf_line BUFFLEN h \<and> \<not> is_prefix_of CRLF (cstr h)"
    by (simp add: buf_line_def BUFFLEN_def cstr_def)
  moreover have "\<not> strstr (?content @ CRLF) ''XYZ''" "length ?content < 2 ^ 31" "NUL \<notin> set (''XYZ'' @ ''--'')" by simp_all
  moreover have "dict_ok (rq_dict ?rq)" "rq_str ?rq ''MULTI_PART_BOUNDARY'' = Some ''XYZ''" "rq_sub ?rq ''REQUEST_DATA'' = Some dict"
    by (simp_all add: demo_request_facts)
  moreover have "strstr (''--'' @ ''XYZ'' @ ''--'' @ CRLF) (''XYZ'' @ ''--'')" by simp
  ultimately show ?thesis
    using upload_exact [OF ready [unfolded demo_part_def], where fs_open = "\<lambda>p. True" and cfg = demo_config, of dict] dict_ok_dict
    unfolding demo_part_def by (smt (verit, best))
qed

end
