(* ===== verification/Plugins.thy ===== *)
theory Plugins
  imports Config
begin

text \<open>
  The plugin manager, \<open>plugin_manager.c\<close>, and the context accessors of \<open>lib/plugin.c\<close>: the table of
  loaded files, the contexts of each, loading, dropping and unloading.  The dynamic linker and the
  code of the plugins are an environment; the log records what was called.
\<close>

section \<open>Data\<close>

definition ANTD_PLUGIN_READY :: int where "ANTD_PLUGIN_READY = 0"
definition ANTD_PLUGIN_PANNIC :: int where "ANTD_PLUGIN_PANNIC = 1"
definition ANTD_PLUGIN_INIT :: int where "ANTD_PLUGIN_INIT = 2"

text \<open>A context; the function pointers are whether their symbol was found, the data a pointer.\<close>

record plugin_ctx =
  px_name :: cstring
  px_tmpdir :: cstring
  px_basedir :: cstring
  px_confdir :: "cstring option"
  px_raw_body :: int
  px_status :: int
  px_config :: "cstring dictionary option"
  px_data :: nat
  px_handle :: bool
  px_create :: bool
  px_drop :: bool

text \<open>A loaded file; its handle is the path it was opened with.\<close>

record plugin_entry =
  pe_name :: cstring
  pe_handle :: "cstring option"
  pe_instances :: "plugin_ctx dictionary option"

datatype plugin_event = DlOpen cstring | DlClose cstring | RunCreate cstring cstring | RunDrop cstring cstring

record plugins =
  pl_table :: "plugin_entry list list"
  pl_log :: "plugin_event list"

text \<open>Which files \<open>dlopen\<close> opens, which symbols they have, and what their \<open>create\<close> function makes of a
  context.\<close>

record dl_env =
  dl_open :: "cstring \<Rightarrow> bool"
  dl_sym :: "cstring \<Rightarrow> cstring \<Rightarrow> bool"
  dl_create :: "cstring \<Rightarrow> plugin_ctx \<Rightarrow> plugin_ctx"

definition HASHSIZE :: u32 where "HASHSIZE = 1024"

definition no_plugins :: plugins where
  "no_plugins = \<lparr>pl_table = replicate (unat HASHSIZE) [], pl_log = []\<rparr>"

section \<open>Contexts\<close>

definition antd_plugin_use_raw_body :: "plugin_ctx \<Rightarrow> plugin_ctx" where
  "antd_plugin_use_raw_body ctx = ctx\<lparr>px_raw_body := 1\<rparr>"

definition antd_plugin_is_raw_body :: "plugin_ctx \<Rightarrow> bool" where
  "antd_plugin_is_raw_body ctx \<longleftrightarrow> px_raw_body ctx = 1"

definition antd_plugin_set_status :: "plugin_ctx \<Rightarrow> int \<Rightarrow> plugin_ctx" where
  "antd_plugin_set_status ctx s = ctx\<lparr>px_status := s\<rparr>"

text \<open>The configuration directory is made when it is asked for first: the path, the context, and
  whether \<open>mkdir\<close> is called.\<close>

definition antd_plugin_confdir :: "(cstring \<Rightarrow> bool) \<Rightarrow> plugin_ctx \<Rightarrow> cstring \<times> plugin_ctx \<times> bool" where
  "antd_plugin_confdir exists ctx =
     (case px_confdir ctx of
        Some d \<Rightarrow> (d, ctx, False)
      | None \<Rightarrow> let d = px_basedir ctx @ ''/'' @ px_name ctx in (d, ctx\<lparr>px_confdir := Some d\<rparr>, \<not> exists d))"

definition plog :: "plugin_event list \<Rightarrow> plugins \<Rightarrow> plugins" where
  "plog es p = p\<lparr>pl_log := pl_log p @ es\<rparr>"

text \<open>\<open>antd_plugin_ctx_drop\<close>: the entry without the context, and what runs.\<close>

definition antd_plugin_ctx_drop :: "plugin_entry \<Rightarrow> plugin_ctx option \<Rightarrow> plugin_entry \<times> plugin_event list" where
  "antd_plugin_ctx_drop np ctx =
     (case ctx of
        None \<Rightarrow> (np, [])
      | Some c \<Rightarrow>
          (np\<lparr>pe_instances := map_option (\<lambda>d. dput d (px_name c) None) (pe_instances np)\<rparr>,
           case pe_handle np of Some path \<Rightarrow> if px_drop c then [RunDrop path (px_name c)] else [] | None \<Rightarrow> []))"

definition new_ctx :: "config \<Rightarrow> cstring \<Rightarrow> plugin_ctx" where
  "new_ctx cfg name = \<lparr>px_name = name, px_tmpdir = cf_tmpdir cfg, px_basedir = cf_plugins_dir cfg, px_confdir = None,
     px_raw_body = 0, px_status = ANTD_PLUGIN_INIT, px_config = dvalue (cf_plugins cfg) name, px_data = 0,
     px_handle = False, px_create = False, px_drop = False\<rparr>"

text \<open>\<open>antd_plugin_ctx_lookup\<close>: the context, the entry and what runs.  The symbols are looked up in the
  order handle, drop, create, and a missing one drops the context with what was found so far.\<close>

definition create_ctx :: "dl_env \<Rightarrow> config \<Rightarrow> cstring \<Rightarrow> plugin_entry \<Rightarrow> cstring \<Rightarrow> plugin_ctx option \<times> plugin_entry \<times> plugin_event list" where
  "create_ctx env cfg path np name =
     (let c0 = new_ctx cfg name;
          failed = (\<lambda>c es. case antd_plugin_ctx_drop np (Some c) of (np', es') \<Rightarrow> (None, np', es @ es'))
      in if \<not> dl_sym env path ''handle'' then failed c0 []
         else let c1 = c0\<lparr>px_handle := True\<rparr> in
           if \<not> dl_sym env path ''drop'' then failed c1 []
           else let c2 = c1\<lparr>px_drop := True\<rparr> in
             if \<not> dl_sym env path ''create'' then failed c2 []
             else let c3 = dl_create env path (c2\<lparr>px_create := True\<rparr>) in
               if px_status c3 = ANTD_PLUGIN_PANNIC then failed c3 [RunCreate path name]
               else let c4 = c3\<lparr>px_status := ANTD_PLUGIN_READY\<rparr> in
                 (Some c4, np\<lparr>pe_instances := map_option (\<lambda>d. dput d name (Some c4)) (pe_instances np)\<rparr>,
                  [RunCreate path name]))"

definition antd_plugin_ctx_lookup ::
  "dl_env \<Rightarrow> config \<Rightarrow> plugin_entry \<Rightarrow> cstring \<Rightarrow> plugin_ctx option \<times> plugin_entry \<times> plugin_event list" where
  "antd_plugin_ctx_lookup env cfg np name =
     (case (pe_instances np, pe_handle np) of
        (Some instances, Some path) \<Rightarrow>
          (case dvalue instances name of
             Some ctx \<Rightarrow> (Some ctx, np, [])
           | None \<Rightarrow> create_ctx env cfg path np name)
      | _ \<Rightarrow> (None, np, []))"

section \<open>The table\<close>

definition slot :: "cstring \<Rightarrow> nat" where
  "slot s = unat (hash s HASHSIZE)"

fun find_entry :: "cstring \<Rightarrow> plugin_entry list \<Rightarrow> nat option" where
  "find_entry s [] = None"
| "find_entry s (np # nps) = (if s = pe_name np then Some 0 else map_option Suc (find_entry s nps))"

text \<open>\<open>plugin_lookup\<close>: the place of the entry, chain and position.\<close>

definition plugin_lookup :: "plugins \<Rightarrow> cstring \<Rightarrow> (nat \<times> nat) option" where
  "plugin_lookup p s = map_option (Pair (slot s)) (find_entry s (pl_table p ! slot s))"

definition entry_at :: "plugins \<Rightarrow> nat \<times> nat \<Rightarrow> plugin_entry" where
  "entry_at p bi = pl_table p ! fst bi ! snd bi"

definition set_entry :: "nat \<times> nat \<Rightarrow> plugin_entry \<Rightarrow> plugins \<Rightarrow> plugins" where
  "set_entry bi np p = p\<lparr>pl_table := (pl_table p)[fst bi := (pl_table p ! fst bi)[snd bi := np]]\<rparr>"

definition plugin_file :: "config \<Rightarrow> cstring \<Rightarrow> cstring" where
  "plugin_file cfg name =
     (case dvalue (cf_plugins cfg) name of
        None \<Rightarrow> name
      | Some pconf \<Rightarrow> (case dvalue pconf ''name'' of None \<Rightarrow> name | Some f \<Rightarrow> f))"

text \<open>\<open>snprintf\<close> cuts the path at the size of its buffer.\<close>

definition plugin_path :: "config \<Rightarrow> cstring \<Rightarrow> cstring" where
  "plugin_path cfg file = take 1023 (cf_plugins_dir cfg @ ''/'' @ file @ cf_plugins_ext cfg)"

text \<open>\<open>antd_plugin_load\<close>: a new entry goes to the chain of the plugin's name, while the search is in the
  chain of its file's.\<close>

definition load_entry :: "dl_env \<Rightarrow> config \<Rightarrow> cstring \<Rightarrow> plugins \<Rightarrow> (nat \<times> nat) option \<times> plugins" where
  "load_entry env cfg name p =
     (let file = plugin_file cfg name; path = plugin_path cfg file in
      case plugin_lookup p file of
        Some bi \<Rightarrow> (Some bi, p)
      | None \<Rightarrow>
          if \<not> dl_open env path then (None, p)
          else (Some (slot name, 0),
            plog [DlOpen path] (p\<lparr>pl_table := (pl_table p)[slot name :=
              \<lparr>pe_name = file, pe_handle = Some path, pe_instances = Some dict\<rparr> # pl_table p ! slot name]\<rparr>)))"

definition antd_plugin_load :: "dl_env \<Rightarrow> config \<Rightarrow> cstring \<Rightarrow> plugins \<Rightarrow> plugin_ctx option \<times> plugins" where
  "antd_plugin_load env cfg name p0 =
     (case load_entry env cfg name p0 of
        (None, p) \<Rightarrow> (None, p)
      | (Some bi, p) \<Rightarrow>
          (case antd_plugin_ctx_lookup env cfg (entry_at p bi) name of
             (None, np, es) \<Rightarrow> (None, plog es (set_entry bi np p))
           | (Some ctx, np, es) \<Rightarrow>
               if px_status ctx \<noteq> ANTD_PLUGIN_READY then
                 (case antd_plugin_ctx_drop np (Some ctx) of
                    (np', es') \<Rightarrow> (None, plog (es @ es') (set_entry bi np' p)))
               else (Some ctx, plog es (set_entry bi np p))))"

text \<open>\<open>antd_plugin_entry_drop\<close>: every context is dropped, then the file is closed.\<close>

definition antd_plugin_entry_drop :: "plugin_entry \<Rightarrow> plugin_event list" where
  "antd_plugin_entry_drop np =
     (case pe_instances np of
        None \<Rightarrow> []
      | Some d \<Rightarrow> concat (map (\<lambda>it. snd (antd_plugin_ctx_drop np (snd it))) (dict_items d))) @
     (case pe_handle np of None \<Rightarrow> [] | Some path \<Rightarrow> [DlClose path])"

definition antd_unload_all_plugin :: "plugins \<Rightarrow> plugins" where
  "antd_unload_all_plugin p =
     plog (concat (map antd_plugin_entry_drop (concat (pl_table p))))
       (p\<lparr>pl_table := replicate (length (pl_table p)) []\<rparr>)"

section \<open>What was created is dropped\<close>

definition created :: "plugin_event list \<Rightarrow> (cstring \<times> cstring) multiset" where
  "created es = mset (concat (map (\<lambda>e. case e of RunCreate path name \<Rightarrow> [(path, name)] | _ \<Rightarrow> []) es))"

definition dropped :: "plugin_event list \<Rightarrow> (cstring \<times> cstring) multiset" where
  "dropped es = mset (concat (map (\<lambda>e. case e of RunDrop path name \<Rightarrow> [(path, name)] | _ \<Rightarrow> []) es))"

definition opened :: "plugin_event list \<Rightarrow> cstring multiset" where
  "opened es = mset (concat (map (\<lambda>e. case e of DlOpen path \<Rightarrow> [path] | _ \<Rightarrow> []) es))"

definition closed :: "plugin_event list \<Rightarrow> cstring multiset" where
  "closed es = mset (concat (map (\<lambda>e. case e of DlClose path \<Rightarrow> [path] | _ \<Rightarrow> []) es))"

lemmas event_defs = created_def dropped_def opened_def closed_def

lemma event_append [simp]:
  "created (es @ fs) = created es + created fs" "dropped (es @ fs) = dropped es + dropped fs"
  "opened (es @ fs) = opened es + opened fs" "closed (es @ fs) = closed es + closed fs"
  by (simp_all add: event_defs)

lemma event_simps [simp]:
  "created [] = {#}" "dropped [] = {#}" "opened [] = {#}" "closed [] = {#}"
  "created [RunCreate p n] = {#(p, n)#}" "created [RunDrop p n] = {#}" "created [DlOpen p] = {#}" "created [DlClose p] = {#}"
  "dropped [RunCreate p n] = {#}" "dropped [RunDrop p n] = {#(p, n)#}" "dropped [DlOpen p] = {#}" "dropped [DlClose p] = {#}"
  "opened [RunCreate p n] = {#}" "opened [RunDrop p n] = {#}" "opened [DlOpen p] = {#p#}" "opened [DlClose p] = {#}"
  "closed [RunCreate p n] = {#}" "closed [RunDrop p n] = {#}" "closed [DlOpen p] = {#}" "closed [DlClose p] = {#p#}"
  by (simp_all add: event_defs)

text \<open>The contexts an entry holds, and its file.\<close>

definition live_in :: "plugin_entry \<Rightarrow> (cstring \<times> cstring) multiset" where
  "live_in np = (case (pe_instances np, pe_handle np) of
     (Some d, Some path) \<Rightarrow> mset (map (\<lambda>c. (path, px_name c)) (freedict d)) | _ \<Rightarrow> {#})"

definition file_of :: "plugin_entry \<Rightarrow> cstring multiset" where
  "file_of np = (case pe_handle np of Some path \<Rightarrow> {#path#} | None \<Rightarrow> {#})"

definition over_table :: "(plugin_entry \<Rightarrow> 'a multiset) \<Rightarrow> plugin_entry list list \<Rightarrow> 'a multiset" where
  "over_table f t = sum_list (map f (concat t))"

definition entry_ok :: "dl_env \<Rightarrow> plugin_entry \<Rightarrow> bool" where
  "entry_ok env np \<longleftrightarrow> (\<exists>d path. pe_instances np = Some d \<and> pe_handle np = Some path \<and> dl_open env path \<and> dict_ok d \<and>
     (\<forall>k c. dvalue d k = Some c \<longrightarrow> px_name c = k \<and> px_status c = ANTD_PLUGIN_READY \<and> px_drop c))"

definition plugins_ok :: "dl_env \<Rightarrow> plugins \<Rightarrow> bool" where
  "plugins_ok env p \<longleftrightarrow> length (pl_table p) = unat HASHSIZE \<and> (\<forall>ch \<in> set (pl_table p). \<forall>np \<in> set ch. entry_ok env np) \<and>
     created (pl_log p) = dropped (pl_log p) + over_table live_in (pl_table p) \<and>
     opened (pl_log p) = closed (pl_log p) + over_table file_of (pl_table p)"

text \<open>What the code relies on: a plugin has its three functions, and \<open>create\<close>, which gets at its context
  through the accessors only, leaves name and drop function alone.\<close>

definition plugins_complete :: "dl_env \<Rightarrow> bool" where
  "plugins_complete env \<longleftrightarrow>
     (\<forall>path. dl_open env path \<longrightarrow> dl_sym env path ''handle'' \<and> dl_sym env path ''drop'' \<and> dl_sym env path ''create'')"

definition create_keeps :: "dl_env \<Rightarrow> bool" where
  "create_keeps env \<longleftrightarrow> (\<forall>path c. px_name (dl_create env path c) = px_name c \<and> px_drop (dl_create env path c) = px_drop c)"

lemma slot_less: "slot s < unat HASHSIZE"
proof -
  have "hash s HASHSIZE < HASHSIZE" by (simp add: hash_def HASHSIZE_def word_mod_less_divisor)
  then show ?thesis by (simp add: slot_def word_less_nat_alt)
qed

lemma sum_update:
  fixes y :: "'b multiset"
  assumes "j < length xs"
  shows "sum_list (xs[j := y]) + xs ! j = sum_list xs + y"
proof -
  have "sum_list xs = sum_list (take j xs) + (xs ! j + sum_list (drop (Suc j) xs))"
    by (subst id_take_nth_drop [OF assms]) simp
  moreover have "sum_list (xs[j := y]) = sum_list (take j xs) + (y + sum_list (drop (Suc j) xs))"
    by (subst upd_conv_take_nth_drop [OF assms]) simp
  ultimately show ?thesis by (simp add: ac_simps)
qed

lemma over_table_update:
  assumes "b < length t" "i < length (t ! b)"
  shows "over_table f (t[b := (t ! b)[i := np]]) + f (t ! b ! i) = over_table f t + f np"
proof -
  have tab: "over_table f u = sum_list (map (\<lambda>ch. sum_list (map f ch)) u)" for u
    by (induction u) (simp_all add: over_table_def)
  have "over_table f (t[b := (t ! b)[i := np]]) + sum_list (map f (t ! b)) =
      over_table f t + sum_list (map f ((t ! b)[i := np]))"
    using sum_update [of b "map (\<lambda>ch. sum_list (map f ch)) t"] assms(1) by (simp add: tab map_update)
  moreover have "sum_list (map f ((t ! b)[i := np])) + f (t ! b ! i) = sum_list (map f (t ! b)) + f np"
    using sum_update [of i "map f (t ! b)" "f np"] assms(2) by (simp add: map_update)
  ultimately show ?thesis by (rule mset_exchange)
qed

lemma over_table_push:
  assumes "b < length t"
  shows "over_table f (t[b := np # t ! b]) = over_table f t + f np"
proof -
  have tab: "over_table f u = sum_list (map (\<lambda>ch. sum_list (map f ch)) u)" for u
    by (induction u) (simp_all add: over_table_def)
  show ?thesis using sum_update [of b "map (\<lambda>ch. sum_list (map f ch)) t" "f np + sum_list (map f (t ! b))"] assms
    by (simp add: tab map_update ac_simps)
qed

lemma live_in_dput:
  assumes "pe_instances np = Some d" "pe_handle np = Some path" "dict_ok d" "dvalue d name = None"
  shows "live_in (np\<lparr>pe_instances := Some (dput d name v)\<rparr>) =
    live_in np + (case v of None \<Rightarrow> {#} | Some c \<Rightarrow> {#(path, px_name c)#})"
proof -
  have "mset (freedict (dput d name v)) = mset (freedict d) + mset (case v of None \<Rightarrow> [] | Some x \<Rightarrow> [x])"
    using freedict_dput [OF assms(3), of name v] assms(4) by simp
  then have "image_mset (\<lambda>c. (path, px_name c)) (mset (freedict (dput d name v))) =
      image_mset (\<lambda>c. (path, px_name c)) (mset (freedict d)) + (case v of None \<Rightarrow> {#} | Some c \<Rightarrow> {#(path, px_name c)#})"
    by (cases v) simp_all
  then show ?thesis using assms(1,2) by (simp add: live_in_def)
qed

lemma create_ctx_ok:
  assumes "entry_ok env np" "pe_instances np = Some d" "dvalue d name = None" "pe_handle np = Some path"
    "create_ctx env cfg path np name = (r, np', es)" "plugins_complete env" "create_keeps env"
  shows "entry_ok env np' \<and> pe_name np' = pe_name np \<and> pe_handle np' = pe_handle np \<and>
    created es + live_in np = dropped es + live_in np' \<and> opened es = {#} \<and> closed es = {#} \<and>
    (\<forall>ctx. r = Some ctx \<longrightarrow> px_status ctx = ANTD_PLUGIN_READY \<and>
      (\<exists>d'. pe_instances np' = Some d' \<and> dvalue d' name = Some ctx))"
proof -
  have d: "dict_ok d" "dl_open env path" "\<And>k c. dvalue d k = Some c \<Longrightarrow> px_name c = k \<and> px_status c = ANTD_PLUGIN_READY \<and> px_drop c"
    using assms(1,2,4) by (auto simp: entry_ok_def)
  then have sym: "dl_sym env path ''handle''" "dl_sym env path ''drop''" "dl_sym env path ''create''"
    using assms(6) by (auto simp: plugins_complete_def)
  define c3 where "c3 = dl_create env path ((new_ctx cfg name)\<lparr>px_handle := True, px_drop := True, px_create := True\<rparr>)"
  have c3: "px_name c3 = name" "px_drop c3" using assms(7) by (simp_all add: c3_def create_keeps_def new_ctx_def)
  have eq: "create_ctx env cfg path np name =
      (if px_status c3 = ANTD_PLUGIN_PANNIC then
         (None, np\<lparr>pe_instances := Some (dput d name None)\<rparr>, [RunCreate path name, RunDrop path name])
       else (Some (c3\<lparr>px_status := ANTD_PLUGIN_READY\<rparr>),
         np\<lparr>pe_instances := Some (dput d name (Some (c3\<lparr>px_status := ANTD_PLUGIN_READY\<rparr>)))\<rparr>, [RunCreate path name]))"
    using sym c3 assms(2,4)
    by (simp add: create_ctx_def Let_def antd_plugin_ctx_drop_def flip: c3_def)
  show ?thesis
  proof (cases "px_status c3 = ANTD_PLUGIN_PANNIC")
    case True
    with eq assms(5) have r: "r = None" "np' = np\<lparr>pe_instances := Some (dput d name None)\<rparr>"
        "es = [RunCreate path name, RunDrop path name]" by simp_all
    have "dvalue d k = Some c" if "dvalue (dput d name None) k = Some c" for k c
      using that d(1) by (cases "k = name") auto
    then have "entry_ok env np'" using d(1,2) d(3) assms(4) by (auto simp: entry_ok_def r dict_ok_dput)
    then show ?thesis using live_in_dput [OF assms(2,4) d(1) assms(3), of None] r by (simp add: event_defs)
  next
    case False
    let ?c = "c3\<lparr>px_status := ANTD_PLUGIN_READY\<rparr>"
    from False eq assms(5) have r: "r = Some ?c" "np' = np\<lparr>pe_instances := Some (dput d name (Some ?c))\<rparr>"
        "es = [RunCreate path name]" by simp_all
    have "px_name c = k \<and> px_status c = ANTD_PLUGIN_READY \<and> px_drop c" if "dvalue (dput d name (Some ?c)) k = Some c" for k c
      using that d(1,3) c3 by (cases "k = name") auto
    then have "entry_ok env np'" using d(1,2) assms(4) by (auto simp: entry_ok_def r dict_ok_dput)
    then show ?thesis using live_in_dput [OF assms(2,4) d(1) assms(3), of "Some ?c"] r d(1) c3 by simp
  qed
qed

lemma ctx_lookup_ok:
  assumes "entry_ok env np" "antd_plugin_ctx_lookup env cfg np name = (r, np', es)" "plugins_complete env" "create_keeps env"
  shows "entry_ok env np' \<and> pe_name np' = pe_name np \<and> pe_handle np' = pe_handle np \<and>
    created es + live_in np = dropped es + live_in np' \<and> opened es = {#} \<and> closed es = {#} \<and>
    (\<forall>ctx. r = Some ctx \<longrightarrow> px_status ctx = ANTD_PLUGIN_READY \<and>
      (\<exists>d'. pe_instances np' = Some d' \<and> dvalue d' name = Some ctx))"
proof -
  obtain d path where d: "pe_instances np = Some d" "pe_handle np = Some path"
      "\<And>k c. dvalue d k = Some c \<Longrightarrow> px_status c = ANTD_PLUGIN_READY"
    using assms(1) by (auto simp: entry_ok_def)
  show ?thesis
  proof (cases "dvalue d name")
    case None
    with assms(2) d have "create_ctx env cfg path np name = (r, np', es)" by (simp add: antd_plugin_ctx_lookup_def)
    from create_ctx_ok [OF assms(1) d(1) None d(2) this assms(3,4)] show ?thesis .
  next
    case (Some c)
    with assms(1,2) d show ?thesis by (auto simp: antd_plugin_ctx_lookup_def)
  qed
qed

lemma plugins_okD:
  assumes "plugins_ok env p" "b < length (pl_table p)" "np \<in> set (pl_table p ! b)"
  shows "entry_ok env np"
proof -
  have "pl_table p ! b \<in> set (pl_table p)" using assms(2) by simp
  with assms(1,3) show ?thesis by (auto simp: plugins_ok_def)
qed

lemma find_entry_Some: "find_entry s ch = Some i \<Longrightarrow> i < length ch \<and> pe_name (ch ! i) = s"
  by (induction ch arbitrary: i) (auto split: if_splits)

lemma load_entry_ok:
  assumes "plugins_ok env p" "load_entry env cfg name p = (r, p1)"
  shows "plugins_ok env p1 \<and>
    (\<forall>bi. r = Some bi \<longrightarrow> fst bi < length (pl_table p1) \<and> snd bi < length (pl_table p1 ! fst bi))"
proof (cases "plugin_lookup p (plugin_file cfg name)")
  case (Some bi)
  with assms slot_less show ?thesis
    by (auto simp: load_entry_def Let_def plugin_lookup_def plugins_ok_def dest: find_entry_Some)
next
  case None
  let ?path = "plugin_path cfg (plugin_file cfg name)"
  let ?np = "\<lparr>pe_name = plugin_file cfg name, pe_handle = Some ?path, pe_instances = Some dict\<rparr>"
  show ?thesis
  proof (cases "dl_open env ?path")
    case True
    have b: "slot name < length (pl_table p)" using assms(1) slot_less by (simp add: plugins_ok_def)
    have ok: "entry_ok env ?np" using True by (simp add: entry_ok_def)
    from None True assms(2) have r: "r = Some (slot name, 0)"
      "p1 = plog [DlOpen ?path] (p\<lparr>pl_table := (pl_table p)[slot name := ?np # pl_table p ! slot name]\<rparr>)"
      by (simp_all add: load_entry_def Let_def)
    have "live_in ?np = {#}" by (simp add: live_in_def dict_def freedict_items)
    moreover have "entry_ok env np'" if "np' \<in> set ch" "ch \<in> set ((pl_table p)[slot name := ?np # pl_table p ! slot name])" for np' ch
    proof -
      from that(2) have "ch = ?np # pl_table p ! slot name \<or> ch \<in> set (pl_table p)" by (meson insertE set_update_subset_insert subsetD)
      then show ?thesis using that(1) ok plugins_okD [OF assms(1) b] assms(1) by (auto simp: plugins_ok_def)
    qed
    ultimately show ?thesis
      using assms(1) b over_table_push [OF b, of live_in ?np] over_table_push [OF b, of file_of ?np]
      by (simp add: plugins_ok_def r plog_def file_of_def)
  next
    case False
    with None assms show ?thesis by (auto simp: load_entry_def Let_def)
  qed
qed

lemma set_entry_ok:
  assumes "plugins_ok env p" "fst bi < length (pl_table p)" "snd bi < length (pl_table p ! fst bi)"
    "entry_ok env np'" "pe_handle np' = pe_handle (entry_at p bi)"
    "created es + live_in (entry_at p bi) = dropped es + live_in np'" "opened es = {#}" "closed es = {#}"
  shows "plugins_ok env (plog es (set_entry bi np' p))"
proof -
  let ?t = "(pl_table p)[fst bi := (pl_table p ! fst bi)[snd bi := np']]"
  have live: "over_table live_in ?t + live_in (entry_at p bi) = over_table live_in (pl_table p) + live_in np'"
    using over_table_update [OF assms(2,3)] by (simp add: entry_at_def)
  have "over_table file_of ?t + file_of (entry_at p bi) = over_table file_of (pl_table p) + file_of np'"
    using over_table_update [OF assms(2,3)] by (simp add: entry_at_def)
  then have files: "over_table file_of ?t = over_table file_of (pl_table p)"
    using assms(5) by (simp add: file_of_def split: option.splits)
  have "entry_ok env np" if "np \<in> set ch" "ch \<in> set ?t" for np ch
  proof -
    from that(2) have "ch = (pl_table p ! fst bi)[snd bi := np'] \<or> ch \<in> set (pl_table p)"
      by (meson insertE set_update_subset_insert subsetD)
    then have "np = np' \<or> (\<exists>ch \<in> set (pl_table p). np \<in> set ch)"
      using that(1) assms(2) by (meson insertE nth_mem set_update_subset_insert subsetD)
    then show ?thesis using assms(1,4) by (auto simp: plugins_ok_def)
  qed
  moreover have "created (pl_log p) + created es = dropped (pl_log p) + dropped es + over_table live_in ?t"
  proof -
    have "created (pl_log p) + created es + live_in (entry_at p bi) = dropped (pl_log p) + over_table live_in (pl_table p) + (dropped es + live_in np')"
      using assms(1,6) by (simp add: plugins_ok_def add.assoc)
    also have "\<dots> = dropped (pl_log p) + dropped es + over_table live_in ?t + live_in (entry_at p bi)"
      using live by (simp add: ac_simps)
    finally show ?thesis by simp
  qed
  ultimately show ?thesis
    using assms(1,7,8) files by (simp add: plugins_ok_def plog_def set_entry_def)
qed

lemma plugin_load_ok:
  assumes "plugins_ok env p" "plugins_complete env" "create_keeps env"
  shows "plugins_ok env (snd (antd_plugin_load env cfg name p))"
proof -
  obtain r p1 where le: "load_entry env cfg name p = (r, p1)" by (cases "load_entry env cfg name p")
  note ok1 = load_entry_ok [OF assms(1) le]
  show ?thesis
  proof (cases r)
    case None
    with le ok1 show ?thesis by (simp add: antd_plugin_load_def)
  next
    case (Some bi)
    obtain c np' es where cl: "antd_plugin_ctx_lookup env cfg (entry_at p1 bi) name = (c, np', es)"
      by (cases "antd_plugin_ctx_lookup env cfg (entry_at p1 bi) name")
    have "entry_ok env (entry_at p1 bi)"
      using ok1 Some by (intro plugins_okD [of env p1 "fst bi"]) (simp_all add: entry_at_def)
    note cok = ctx_lookup_ok [OF this cl assms(2,3)]
    have "plugins_ok env (plog es (set_entry bi np' p1))"
      using cok ok1 Some by (intro set_entry_ok) auto
    then show ?thesis using cok Some le cl by (auto simp: antd_plugin_load_def split: option.splits)
  qed
qed

lemma entry_drop_events:
  assumes "entry_ok env np"
  shows "created (antd_plugin_entry_drop np) = {#} \<and> dropped (antd_plugin_entry_drop np) = live_in np \<and>
    opened (antd_plugin_entry_drop np) = {#} \<and> closed (antd_plugin_entry_drop np) = file_of np"
proof -
  obtain d path where d: "pe_instances np = Some d" "pe_handle np = Some path" "dict_ok d"
      "\<And>k c. dvalue d k = Some c \<Longrightarrow> px_drop c"
    using assms by (auto simp: entry_ok_def)
  have "\<forall>it \<in> set (dict_items d). \<forall>c. snd it = Some c \<longrightarrow> px_drop c"
    using d(3,4) by (auto simp: dict_items_abs dvalue_abs) (metis bind.simps(2) id_apply)
  moreover have "concat (map (\<lambda>it. snd (antd_plugin_ctx_drop np (snd it))) its) =
      map (\<lambda>c. RunDrop path (px_name c)) (free_association its)" if "\<forall>it \<in> set its. \<forall>c. snd it = Some c \<longrightarrow> px_drop c" for its
    using that by (induction its) (auto simp: antd_plugin_ctx_drop_def d(2) split: option.splits)
  ultimately have "concat (map (\<lambda>it. snd (antd_plugin_ctx_drop np (snd it))) (dict_items d)) =
      map (\<lambda>c. RunDrop path (px_name c)) (free_association (dict_items d))" by blast
  then have "antd_plugin_entry_drop np = map (\<lambda>c. RunDrop path (px_name c)) (freedict d) @ [DlClose path]"
    using d by (simp add: antd_plugin_entry_drop_def freedict_items)
  moreover have "created (map (\<lambda>c. RunDrop path (px_name c)) cs) = {#} \<and>
      dropped (map (\<lambda>c. RunDrop path (px_name c)) cs) = mset (map (\<lambda>c. (path, px_name c)) cs) \<and>
      opened (map (\<lambda>c. RunDrop path (px_name c)) cs) = {#} \<and> closed (map (\<lambda>c. RunDrop path (px_name c)) cs) = {#}" for cs
    by (induction cs) (auto simp: event_defs)
  ultimately show ?thesis using d by (simp add: live_in_def file_of_def)
qed

lemma unload_events:
  assumes "\<forall>np \<in> set nps. entry_ok env np"
  shows "created (concat (map antd_plugin_entry_drop nps)) = {#} \<and> opened (concat (map antd_plugin_entry_drop nps)) = {#} \<and>
    dropped (concat (map antd_plugin_entry_drop nps)) = sum_list (map live_in nps) \<and>
    closed (concat (map antd_plugin_entry_drop nps)) = sum_list (map file_of nps)"
  using assms entry_drop_events by (induction nps) auto

section \<open>Loading again\<close>

lemma find_entry_update:
  "find_entry s ch = Some i \<Longrightarrow> pe_name np = pe_name (ch ! i) \<Longrightarrow> find_entry s (ch[i := np]) = Some i"
  by (induction ch arbitrary: i) (auto split: if_splits)

lemma lookup_after:
  assumes "plugins_ok env p" "load_entry env cfg name p = (Some bi, p1)" "slot (plugin_file cfg name) = slot name"
    "pe_name np = pe_name (entry_at p1 bi)"
  shows "plugin_lookup (set_entry bi np p1) (plugin_file cfg name) = Some bi"
proof (cases "plugin_lookup p (plugin_file cfg name)")
  case (Some bi')
  with assms(2) have "bi' = bi" "p1 = p" by (simp_all add: load_entry_def Let_def)
  with Some assms(4) slot_less assms(1) show ?thesis
    by (auto simp: plugin_lookup_def set_entry_def entry_at_def plugins_ok_def intro!: find_entry_update)
next
  case None
  with assms slot_less [of name] show ?thesis
    by (auto simp: load_entry_def Let_def plugin_lookup_def set_entry_def entry_at_def plog_def plugins_ok_def split: if_splits)
qed

lemma set_entry_same:
  assumes "fst bi < length (pl_table p)" "snd bi < length (pl_table p ! fst bi)"
  shows "entry_at (set_entry bi np p) bi = np" "set_entry bi np (set_entry bi np p) = set_entry bi np p"
  using assms by (simp_all add: entry_at_def set_entry_def)

lemma plog_nil [simp]: "plog [] p = p" "plugin_lookup (plog es p) s = plugin_lookup p s" "entry_at (plog es p) bi = entry_at p bi"
    "set_entry bi np (plog es p) = plog es (set_entry bi np p)"
  by (simp_all add: plog_def plugin_lookup_def entry_at_def set_entry_def)

section \<open>Properties\<close>

text \<open>C15. Whatever plugins are requested, in whatever order and however their initialisation ends, after
  \<open>antd_unload_all_plugin\<close> each context that was created has been dropped exactly once and each file
  that was opened has been closed exactly once, and the table is empty.\<close>

theorem plugin_balance:
  assumes "plugins_complete env" "create_keeps env"
    "p = antd_unload_all_plugin (foldl (\<lambda>p name. snd (antd_plugin_load env cfg name p)) no_plugins names)"
  shows "created (pl_log p) = dropped (pl_log p) \<and> opened (pl_log p) = closed (pl_log p) \<and> concat (pl_table p) = []"
proof -
  define q where "q = foldl (\<lambda>p name. snd (antd_plugin_load env cfg name p)) no_plugins names"
  have "plugins_ok env no_plugins" by (simp add: plugins_ok_def no_plugins_def over_table_def)
  then have q: "plugins_ok env q"
    unfolding q_def by (induction names rule: rev_induct) (auto intro: plugin_load_ok assms(1,2))
  then have "\<forall>np \<in> set (concat (pl_table q)). entry_ok env np" by (auto simp: plugins_ok_def)
  from unload_events [OF this] q show ?thesis
    by (simp add: assms(3) antd_unload_all_plugin_def plog_def plugins_ok_def over_table_def flip: q_def)
qed

definition demo_dl :: dl_env where
  "demo_dl = \<lparr>dl_open = (\<lambda>path. path = ''plugins//a.so''), dl_sym = (\<lambda>path s. True),
     dl_create = (\<lambda>path c. if px_name c = ''bad'' then antd_plugin_set_status c ANTD_PLUGIN_PANNIC else antd_plugin_use_raw_body c)\<rparr>"

lemma demo_dl_ok: "plugins_complete demo_dl" "create_keeps demo_dl"
  by (auto simp: plugins_complete_def create_keeps_def demo_dl_def antd_plugin_set_status_def antd_plugin_use_raw_body_def)

theorem plugin_balance_witness:
  "let p = antd_unload_all_plugin (foldl (\<lambda>p name. snd (antd_plugin_load demo_dl default_config name p)) no_plugins [''a'', ''x'', ''a''])
   in created (pl_log p) = dropped (pl_log p) \<and> opened (pl_log p) = closed (pl_log p)"
  using plugin_balance [OF demo_dl_ok refl, of default_config "[''a'', ''x'', ''a'']"] by (simp add: Let_def)

text \<open>A plugin whose section does not rename its file is loaded once: asking for it again gives the
  same context, runs nothing and changes nothing.\<close>

lemma plugin_load_again:
  assumes "plugins_ok env p" "plugins_complete env" "create_keeps env" "slot (plugin_file cfg name) = slot name"
    "antd_plugin_load env cfg name p = (Some ctx, p1)"
  shows "antd_plugin_load env cfg name p1 = (Some ctx, p1)"
proof -
  obtain r q where le: "load_entry env cfg name p = (r, q)" by (cases "load_entry env cfg name p")
  then obtain bi where bi: "load_entry env cfg name p = (Some bi, q)"
    using assms(5) by (cases r) (auto simp: antd_plugin_load_def)
  note ok = load_entry_ok [OF assms(1) bi]
  obtain c np es where cl: "antd_plugin_ctx_lookup env cfg (entry_at q bi) name = (c, np, es)"
    by (cases "antd_plugin_ctx_lookup env cfg (entry_at q bi) name")
  have "entry_ok env (entry_at q bi)" using ok by (intro plugins_okD [of env q "fst bi"]) (simp_all add: entry_at_def)
  note cok = ctx_lookup_ok [OF this cl assms(2,3)]
  from assms(5) bi cl have p1: "c = Some ctx" "p1 = plog es (set_entry bi np q)"
    by (auto simp: antd_plugin_load_def split: option.splits if_splits prod.splits)
  with cok obtain d where d: "px_status ctx = ANTD_PLUGIN_READY" "pe_instances np = Some d" "dvalue d name = Some ctx"
    "entry_ok env np" by auto
  have "load_entry env cfg name p1 = (Some bi, p1)"
    using lookup_after [OF assms(1) bi assms(4)] cok by (simp add: load_entry_def Let_def p1)
  moreover have "entry_at p1 bi = np" "set_entry bi np p1 = p1" using ok set_entry_same [of bi q np] by (simp_all add: p1)
  moreover have "antd_plugin_ctx_lookup env cfg np name = (Some ctx, np, [])"
    using d by (auto simp: antd_plugin_ctx_lookup_def entry_ok_def)
  ultimately show ?thesis using d(1) by (simp add: antd_plugin_load_def)
qed

lemma demo_load:
  "\<exists>ctx. antd_plugin_load demo_dl default_config ''a'' no_plugins = (Some ctx, snd (antd_plugin_load demo_dl default_config ''a'' no_plugins)) \<and>
    antd_plugin_is_raw_body ctx"
proof -
  have "plugin_file default_config ''a'' = ''a''" by (simp add: plugin_file_def default_config_def)
  moreover have "plugin_lookup no_plugins ''a'' = None" using slot_less by (simp add: plugin_lookup_def no_plugins_def)
  moreover have "plugin_path default_config ''a'' = ''plugins//a.so''" by (simp add: plugin_path_def default_config_def)
  ultimately show ?thesis
    using slot_less [of "''a''"]
    by (auto simp: antd_plugin_load_def load_entry_def Let_def no_plugins_def demo_dl_def plog_def entry_at_def antd_plugin_ctx_lookup_def
        create_ctx_def new_ctx_def antd_plugin_use_raw_body_def antd_plugin_is_raw_body_def ANTD_PLUGIN_PANNIC_def ANTD_PLUGIN_READY_def ANTD_PLUGIN_INIT_def)
qed

text \<open>A plugin whose section gives it another file is looked for in the chain of the file's name but
  stored in the chain of its own: whenever the two differ, every request opens the file again and
  creates a new context, so the plugin keeps no state between requests and nothing is ever
  freed.\<close>

lemma plugin_alias_reloads:
  assumes "plugins_complete env" "slot (plugin_file cfg name) \<noteq> slot name" "dl_open env (plugin_path cfg (plugin_file cfg name))"
    "\<forall>c. px_status (dl_create env (plugin_path cfg (plugin_file cfg name)) c) \<noteq> ANTD_PLUGIN_PANNIC"
  shows "pl_log (((\<lambda>p. snd (antd_plugin_load env cfg name p)) ^^ n) no_plugins) =
    concat (replicate n [DlOpen (plugin_path cfg (plugin_file cfg name)), RunCreate (plugin_path cfg (plugin_file cfg name)) name])"
proof -
  let ?file = "plugin_file cfg name" and ?path = "plugin_path cfg (plugin_file cfg name)"
  let ?load = "\<lambda>p. snd (antd_plugin_load env cfg name p)"
  have sym: "dl_sym env ?path ''handle''" "dl_sym env ?path ''drop''" "dl_sym env ?path ''create''"
    using assms(1,3) by (auto simp: plugins_complete_def)
  have step: "plugin_lookup (?load p) ?file = None \<and> length (pl_table (?load p)) = unat HASHSIZE \<and>
      pl_log (?load p) = pl_log p @ [DlOpen ?path, RunCreate ?path name]"
    if "plugin_lookup p ?file = None" "length (pl_table p) = unat HASHSIZE" for p
    using that sym assms(2-4) slot_less [of name]
    by (simp add: antd_plugin_load_def load_entry_def Let_def entry_at_def antd_plugin_ctx_lookup_def create_ctx_def
        plog_def set_entry_def plugin_lookup_def split: option.splits prod.splits if_splits)
  have "plugin_lookup ((?load ^^ n) no_plugins) ?file = None \<and> length (pl_table ((?load ^^ n) no_plugins)) = unat HASHSIZE \<and>
      pl_log ((?load ^^ n) no_plugins) = concat (replicate n [DlOpen ?path, RunCreate ?path name])"
  proof (induction n)
    case 0
    then show ?case using slot_less by (simp add: no_plugins_def plugin_lookup_def)
  next
    case (Suc n)
    have "concat (replicate n xs) @ xs = xs @ concat (replicate n xs)" for xs :: "plugin_event list"
      by (induction n) simp_all
    with Suc step [of "(?load ^^ n) no_plugins"] show ?case by simp
  qed
  then show ?thesis by blast
qed

definition demo_alias :: config where
  "demo_alias = default_config\<lparr>cf_plugins := dput dict ''b'' (Some (dput dict ''name'' (Some ''a'')))\<rparr>"

end
