(* ===== verification/Server.thy ===== *)
theory Server
  imports Request Plugins
begin

text \<open>
  The handlers of \<open>server.c\<close> that answer a request on this server, and the connections
  \<open>httpd.c\<close> hands them: \<open>antd_monitor\<close>, \<open>accept_request\<close>, \<open>resolve_request\<close>,
  \<open>execute_plugin\<close>, \<open>serve_file\<close>, \<open>finish_request\<close>, for a build with OpenSSL and without
  zlib.  What \<open>poll\<close> and \<open>SSL_accept\<close> answer are arguments, the file system and the date functions of
  the C library are a \<open>world\<close>.  \<open>None\<close> is a read through a null pointer or an access outside a buffer.
\<close>

section \<open>The environment\<close>

datatype poll_flag = POLLIN | POLLOUT | POLLERR | POLLHUP | POLLRDHUP | POLLNVAL

record st =
  st_dir :: bool
  st_size :: int
  st_ctime :: int

text \<open>\<open>stat\<close>, reading a file, the pattern match of the MIME table, writing a date and reading one.\<close>

record world =
  w_stat :: "cstring \<Rightarrow> st option"
  w_read :: "cstring \<Rightarrow> u8 list option"
  w_mime :: "cstring \<Rightarrow> cstring option \<Rightarrow> bool"
  w_date :: "int \<Rightarrow> cstring"
  w_parse :: "cstring \<Rightarrow> int"

definition ANTD_CLIENT_ACCEPT :: nat where "ANTD_CLIENT_ACCEPT = 0"
definition ANTD_CLIENT_HANDSHAKE :: nat where "ANTD_CLIENT_HANDSHAKE = 1"
definition ANTD_CLIENT_PLUGIN_EXEC :: nat where "ANTD_CLIENT_PLUGIN_EXEC = 3"
definition ANTD_CLIENT_PROTO_CHECK :: nat where "ANTD_CLIENT_PROTO_CHECK = 4"
definition ANTD_CLIENT_RESOLVE_REQUEST :: nat where "ANTD_CLIENT_RESOLVE_REQUEST = 5"
definition ANTD_CLIENT_SERVE_FILE :: nat where "ANTD_CLIENT_SERVE_FILE = 6"

definition on_client :: "(client \<Rightarrow> client) \<Rightarrow> request \<Rightarrow> request" where
  "on_client f rq = rq\<lparr>rq_client := f (rq_client rq)\<rparr>"

section \<open>A new connection\<close>

text \<open>\<open>antd_monitor\<close> for an accepted socket: the request with its dictionaries, and its task.  A port
  without \<open>htdocs\<close> has a null pointer duplicated; \<open>junk\<close> is what the memory of a port holds for
  \<open>usessl\<close> when the file does not set it.\<close>

definition new_request :: "port_config \<Rightarrow> cstring option \<Rightarrow> client \<Rightarrow> request option" where
  "new_request pcnf remote c =
     (case pc_htdocs pcnf of
        None \<Rightarrow> None
      | Some root \<Rightarrow>
          let d = dput (dput (dput (dput dict ''REQUEST_HEADER'' (Some (RqDict dict))) ''REQUEST_DATA'' (Some (RqDict dict)))
                ''SERVER_PORT'' (Some (RqStr (dec_int (pc_port pcnf))))) ''SERVER_WWW_ROOT'' (Some (RqStr root));
              d' = (case remote of None \<Rightarrow> d | Some ip \<Rightarrow> dput d ''REMOTE_ADDR'' (Some (RqStr ip)))
          in Some \<lparr>rq_client = c, rq_dict = d'\<rparr>)"

definition antd_monitor :: "int \<Rightarrow> config \<Rightarrow> port_config \<Rightarrow> cstring option \<Rightarrow> client \<Rightarrow> (reply \<times> request \<times> config) option" where
  "antd_monitor junk cfg pcnf remote c =
     (let usessl = (case pc_usessl pcnf of None \<Rightarrow> junk | Some n \<Rightarrow> n);
          c1 = c\<lparr>z_level := ANTD_CNONE, last_io := clock c, ssl := (usessl = 1), state := ANTD_CLIENT_ACCEPT\<rparr>
      in case new_request pcnf remote c1 of
           None \<Rightarrow> None
         | Some rq \<Rightarrow>
             Some ((bind_event rq (ON_WRITABLE + ON_READABLE) (create_task (Some AcceptRequest) rq))\<lparr>rp_callback := Some FinishRequest\<rparr>,
                   rq, cfg\<lparr>cf_connection := cf_connection cfg + 1\<rparr>))"

definition finish_request :: "config \<Rightarrow> config" where
  "finish_request cfg = cfg\<lparr>cf_connection := cf_connection cfg - 1\<rparr>"

section \<open>\<open>accept_request\<close>\<close>

text \<open>The part from reading the request line on.\<close>

definition read_request_line :: "reply \<Rightarrow> request \<Rightarrow> reply \<times> request" where
  "read_request_line task rq0 =
     (let (n, buf, c) = read_buf (rq_client rq0) BUFFLEN; rq = rq0\<lparr>rq_client := c\<rparr> in
      case strsep '' '' (cstr buf) of
        (token, None) \<Rightarrow> (task, rq_error 405 ''No method found'' rq)
      | (token, Some line) \<Rightarrow>
          let rq1 = rq_put ''METHOD'' (RqStr (trim token SP)) rq in
          (case strsep '' '' (trim line SP) of
             (token2, None) \<Rightarrow> (task, rq_error 400 ''Bad request'' rq1)
           | (token2, Some line2) \<Rightarrow>
               let query = trim token2 SP;
                   proto = trim (trim (trim line2 SP) LF) CR;
                   rq2 = rq_put ''REQUEST_QUERY'' (RqStr query) (rq_put ''PROTOCOL'' (RqStr proto) rq1);
                   path = fst (strsep ''?'' query);
                   rq3 = (case url_decode (Some path) of None \<Rightarrow> rq2 | Some u \<Rightarrow> rq_put ''REQUEST_PATH'' (RqStr u) rq2)
               in (task\<lparr>rp_handle := Some DecodeRequestHeader\<rparr>, rq3)))"

definition accept_request :: "int \<times> poll_flag set \<Rightarrow> int \<times> tls_err \<Rightarrow> request \<Rightarrow> reply \<times> request" where
  "accept_request polled accepted rq =
     (let (sel, revents) = polled;
          task = bind_event rq (ON_WRITABLE + ON_READABLE) (create_task None rq);
          again = (task\<lparr>rp_handle := Some AcceptRequest\<rparr>, rq)
      in if sel = -1 \<or> POLLERR \<in> revents \<or> POLLHUP \<in> revents then (task, rq_error 400 ''Bad request'' rq)
         else if sel = 0 \<or> POLLIN \<notin> revents \<and> POLLOUT \<notin> revents then again
         else if ssl (rq_client rq) \<and> state (rq_client rq) = ANTD_CLIENT_ACCEPT then
           (if fst accepted = -1 then
              (case snd accepted of
                 TLS_WANT_READ _ \<Rightarrow> again
               | TLS_WANT_WRITE _ \<Rightarrow> again
               | TLS_NONE \<Rightarrow> again
               | _ \<Rightarrow> (task, rq_error 400 ''Invalid SSL request'' rq))
            else (task\<lparr>rp_handle := Some AcceptRequest\<rparr>, set_state ANTD_CLIENT_HANDSHAKE rq))
         else if POLLIN \<notin> revents then again
         else read_request_line task (set_state ANTD_CLIENT_PROTO_CHECK rq))"

section \<open>\<open>execute_plugin\<close>\<close>

definition plugin_pattern :: "cstring \<Rightarrow> cstring" where
  "plugin_pattern pname = take 255 ([CHR 0x5C, CHR ''b''] @ pname @ [CHR 0x5C, CHR ''b''])"

definition execute_plugin ::
  "(cstring \<Rightarrow> cstring \<Rightarrow> regmatch list option) \<Rightarrow> dl_env \<Rightarrow> config \<Rightarrow> request \<Rightarrow> cstring \<Rightarrow> plugins \<Rightarrow> (reply \<times> request \<times> plugins) option" where
  "execute_plugin rgx env cfg rq pname p =
     do {
       let task = bind_event rq (ON_WRITABLE + ON_READABLE) (create_task None rq);
       port_s \<leftarrow> rq_str rq ''SERVER_PORT'';
       pcnf \<leftarrow> dvalue (cf_ports cfg) port_s;
       (if (case pc_plugins pcnf of None \<Rightarrow> True | Some enabled \<Rightarrow> rgx (plugin_pattern pname) enabled = None)
        then Some (task, rq_error 403 ''Access forbidden'' rq, p)
        else
          let rq1 = set_state ANTD_CLIENT_PLUGIN_EXEC rq in
          (case antd_plugin_load env cfg pname p of
             (None, p') \<Rightarrow> Some (task, rq_error 503 ''Requested service not found'' rq1, p')
           | (Some ctx, p') \<Rightarrow>
               if antd_plugin_is_raw_body ctx then Some (task\<lparr>rp_handle := Some (PluginHandle pname)\<rparr>, rq1, p')
               else Some ((create_task (Some DecodePostRequest) rq1)\<lparr>rp_callback := Some (PluginHandle pname)\<rparr>, rq1, p')))
     }"

section \<open>\<open>resolve_request\<close>\<close>

definition PATH_SIZE :: nat where "PATH_SIZE = 2 * BUFFLEN"

definition cut_path :: "cstring \<Rightarrow> cstring" where
  "cut_path s = take (PATH_SIZE - 1) s"

lemma recv_shrinks:
  assumes "antd_recv c n = (r, bs, c1)" "0 < r"
  shows "length (rx_stream (rx c1)) < length (rx_stream (rx c))"
  using recv_loop_spec [of n "[]" c r bs c1] assms by (auto simp: antd_recv_def)

text \<open>The loop that discards the request body.  Each turn asks for the whole length again, up to the size
  of the buffer, not for what is left.\<close>

function discard_loop :: "nat \<Rightarrow> nat \<Rightarrow> client \<Rightarrow> client" where
  "discard_loop clen got c =
     (if got < clen then
        (case antd_recv c (int (min PATH_SIZE clen)) of
           (n, bs, c1) \<Rightarrow>
             if n \<le> 0 then c1 else discard_loop clen ((got + nat n) mod 2 ^ 32) c1)
      else c)"
  by pat_completeness auto
termination
  by (relation "measure (\<lambda>(clen, got, c). length (rx_stream (rx c)))") (simp, metis in_measure not_le old.prod.case recv_shrinks)

declare discard_loop.simps [simp del]

definition discard_body :: "request \<Rightarrow> request" where
  "discard_body rq =
     (case rq_sub rq ''REQUEST_HEADER'' of
        None \<Rightarrow> rq
      | Some headers \<Rightarrow>
          (case dvalue headers ''Content-Length'' of
             None \<Rightarrow> rq
           | Some sclen \<Rightarrow> on_client (discard_loop (nat (atoi sclen mod 2 ^ 32)) 0) rq))"

text \<open>The file to send, for a path that exists: the path itself or an index file.\<close>

definition index_path :: "world \<Rightarrow> config \<Rightarrow> cstring \<Rightarrow> cstring \<Rightarrow> cstring \<Rightarrow> cstring option option" where
  "index_path w cfg root url path =
     (let path2 = path @ ''/index.html'' in
      if length path2 \<ge> PATH_SIZE then None
      else if w_stat w path2 \<noteq> None then Some (Some path2)
      else Some (find (\<lambda>q. w_stat w q \<noteq> None)
        (map (\<lambda>it. cut_path (root @ ''/'' @ url @ ''/index.'' @ fst it)) (dict_items (cf_handlers cfg)))))"

definition send_resource ::
  "(cstring \<Rightarrow> cstring \<Rightarrow> regmatch list option) \<Rightarrow> dl_env \<Rightarrow> world \<Rightarrow> config \<Rightarrow> reply \<Rightarrow> cstring \<Rightarrow> request \<Rightarrow> plugins
    \<Rightarrow> (reply \<times> request \<times> plugins) option" where
  "send_resource rgx env w cfg task path rq p =
     do {
       mtype \<leftarrow> mime (w_mime w) (Some (cf_mimes cfg)) (Some path);
       let rq1 = rq_put ''RESOURCE_MIME'' (RqStr mtype) (rq_put ''RESOURCE_PATH'' (RqStr path) rq);
       (if mtype = octet_stream then
          (case Option.bind (ext (Some path)) (dvalue (cf_handlers cfg)) of
             Some h \<Rightarrow> execute_plugin rgx env cfg rq1 h p
           | None \<Rightarrow> Some (task, rq_error 403 ''Access forbidden'' rq1, p))
        else
          let rq2 = discard_body rq1 in
          Some ((bind_event rq2 ON_WRITABLE task)\<lparr>rp_handle := Some ServeFile\<rparr>, rq2, p))
     }"

definition resolve_request ::
  "(cstring \<Rightarrow> cstring \<Rightarrow> regmatch list option) \<Rightarrow> dl_env \<Rightarrow> world \<Rightarrow> config \<Rightarrow> request \<Rightarrow> plugins
    \<Rightarrow> (reply \<times> request \<times> plugins) option" where
  "resolve_request rgx env w cfg rq0 p =
     do {
       let task = create_task None rq0;
       let rq = set_state ANTD_CLIENT_RESOLVE_REQUEST rq0;
       url \<leftarrow> rq_str rq ''REQUEST_URI'';
       root \<leftarrow> rq_str rq ''SERVER_WWW_ROOT'';
       let path = cut_path (root @ ''/'' @ url);
       (case w_stat w path of
          None \<Rightarrow>
            let (newurl, rest) = strsep ''/'' (trim url (CHR ''/''));
                rqp = (case rest of None \<Rightarrow> ''/'' | Some r \<Rightarrow> r)
            in execute_plugin rgx env cfg
                 (rq_put ''RESOURCE_PATH'' (RqStr (root @ ''/'' @ rqp)) (rq_put ''REQUEST_URI'' (RqStr rqp) rq)) newurl p
        | Some s \<Rightarrow>
            if st_dir s then
              do {
                found \<leftarrow> index_path w cfg root url path;
                (case found of
                   None \<Rightarrow> Some (task, rq_error 404 ''Resource Not Found'' rq, p)
                 | Some q \<Rightarrow> send_resource rgx env w cfg task q rq p)
              }
            else send_resource rgx env w cfg task path rq p)
     }"

section \<open>\<open>serve_file\<close>\<close>

definition file_headers :: "world \<Rightarrow> st \<Rightarrow> cstring \<Rightarrow> cstring dictionary" where
  "file_headers w s mtype =
     dput (dput (dput (dput dict ''Content-Type'' (Some mtype))
       ''Content-Length'' (Some (dec_int (sint (word_of_int (st_size s) :: u32)))))
       ''Last-Modified'' (Some (w_date w (st_ctime s))))
       ''Cache-Control'' (Some ''no-cache'')"

definition serve_file :: "world \<Rightarrow> request \<Rightarrow> (reply \<times> request) option" where
  "serve_file w rq0 =
     do {
       let task = create_task None rq0;
       let rq = set_state ANTD_CLIENT_SERVE_FILE rq0;
       path \<leftarrow> rq_str rq ''RESOURCE_PATH'';
       mtype \<leftarrow> rq_str rq ''RESOURCE_MIME'';
       (case w_stat w path of
          None \<Rightarrow> Some (task, rq_error 404 ''File not found'' rq)
        | Some s \<Rightarrow>
            do {
              header \<leftarrow> rq_sub rq ''REQUEST_HEADER'';
              (if (case dvalue header ''If-Modified-Since'' of None \<Rightarrow> False | Some since \<Rightarrow> st_ctime s = w_parse w since)
               then Some (task, rq_error 304 [] rq)
               else
                 Some (task, on_client (\<lambda>c. snd (snd (f_send (fst (antd_send_header c
                   \<lparr>rh_header = Some (file_headers w s mtype), rh_cookie = [], rh_status = 200\<rparr>)) (w_read w path)))) rq))
            })
     }"

end
