(* ===== verification/Proxy.thy ===== *)
theory Proxy
  imports Server
begin

text \<open>
  The reverse proxy of \<open>server.c\<close>: \<open>proxify\<close> opens the connection to the other server and
  forwards the request, \<open>proxy_monitor\<close> passes bytes in both directions.  The host name lookup, the
  connection it makes and the answers of \<open>poll\<close> are arguments; after the end of its script \<open>poll\<close>
  says that nothing is ready.
\<close>

section \<open>\<open>proxify\<close>\<close>

definition ANTD_CLIENT_PROXY_MONITOR :: nat where "ANTD_CLIENT_PROXY_MONITOR = 8"

definition rq_peer :: "request \<Rightarrow> client option" where
  "rq_peer rq = (case dvalue (rq_dict rq) ''PROXY_HANDLE'' of Some (RqClient c) \<Rightarrow> Some c | _ \<Rightarrow> None)"

text \<open>\<open>antd_send\<close> of a whole line, and whether all of it left.\<close>

definition send_all :: "client \<Rightarrow> cstring \<Rightarrow> bool \<times> client" where
  "send_all c s = (case antd_send c (map byte_of s) of (ret, c') \<Rightarrow> (ret = int (length s), c'))"

definition forward_line :: "cstring \<times> cstring option \<Rightarrow> cstring" where
  "forward_line it = fst it @ '': '' @ (case snd it of Some v \<Rightarrow> v | None \<Rightarrow> ''(null)'') @ CRLF"

fun forward_headers :: "client \<Rightarrow> (cstring \<times> cstring option) list \<Rightarrow> bool \<times> client" where
  "forward_headers c [] = (True, c)"
| "forward_headers c (it # its) =
     (case send_all c (forward_line it) of (ok, c1) \<Rightarrow> if ok then forward_headers c1 its else (False, c1))"

definition forward_request :: "client \<Rightarrow> cstring \<Rightarrow> cstring \<Rightarrow> cstring \<Rightarrow> cstring dictionary \<Rightarrow> bool \<times> client" where
  "forward_request proxy method path query xheader =
     (case send_all proxy (method @ '' '' @ path @ ''?'' @ query @ '' HTTP/1.1'' @ CRLF) of
        (ok, p1) \<Rightarrow>
          if \<not> ok then (False, p1)
          else (case forward_headers p1 (dict_items xheader) of
                  (ok, p2) \<Rightarrow> if \<not> ok then (False, p2) else (True, snd (send_all p2 CRLF))))"

definition proxify ::
  "(cstring \<Rightarrow> cstring option) \<Rightarrow> (cstring \<Rightarrow> int \<Rightarrow> client option) \<Rightarrow> request \<Rightarrow> (reply \<times> request) option" where
  "proxify ip_from_hostname request_socket rq0 =
     do {
       let rq = set_state ANTD_CLIENT_RESOLVE_REQUEST rq0;
       host \<leftarrow> rq_str rq ''PROXY_HOST'';
       port_s \<leftarrow> rq_str rq ''PROXY_PORT'';
       path \<leftarrow> rq_str rq ''PROXY_PATH'';
       query \<leftarrow> rq_str rq ''PROXY_QUERY'';
       method \<leftarrow> rq_str rq ''METHOD'';
       let task = create_task None rq;
       (case rq_sub rq ''REQUEST_HEADER'' of
          None \<Rightarrow> Some (task, rq_error 400 ''Badd Request'' rq)
        | Some xheader \<Rightarrow>
            (case ip_from_hostname host of
               None \<Rightarrow> Some (task, rq_error 502 ''Badd address'' rq)
             | Some ip \<Rightarrow>
                 (case request_socket ip (atoi port_s) of
                    None \<Rightarrow> Some (task, rq_error 503 ''Service Unavailable'' rq)
                  | Some peer \<Rightarrow>
                      let proxy = peer\<lparr>ssl := False, z_level := ANTD_CNONE, last_io := clock peer\<rparr> in
                      (case forward_request proxy method path query xheader of
                         (ok, proxy1) \<Rightarrow>
                           let rq1 = rq_put ''PROXY_HANDLE'' (RqClient proxy1) rq in
                           if \<not> ok then Some (task, rq_error 500 [] rq1)
                           else Some (task\<lparr>rp_handle := Some ProxyMonitor, rp_access := last_io (rq_client rq1),
                                        rp_events := rp_events task @ [(sock proxy1, 0, ON_READABLE + ON_WRITABLE)]\<rparr>, rq1)))))
     }"

section \<open>\<open>proxy_monitor\<close>\<close>

text \<open>How the loop ends: a side is closed or fails, \<open>poll\<close> fails, or nothing is left to pass on.\<close>

datatype monitor_end = MonStop | MonPollError | MonIdle "poll_flag set"

lemma recv_upto_stream:
  assumes "antd_recv_upto c n = (r, bs, c')"
  shows "rx_stream (rx c) = bs @ rx_stream (rx c') \<and> rx_frame c c' \<and> (r = int (length bs) \<or> r \<le> 0 \<and> bs = [])"
proof -
  have data: ?thesis if rx: "rx c = (d, RxData b bs') # rest" for d b bs' rest
  proof -
    obtain got c2 where s: "sys_read n c = (IoMoved got, c2)" using rx by (simp add: sys_read_def Let_def)
    then have "r = int (length got)" "bs = got" "c' = c2" using assms rx by (auto simp: antd_recv_upto_def)
    with s sys_read_stream [of c n] sys_read_frame [of c n] show ?thesis by simp
  qed
  have other: ?thesis if "\<forall>d b bs' rest. rx c \<noteq> (d, RxData b bs') # rest"
    using assms that
    by (auto simp: antd_recv_upto_def rx_fail_def tick_def rx_frame_def Let_def
        split: list.splits prod.splits rx_ev.splits if_splits tls_err.splits)
  show ?thesis using data other by blast
qed

lemma recv_upto_shrinks:
  "antd_recv_upto c n = (r, bs, c') \<Longrightarrow> 0 < r \<Longrightarrow> length (rx_stream (rx c')) < length (rx_stream (rx c))"
  using recv_upto_stream [of c n r bs c'] by auto

lemma antd_send_rx: "antd_send c data = (r, c') \<Longrightarrow> rx c' = rx c"
  using antd_send_spec [of c data r c'] by (auto simp: tx_frame_def)

text \<open>One turn: \<open>Inl\<close> ends the loop.\<close>

definition next_poll :: "(int \<times> poll_flag set) list \<Rightarrow> (int \<times> poll_flag set) \<times> (int \<times> poll_flag set) list" where
  "next_poll ps = (case ps of [] \<Rightarrow> ((0, {}), []) | q # qs \<Rightarrow> (q, qs))"

definition monitor_turn ::
  "(int \<times> poll_flag set) list \<Rightarrow> client \<Rightarrow> client \<Rightarrow> (monitor_end option \<times> (int \<times> poll_flag set) list \<times> client \<times> client)" where
  "monitor_turn polls c p =
     (let (sz1, bs1, c1) = antd_recv_upto c BUFFLEN;
          (r1, p1) = (if sz1 > 0 then antd_send p bs1 else (0, p))
      in if sz1 < 0 \<or> sz1 > 0 \<and> r1 \<noteq> sz1 then (Some MonStop, polls, c1, p1)
         else
           let ((pret, revents), polls') = next_poll polls;
               readable = pret > 0 \<and> POLLIN \<in> revents;
               (sz2, bs2, p2) = (if readable then antd_recv_upto p1 BUFFLEN else (0, [], p1));
               (r2, c2) = (if sz2 > 0 then antd_send c1 bs2 else (0, c1))
           in if pret < 0 then (Some MonPollError, polls', c1, p1)
              else if readable \<and> (sz2 \<le> 0 \<or> r2 \<noteq> sz2) then (Some MonStop, polls', c2, p2)
              else if pret > 0 \<and> revents \<inter> {POLLERR, POLLRDHUP, POLLHUP, POLLNVAL} \<noteq> {} then (Some MonStop, polls', c2, p2)
              else if sz1 > 0 \<or> sz2 > 0 then (None, polls', c2, p2)
              else (Some (MonIdle revents), polls', c2, p2))"

text \<open>What a turn does to the two streams: the bytes taken from one side, and how many of them went to the
  other.\<close>

lemma monitor_turn_streams:
  assumes "monitor_turn polls c p = (r, polls', c', p')"
  shows "\<exists>up down i j. rx_stream (rx c) = up @ rx_stream (rx c') \<and> rx_stream (rx p) = down @ rx_stream (rx p') \<and>
    sent p' = sent p @ take i up \<and> sent c' = sent c @ take j down \<and>
    (r \<noteq> Some MonStop \<longrightarrow> length up \<le> i \<and> length down \<le> j) \<and> (r = None \<longrightarrow> up \<noteq> [] \<or> down \<noteq> [])"
proof -
  obtain sz1 bs1 c1 where 1: "antd_recv_upto c BUFFLEN = (sz1, bs1, c1)" by (cases "antd_recv_upto c BUFFLEN")
  obtain r1 p1 where 2: "(if sz1 > 0 then antd_send p bs1 else (0, p)) = (r1, p1)" by fastforce
  obtain pret revents ps where 3: "next_poll polls = ((pret, revents), ps)" by (metis surj_pair)
  let ?readable = "pret > 0 \<and> POLLIN \<in> revents"
  obtain sz2 bs2 p2 where 4: "(if ?readable then antd_recv_upto p1 BUFFLEN else (0, [], p1)) = (sz2, bs2, p2)"
    by (metis surj_pair)
  obtain r2 c2 where 5: "(if sz2 > 0 then antd_send c1 bs2 else (0, c1)) = (r2, c2)" by (metis surj_pair)
  have s1: "rx_stream (rx c) = bs1 @ rx_stream (rx c1)" "sent c1 = sent c" "sz1 = int (length bs1) \<or> sz1 \<le> 0 \<and> bs1 = []"
    using recv_upto_stream [OF 1] by (auto simp: rx_frame_def)
  obtain i where i: "sent p1 = sent p @ take i bs1" "rx p1 = rx p" "r1 = sz1 \<longrightarrow> length bs1 \<le> i"
    using 2 antd_send_spec [of p bs1 r1 p1] antd_send_rx [of p bs1 r1 p1] s1(3) by (cases "sz1 > 0") fastforce+
  have s2: "rx_stream (rx p) = bs2 @ rx_stream (rx p2)" "sent p2 = sent p1" "sz2 = int (length bs2) \<or> sz2 \<le> 0 \<and> bs2 = []"
    using 4 recv_upto_stream [of p1 BUFFLEN sz2 bs2 p2] i(2) by (auto simp: rx_frame_def split: if_splits)
  obtain j where j: "sent c2 = sent c1 @ take j bs2" "rx c2 = rx c1" "r2 = sz2 \<longrightarrow> length bs2 \<le> j"
    using 5 antd_send_spec [of c1 bs2 r2 c2] antd_send_rx [of c1 bs2 r2 c2] s2(3) by (cases "sz2 > 0") fastforce+
  note turn = assms [unfolded monitor_turn_def 1 2 3 4 5 Let_def prod.case]
  have none: "bs2 = []" if "pret \<le> 0" using 4 that by auto
  have sz: "sz1 \<le> 0 \<Longrightarrow> bs1 = []" "sz2 \<le> 0 \<Longrightarrow> bs2 = []" "0 < sz1 \<Longrightarrow> bs1 \<noteq> []" "0 < sz2 \<Longrightarrow> bs2 \<noteq> []"
    using s1(3) s2(3) by auto
  have all: "sz1 \<le> 0 \<or> r1 = sz1 \<Longrightarrow> length bs1 \<le> i" "sz2 \<le> 0 \<or> r2 = sz2 \<Longrightarrow> length bs2 \<le> j"
    using sz(1,2) i(3) j(3) by auto
  consider "r = Some MonStop" "c' = c1" "p' = p1" | "r = Some MonPollError" "pret < 0" "c' = c1" "p' = p1" "sz1 \<le> 0 \<or> r1 = sz1"
    | "c' = c2" "p' = p2" "r \<noteq> Some MonStop \<longrightarrow> (sz1 \<le> 0 \<or> r1 = sz1) \<and> (sz2 \<le> 0 \<or> r2 = sz2)" "r = None \<longrightarrow> 0 < sz1 \<or> 0 < sz2"
    using turn 4 by (auto split: if_splits)
  then show ?thesis
  proof cases
    case 1
    with s1 s2 i show ?thesis by (intro exI [of _ bs1] exI [of _ "[]"] exI [of _ i] exI [of _ 0]) simp
  next
    case 2
    with s1(1,2) s2(1,2) i(1,2) all(1) show ?thesis
      by (intro exI [of _ bs1] exI [of _ "[]"] exI [of _ i] exI [of _ 0]) simp
  next
    case 3
    have "r \<noteq> Some MonStop \<longrightarrow> length bs1 \<le> i \<and> length bs2 \<le> j" "r = None \<longrightarrow> bs1 \<noteq> [] \<or> bs2 \<noteq> []"
      using 3(3,4) all sz(3,4) by blast+
    with 3(1,2) s1(1,2) s2(1,2) i(1,2) j(1,2) show ?thesis
      by (intro exI [of _ bs1] exI [of _ bs2] exI [of _ i] exI [of _ j]) simp
  qed
qed

function monitor_loop ::
  "(int \<times> poll_flag set) list \<Rightarrow> client \<Rightarrow> client \<Rightarrow> monitor_end \<times> (int \<times> poll_flag set) list \<times> client \<times> client" where
  "monitor_loop polls c p =
     (case monitor_turn polls c p of
        (Some e, polls', c', p') \<Rightarrow> (e, polls', c', p')
      | (None, polls', c', p') \<Rightarrow> monitor_loop polls' c' p')"
  by pat_completeness auto
termination
proof (relation "measure (\<lambda>(polls, c, p). length (rx_stream (rx c)) + length (rx_stream (rx p)))", goal_cases)
  case (2 polls c p r y polls' z c' p')
  then have "monitor_turn polls c p = (None, polls', c', p')" by simp
  from monitor_turn_streams [OF this] show ?case by auto
qed simp

declare monitor_loop.simps [simp del]

text \<open>\<open>proxy_monitor\<close>: after a stop or a failed \<open>poll\<close> the connection is closed and the task has no
  handler; otherwise it waits for either side.\<close>

definition proxy_monitor :: "(int \<times> poll_flag set) list \<Rightarrow> request \<Rightarrow> (reply \<times> request) option" where
  "proxy_monitor polls rq0 =
     do {
       let rq = set_state ANTD_CLIENT_PROXY_MONITOR rq0;
       proxy \<leftarrow> rq_peer rq;
       let task = create_task None rq;
       let (e, polls', c, p) = monitor_loop polls (rq_client rq) proxy;
       let rq1 = rq_put ''PROXY_HANDLE'' (RqClient p) (rq\<lparr>rq_client := c\<rparr>);
       (case e of
          MonIdle revents \<Rightarrow>
            Some (task\<lparr>rp_handle := Some ProxyMonitor, rp_access := last_io c,
                    rp_events := rp_events task @
                      [if POLLIN \<in> revents then (sock p, 0, ON_READABLE) else (sock p, 50, 8), (sock c, 0, ON_READABLE)]\<rparr>, rq1)
        | _ \<Rightarrow> Some (task, rq1))
     }"

section \<open>The relay\<close>

lemma take_append_prefix: "length a \<le> i \<Longrightarrow> take i a @ take j b = take (length a + j) (a @ b)"
  by simp

lemma monitor_loop_streams:
  "monitor_loop polls c p = (e, polls', c', p') \<Longrightarrow>
    \<exists>up down i j. rx_stream (rx c) = up @ rx_stream (rx c') \<and> rx_stream (rx p) = down @ rx_stream (rx p') \<and>
      sent p' = sent p @ take i up \<and> sent c' = sent c @ take j down \<and>
      (e \<noteq> MonStop \<longrightarrow> length up \<le> i \<and> length down \<le> j)"
proof (induction polls c p rule: monitor_loop.induct)
  case (1 polls c p)
  obtain r polls1 c1 p1 where t: "monitor_turn polls c p = (r, polls1, c1, p1)" by (metis surj_pair)
  obtain up down i j where t1: "rx_stream (rx c) = up @ rx_stream (rx c1)" "rx_stream (rx p) = down @ rx_stream (rx p1)"
      "sent p1 = sent p @ take i up" "sent c1 = sent c @ take j down" "r \<noteq> Some MonStop \<longrightarrow> length up \<le> i \<and> length down \<le> j"
    using monitor_turn_streams [OF t] by blast
  show ?case
  proof (cases r)
    case (Some x)
    with 1(2) t have "x = e" "c1 = c'" "p1 = p'" by (simp_all add: monitor_loop.simps [of polls c p])
    with t1 Some show ?thesis by blast
  next
    case None
    with 1(2) t have "monitor_loop polls1 c1 p1 = (e, polls', c', p')" by (simp add: monitor_loop.simps [of polls c p])
    from 1(1) [OF t [symmetric] None refl refl this] obtain up2 down2 i2 j2 where
      "rx_stream (rx c1) = up2 @ rx_stream (rx c')" "rx_stream (rx p1) = down2 @ rx_stream (rx p')"
      "sent p' = sent p1 @ take i2 up2" "sent c' = sent c1 @ take j2 down2" "e \<noteq> MonStop \<longrightarrow> length up2 \<le> i2 \<and> length down2 \<le> j2"
      by blast
    with t1 None show ?thesis
      by (intro exI [of _ "up @ up2"] exI [of _ "down @ down2"] exI [of _ "length up + i2"] exI [of _ "length down + j2"]) simp
  qed
qed

lemma proxy_monitor_cases:
  assumes "rq_peer rq = Some p"
  obtains e polls' c' p' where "monitor_loop polls ((rq_client rq)\<lparr>state := ANTD_CLIENT_PROXY_MONITOR\<rparr>) p = (e, polls', c', p')"
    "\<exists>task rq'. proxy_monitor polls rq = Some (task, rq') \<and> rq_client rq' = c' \<and>
      rq' = rq_put ''PROXY_HANDLE'' (RqClient p') ((set_state ANTD_CLIENT_PROXY_MONITOR rq)\<lparr>rq_client := c'\<rparr>) \<and>
      (rp_handle task = Some ProxyMonitor \<longleftrightarrow> (\<exists>revents. e = MonIdle revents))"
proof -
  obtain e polls' c' p' where m: "monitor_loop polls ((rq_client rq)\<lparr>state := ANTD_CLIENT_PROXY_MONITOR\<rparr>) p = (e, polls', c', p')"
    by (metis surj_pair)
  have "rq_peer (set_state ANTD_CLIENT_PROXY_MONITOR rq) = Some p" using assms by (simp add: rq_peer_def set_state_def)
  with m have "\<exists>task rq'. proxy_monitor polls rq = Some (task, rq') \<and> rq_client rq' = c' \<and>
      rq' = rq_put ''PROXY_HANDLE'' (RqClient p') ((set_state ANTD_CLIENT_PROXY_MONITOR rq)\<lparr>rq_client := c'\<rparr>) \<and>
      (rp_handle task = Some ProxyMonitor \<longleftrightarrow> (\<exists>revents. e = MonIdle revents))"
    by (cases e) (simp_all add: proxy_monitor_def Let_def set_state_def create_task_def)
  with m that show thesis by blast
qed

lemma rq_peer_put: "dict_ok (rq_dict rq) \<Longrightarrow> rq_peer (rq_put ''PROXY_HANDLE'' (RqClient p) rq) = Some p"
  by (simp add: rq_peer_def rq_put_def)

section \<open>Forwarding the request\<close>

text \<open>The connection to the other server is a sink for lines while it takes what is written.\<close>

lemma send_all_ready:
  assumes "tx_ready c"
  shows "fst (send_all c s)" "tx_ready (snd (send_all c s))" "sent (snd (send_all c s)) = sent c @ map byte_of s"
proof -
  obtain c' where "antd_send c (map byte_of s) = (int (length (map byte_of s)), c')" "tx_ready c'" "sent c' = sent c @ map byte_of s"
    using antd_send_ready [OF assms] by blast
  then show "fst (send_all c s)" "tx_ready (snd (send_all c s))" "sent (snd (send_all c s)) = sent c @ map byte_of s"
    by (simp_all add: send_all_def)
qed

interpretation peer_sink: byte_sink tx_ready sent "\<lambda>c s. snd (send_all c s)" "map byte_of"
  by unfold_locales (simp_all add: send_all_ready)

lemma forward_headers_ready:
  assumes "tx_ready c"
  shows "forward_headers c its = (True, foldl (\<lambda>c s. snd (send_all c s)) c (map forward_line its))"
  using assms
proof (induction its arbitrary: c)
  case (Cons it its)
  with send_all_ready [OF Cons.prems, of "forward_line it"] show ?case
    by (cases "send_all c (forward_line it)") simp
qed simp

lemma forward_request_ready:
  assumes "tx_ready c"
  shows "fst (forward_request c method path query xheader) \<and>
    sent (snd (forward_request c method path query xheader)) =
      sent c @ map byte_of (method @ '' '' @ path @ ''?'' @ query @ '' HTTP/1.1'' @ CRLF @
        concat (map forward_line (dict_items xheader)) @ CRLF)"
proof -
  let ?line = "method @ '' '' @ path @ ''?'' @ query @ '' HTTP/1.1'' @ CRLF"
  let ?send = "\<lambda>c s. snd (send_all c s)"
  obtain c1 where 1: "send_all c ?line = (True, c1)" "tx_ready c1" "sent c1 = sent c @ map byte_of ?line"
    using send_all_ready [OF assms, of ?line] by (metis prod.collapse)
  let ?c2 = "foldl ?send c1 (map forward_line (dict_items xheader))"
  have 2: "tx_ready ?c2" by (rule peer_sink.ready_emit_all [OF 1(2)])
  have "sent (?send ?c2 CRLF) = sent c @ map byte_of ?line @ concat (map (map byte_of) (map forward_line (dict_items xheader))) @ map byte_of CRLF"
    using peer_sink.out_emit [OF 2, of CRLF] peer_sink.out_emit_all [OF 1(2)] 1(3) by simp
  moreover have "forward_request c method path query xheader = (True, ?send ?c2 CRLF)"
    by (simp only: forward_request_def 1(1)) (simp add: forward_headers_ready [OF 1(2)])
  ultimately show ?thesis by (simp add: map_concat comp_def)
qed

section \<open>Properties\<close>

text \<open>C12. The reverse proxy is transparent: whatever both connections and \<open>poll\<close> do, one run of
  \<open>proxy_monitor\<close> sends to each side a prefix of what the other side delivered, in order and once each,
  and takes nothing else from either stream; as long as it asks to be called again, nothing it took is
  missing.\<close>

theorem proxy_relay:
  assumes "rq_peer rq = Some p" "dict_ok (rq_dict rq)"
  shows "\<exists>task rq' p' up down i j. proxy_monitor polls rq = Some (task, rq') \<and> rq_peer rq' = Some p' \<and>
    rx_stream (rx (rq_client rq)) = up @ rx_stream (rx (rq_client rq')) \<and> rx_stream (rx p) = down @ rx_stream (rx p') \<and>
    sent p' = sent p @ take i up \<and> sent (rq_client rq') = sent (rq_client rq) @ take j down \<and>
    (rp_handle task = Some ProxyMonitor \<longrightarrow> take i up = up \<and> take j down = down)"
proof -
  obtain e polls' c' p' where m: "monitor_loop polls ((rq_client rq)\<lparr>state := ANTD_CLIENT_PROXY_MONITOR\<rparr>) p = (e, polls', c', p')"
    and "\<exists>task rq'. proxy_monitor polls rq = Some (task, rq') \<and> rq_client rq' = c' \<and>
      rq' = rq_put ''PROXY_HANDLE'' (RqClient p') ((set_state ANTD_CLIENT_PROXY_MONITOR rq)\<lparr>rq_client := c'\<rparr>) \<and>
      (rp_handle task = Some ProxyMonitor \<longleftrightarrow> (\<exists>revents. e = MonIdle revents))"
    by (rule proxy_monitor_cases [OF assms(1)])
  then obtain task rq' where r: "proxy_monitor polls rq = Some (task, rq')" "rq_client rq' = c'"
      "rq' = rq_put ''PROXY_HANDLE'' (RqClient p') ((set_state ANTD_CLIENT_PROXY_MONITOR rq)\<lparr>rq_client := c'\<rparr>)"
      "rp_handle task = Some ProxyMonitor \<longleftrightarrow> (\<exists>revents. e = MonIdle revents)"
    by blast
  have "rq_peer rq' = Some p'" using assms(2) by (simp add: r(3) rq_peer_put set_state_def)
  moreover obtain up down i j where s: "rx_stream (rx (rq_client rq)) = up @ rx_stream (rx c')"
      "rx_stream (rx p) = down @ rx_stream (rx p')" "sent p' = sent p @ take i up"
      "sent c' = sent (rq_client rq) @ take j down" "e \<noteq> MonStop \<longrightarrow> length up \<le> i \<and> length down \<le> j"
    using monitor_loop_streams [OF m] by auto
  moreover have "rp_handle task = Some ProxyMonitor \<longrightarrow> take i up = up \<and> take j down = down" using r(4) s(5) by auto
  ultimately show ?thesis using r(1,2) by blast
qed

definition demo_peer :: client where
  "demo_peer = demo_client\<lparr>sock := 9, rx := [(0, RxData 79 [75])], tx := []\<rparr>"

theorem proxy_relay_witness:
  "\<exists>task rq' p' up down i j. proxy_monitor [(1, {POLLIN})] (rq_put ''PROXY_HANDLE'' (RqClient demo_peer) (demo_request [71, 69])) = Some (task, rq') \<and>
     rq_peer rq' = Some p' \<and> sent p' = take i up \<and> sent (rq_client rq') = take j down"
proof -
  let ?rq = "rq_put ''PROXY_HANDLE'' (RqClient demo_peer) (demo_request [71, 69])"
  have "rq_peer ?rq = Some demo_peer" "dict_ok (rq_dict ?rq)"
    using demo_request_facts(5) [of "[71, 69]"] by (simp_all add: rq_peer_put)
  moreover have "sent (rq_client ?rq) = []" "sent demo_peer = []" by (simp_all add: demo_request_def demo_peer_def)
  ultimately obtain task rq' p' up down i j where "proxy_monitor [(1, {POLLIN})] ?rq = Some (task, rq')" "rq_peer rq' = Some p'"
      "sent p' = take i up" "sent (rq_client rq') = take j down"
    using proxy_relay [of ?rq demo_peer "[(1, {POLLIN})]"] by (metis append_Nil)
  then show ?thesis by blast
qed



end
