(* ===== verification/Dispatch.thy ===== *)
theory Dispatch
  imports Proxy Upload
begin

text \<open>
  The handlers together: \<open>antd_execute_task\<close> calls the handler a task carries on the request the task
  was made for, and the task it returns names the next one.  \<open>run_handler\<close> is that call for every
  handler of the server, \<open>run_request\<close> the chain of calls.  The request dictionary holds untyped
  pointers which each handler casts; the typing of its keys, and the entries a handler reads without a
  check, are an invariant of the chain.
\<close>

section \<open>Calling a handler\<close>

text \<open>What stays the same while the server runs, and what one call finds in its surroundings.\<close>

record server_env =
  se_rgx :: "cstring \<Rightarrow> cstring \<Rightarrow> regmatch list option"
  se_dl :: dl_env
  se_world :: world
  se_cfg :: config

record step_env =
  en_poll :: "int \<times> poll_flag set"
  en_accept :: "int \<times> tls_err"
  en_monitor :: "(int \<times> poll_flag set) list"
  en_host :: "cstring \<Rightarrow> cstring option"
  en_connect :: "cstring \<Rightarrow> int \<Rightarrow> client option"
  en_open :: "cstring \<Rightarrow> bool"
  en_plugin :: "cstring \<Rightarrow> request \<Rightarrow> reply \<times> request"

record server_state =
  ss_request :: request
  ss_plugins :: plugins
  ss_files :: "written list"

definition run_handler :: "server_env \<Rightarrow> step_env \<Rightarrow> handler \<Rightarrow> server_state \<Rightarrow> (reply option \<times> server_state) option" where
  "run_handler S e h s =
     (let rq = ss_request s;
          local = map_option (\<lambda>(t, rq'). (Some t, s\<lparr>ss_request := rq'\<rparr>));
          loading = map_option (\<lambda>(t, rq', p'). (Some t, s\<lparr>ss_request := rq', ss_plugins := p'\<rparr>))
      in case h of
           AcceptRequest \<Rightarrow> local (Some (accept_request (en_poll e) (en_accept e) rq))
         | DecodeRequestHeader \<Rightarrow> local (decode_request_header (se_rgx S) (se_cfg S) rq)
         | DecodeRequest \<Rightarrow> local (decode_request rq)
         | ResolveRequest \<Rightarrow> loading (resolve_request (se_rgx S) (se_dl S) (se_world S) (se_cfg S) rq (ss_plugins s))
         | Proxify \<Rightarrow> local (proxify (en_host e) (en_connect e) rq)
         | ProxyMonitor \<Rightarrow> local (proxy_monitor (en_monitor e) rq)
         | DecodePostRequest \<Rightarrow> local (decode_post_request rq)
         | DecodeMultiPartData \<Rightarrow>
             map_option (\<lambda>(t, rq', files). (Some t, s\<lparr>ss_request := rq', ss_files := ss_files s @ files\<rparr>))
               (decode_multi_part_request_data (en_open e) (se_cfg S) rq)
         | ServeFile \<Rightarrow> local (serve_file (se_world S) rq)
         | PluginHandle n \<Rightarrow> local (Some (en_plugin e n rq))
         | FinishRequest \<Rightarrow> Some (None, s))"

text \<open>The chain, one environment per call: the handler that comes next and the state, or no handler
  when the task has none.\<close>

fun run_request :: "server_env \<Rightarrow> step_env list \<Rightarrow> handler \<Rightarrow> server_state \<Rightarrow> (handler option \<times> server_state) option" where
  "run_request S [] h s = Some (Some h, s)"
| "run_request S (e # es) h s =
     (case run_handler S e h s of
        None \<Rightarrow> None
      | Some (t, s') \<Rightarrow> (case Option.bind t rp_handle of None \<Rightarrow> Some (None, s') | Some h' \<Rightarrow> run_request S es h' s'))"

section \<open>The types of the request dictionary\<close>

definition typed_entry :: "cstring \<Rightarrow> rqval \<Rightarrow> bool" where
  "typed_entry key v \<longleftrightarrow>
     (case v of
        RqDict d \<Rightarrow> key \<in> {''REQUEST_HEADER'', ''REQUEST_DATA'', ''COOKIE''}
      | RqClient c \<Rightarrow> key = ''PROXY_HANDLE''
      | RqStr s \<Rightarrow> key \<notin> {''REQUEST_HEADER'', ''REQUEST_DATA'', ''COOKIE'', ''PROXY_HANDLE''})"

text \<open>Every value has the type of its key, and what \<open>antd_monitor\<close> puts in stays.\<close>

definition request_ok :: "request \<Rightarrow> bool" where
  "request_ok rq \<longleftrightarrow> dict_ok (rq_dict rq) \<and> (\<forall>key v. dvalue (rq_dict rq) key = Some v \<longrightarrow> typed_entry key v) \<and>
     rq_sub rq ''REQUEST_HEADER'' \<noteq> None \<and> rq_sub rq ''REQUEST_DATA'' \<noteq> None \<and>
     rq_str rq ''SERVER_PORT'' \<noteq> None \<and> rq_str rq ''SERVER_WWW_ROOT'' \<noteq> None"

text \<open>The entries a handler reads without a check.\<close>

fun needs :: "handler \<Rightarrow> cstring list" where
  "needs DecodeRequestHeader = [''METHOD'', ''REQUEST_QUERY'']"
| "needs DecodeRequest = [''METHOD'', ''REQUEST_URI'']"
| "needs ResolveRequest = [''METHOD'', ''REQUEST_URI'']"
| "needs Proxify = [''METHOD'', ''PROXY_HOST'', ''PROXY_PORT'', ''PROXY_PATH'', ''PROXY_QUERY'']"
| "needs DecodePostRequest = [''METHOD'']"
| "needs DecodeMultiPartData = [''MULTI_PART_BOUNDARY'']"
| "needs ServeFile = [''RESOURCE_PATH'', ''RESOURCE_MIME'']"
| "needs _ = []"

definition ready_for :: "handler \<Rightarrow> request \<Rightarrow> bool" where
  "ready_for h rq \<longleftrightarrow> request_ok rq \<and> (\<forall>key \<in> set (needs h). rq_str rq key \<noteq> None) \<and> (h = ProxyMonitor \<longrightarrow> rq_peer rq \<noteq> None)"

definition next_ready :: "reply \<Rightarrow> request \<Rightarrow> bool" where
  "next_ready t rq \<longleftrightarrow> request_ok rq \<and> (case rp_handle t of None \<Rightarrow> True | Some h \<Rightarrow> ready_for h rq) \<and>
     (case rp_callback t of None \<Rightarrow> True | Some h \<Rightarrow> ready_for h rq)"

lemma same_dict:
  assumes "rq_dict rq' = rq_dict rq"
  shows "request_ok rq' = request_ok rq" "rq_str rq' = rq_str rq" "rq_sub rq' = rq_sub rq" "rq_peer rq' = rq_peer rq"
  using assms by (simp_all add: request_ok_def rq_str_def rq_sub_def rq_peer_def fun_eq_iff)

lemma dict_untouched [simp]:
  "rq_dict (rq\<lparr>rq_client := c\<rparr>) = rq_dict rq" "rq_dict (rq_error i m rq) = rq_dict rq"
  "rq_dict (set_state n rq) = rq_dict rq" "rq_dict (on_client f rq) = rq_dict rq" "rq_dict (discard_body rq) = rq_dict rq"
  by (simp_all add: rq_error_def set_state_def on_client_def discard_body_def split: option.splits)

lemma views_untouched [simp]:
  "rq_str (rq\<lparr>rq_client := c\<rparr>) = rq_str rq" "rq_str (rq_error i m rq) = rq_str rq"
  "rq_str (set_state n rq) = rq_str rq" "rq_str (on_client f rq) = rq_str rq" "rq_str (discard_body rq) = rq_str rq"
  "rq_sub (rq\<lparr>rq_client := c\<rparr>) = rq_sub rq" "rq_sub (rq_error i m rq) = rq_sub rq"
  "rq_sub (set_state n rq) = rq_sub rq" "rq_sub (on_client f rq) = rq_sub rq"
  "rq_peer (rq\<lparr>rq_client := c\<rparr>) = rq_peer rq" "rq_peer (rq_error i m rq) = rq_peer rq" "rq_peer (set_state n rq) = rq_peer rq"
  "request_ok (rq\<lparr>rq_client := c\<rparr>) = request_ok rq" "request_ok (rq_error i m rq) = request_ok rq"
  "request_ok (set_state n rq) = request_ok rq" "request_ok (on_client f rq) = request_ok rq"
  "request_ok (discard_body rq) = request_ok rq"
  by (rule same_dict, simp)+

lemma request_ok_put [simp]:
  assumes "request_ok rq" "typed_entry key v"
  shows "request_ok (rq_put key v rq)"
proof -
  have d: "dict_ok (rq_dict rq)" using assms(1) by (simp add: request_ok_def)
  have "typed_entry k x" if "dvalue (rq_dict (rq_put key v rq)) k = Some x" for k x
    using that assms d by (cases "k = key") (auto simp: request_ok_def rq_put_def)
  then show ?thesis
    using assms d by (auto simp: request_ok_def typed_entry_def split: rqval.splits)
qed

lemma request_ok_views [simp]:
  assumes "request_ok rq"
  shows "rq_str (rq_put k v rq) k' = (if k' = k then (case v of RqStr s \<Rightarrow> Some s | _ \<Rightarrow> None) else rq_str rq k')"
    "rq_sub (rq_put k v rq) k' = (if k' = k then (case v of RqDict d \<Rightarrow> Some d | _ \<Rightarrow> None) else rq_sub rq k')"
    "k \<noteq> ''PROXY_HANDLE'' \<Longrightarrow> rq_peer (rq_put k v rq) = rq_peer rq"
  using assms by (simp_all add: request_ok_def) (simp add: rq_put_def rq_peer_def)

lemma request_ok_peer [simp]: "request_ok rq \<Longrightarrow> rq_peer (rq_put ''PROXY_HANDLE'' (RqClient c) rq) = Some c"
  by (simp add: request_ok_def rq_peer_put)

text \<open>Several entries at once: the views go back to those of the first request.\<close>

lemma put_chain:
  assumes "request_ok rq" "\<forall>(k, v) \<in> set kvs. typed_entry k v \<and> k \<noteq> ''PROXY_HANDLE''"
  shows "request_ok (foldr (\<lambda>(k, v). rq_put k v) kvs rq)" "rq_peer (foldr (\<lambda>(k, v). rq_put k v) kvs rq) = rq_peer rq"
    "rq_str (foldr (\<lambda>(k, v). rq_put k v) kvs rq) key =
      (case map_of kvs key of Some v \<Rightarrow> (case v of RqStr s \<Rightarrow> Some s | _ \<Rightarrow> None) | None \<Rightarrow> rq_str rq key)"
proof -
  have ok: "request_ok (foldr (\<lambda>(k, v). rq_put k v) kvs rq)" if "\<forall>(k, v) \<in> set kvs. typed_entry k v" for kvs
    using that assms(1) by (induction kvs) auto
  show "request_ok (foldr (\<lambda>(k, v). rq_put k v) kvs rq)" using assms(2) by (intro ok) auto
  show "rq_peer (foldr (\<lambda>(k, v). rq_put k v) kvs rq) = rq_peer rq"
    "rq_str (foldr (\<lambda>(k, v). rq_put k v) kvs rq) key =
      (case map_of kvs key of Some v \<Rightarrow> (case v of RqStr s \<Rightarrow> Some s | _ \<Rightarrow> None) | None \<Rightarrow> rq_str rq key)"
    using assms(2) by (induction kvs) (auto simp: ok split_beta)
qed

lemma next_ready_task:
  assumes "request_ok rq" "rp_callback t = None" "rp_handle t = None \<or> (\<exists>h. rp_handle t = Some h \<and> ready_for h rq)"
  shows "next_ready t rq"
  using assms by (auto simp: next_ready_def)

lemma task_simps [simp]:
  "rp_handle (create_task h rq) = h" "rp_callback (create_task h rq) = None"
  "rp_handle (bind_event rq n t) = rp_handle t" "rp_callback (bind_event rq n t) = rp_callback t"
  by (simp_all add: create_task_def bind_event_def)

section \<open>Each handler\<close>

named_theorems handler_types \<open>every handler leaves a request the next one is ready for\<close>

lemma accept_types [handler_types]:
  assumes "accept_request polled acc rq = (t, rq')" "ready_for AcceptRequest rq"
  shows "next_ready t rq'"
proof -
  have ok: "request_ok rq" using assms(2) by (simp add: ready_for_def)
  have line: "next_ready t' rq''" if "read_request_line task rqx = (t', rq'')" "request_ok rqx" "rp_handle task = None" "rp_callback task = None"
    for task rqx t' rq''
    using that
    by (auto simp: read_request_line_def Let_def url_decode_def typed_entry_def next_ready_def ready_for_def
        split: prod.splits option.splits)
  show ?thesis
    using assms(1) ok line [of "bind_event rq (ON_WRITABLE + ON_READABLE) (create_task None rq)" "set_state ANTD_CLIENT_PROTO_CHECK rq" t rq']
    by (auto simp: accept_request_def Let_def ready_for_def next_ready_def split: prod.splits if_splits tls_err.splits)
qed

lemma decode_request_shapes:
  assumes "decode_request rq = Some (t, rq')"
  shows "rp_callback t = None \<and>
    (rp_handle t = Some ResolveRequest \<and>
       (rq' = rq \<or> (\<exists>c. rq' = rq_put ''__web_socket__'' (RqStr ''1'') (rq\<lparr>rq_client := c\<rparr>))) \<or>
     rp_handle t = None \<and> rq_dict rq' = rq_dict rq)"
proof -
  obtain headers where h: "rq_sub rq ''REQUEST_HEADER'' = Some headers"
    using assms by (auto simp: decode_request_def split: Option.bind_splits)
  obtain meth where m: "rq_str rq ''METHOD'' = Some meth"
    using assms by (auto simp: decode_request_def Let_def split: Option.bind_splits)
  show ?thesis
  proof (cases "meth = ''GET''")
    case True
    with assms h m show ?thesis by (auto simp: decode_request_def Let_def split: Option.bind_splits if_splits option.splits)
  next
    case False
    define known where "known \<longleftrightarrow> meth \<in> {''HEAD'', ''OPTIONS'', ''DELETE'', ''POST'', ''PUT'', ''PATCH''}"
    have "decode_request rq = Some (if known then ((create_task None rq)\<lparr>rp_handle := Some ResolveRequest\<rparr>, rq)
        else (create_task None rq, rq_error 501 ''Request Method Not Implemented'' rq))"
      using False by (simp add: decode_request_def Let_def h m known_def)
    with assms show ?thesis by (cases known) auto
  qed
qed

lemma decode_request_types [handler_types]:
  assumes "decode_request rq = Some (t, rq')" "ready_for DecodeRequest rq"
  shows "next_ready t rq'"
proof -
  have ok: "request_ok rq" "rq_str rq ''METHOD'' \<noteq> None" "rq_str rq ''REQUEST_URI'' \<noteq> None"
    using assms(2) by (simp_all add: ready_for_def)
  note sh = decode_request_shapes [OF assms(1)]
  consider "rp_handle t = Some ResolveRequest" "rq' = rq"
    | c where "rp_handle t = Some ResolveRequest" "rq' = rq_put ''__web_socket__'' (RqStr ''1'') (rq\<lparr>rq_client := c\<rparr>)"
    | "rp_handle t = None" "rq_dict rq' = rq_dict rq"
    using sh by metis
  then show ?thesis
  proof cases
    case 1
    with ok sh show ?thesis by (simp add: next_ready_def ready_for_def)
  next
    case (2 c)
    have "typed_entry ''__web_socket__'' (RqStr ''1'')" by (simp add: typed_entry_def)
    with ok have "ready_for ResolveRequest rq'" by (simp add: 2(2) ready_for_def)
    with 2(1) sh show ?thesis by (auto simp: next_ready_def ready_for_def)
  next
    case 3
    with ok(1) sh same_dict(1) [OF 3(2)] show ?thesis by (simp add: next_ready_def)
  qed
qed

lemma check_proxy_types:
  assumes "check_proxy rq path query = Some (t, rq')" "request_ok rq" "rq_str rq ''METHOD'' \<noteq> None"
  shows "case t of Some t' \<Rightarrow> next_ready t' rq' | None \<Rightarrow> rq' = rq"
proof (cases "proxy_match path")
  case None
  with assms(1) show ?thesis by (simp add: check_proxy_def Let_def)
next
  case (Some m)
  obtain scheme host port rest where m: "m = (scheme, host, port, rest)" by (cases m)
  let ?kvs = "[(''PROXY_QUERY'', RqStr query), (''PROXY_PATH'', RqStr rest), (''PROXY_PORT'', RqStr port), (''PROXY_HOST'', RqStr host)]"
  have "\<forall>(k, v) \<in> set ?kvs. typed_entry k v \<and> k \<noteq> ''PROXY_HANDLE''" by (simp add: typed_entry_def)
  note ch = put_chain [OF assms(2) this]
  show ?thesis
  proof (cases "length scheme = 5")
    case True
    with assms(1,2) Some m show ?thesis by (auto simp: check_proxy_def Let_def next_ready_def)
  next
    case False
    with assms(1) Some m have "\<exists>t'. t = Some t' \<and> rp_callback t' = None \<and> rp_handle t' = Some Proxify"
        and rq': "rq' = foldr (\<lambda>(k, v). rq_put k v) ?kvs rq"
      by (auto simp: check_proxy_def Let_def split: if_splits)
    moreover have "ready_for Proxify rq'" using ch(1,3) assms(3) by (simp add: ready_for_def rq')
    ultimately show ?thesis using ch(1) by (auto simp: next_ready_def)
  qed
qed

lemma finish_header_types:
  assumes "finish_header rgx cfg pc url h rq = Some (t, rq')" "request_ok rq" "rq_str rq ''METHOD'' \<noteq> None"
  shows "next_ready t rq'"
proof -
  let ?rq1 = "case hd_cookie h of None \<Rightarrow> rq | Some d \<Rightarrow> rq_put ''COOKIE'' (RqDict d) rq"
  have 1: "request_ok ?rq1" "rq_str ?rq1 ''METHOD'' \<noteq> None"
    using assms(2,3) by (auto simp: typed_entry_def split: option.splits)
  from assms(1) consider "t = create_task None rq'" "request_ok rq'"
    | t2 path query rq2 where "check_proxy ?rq1 path query = Some (t2, rq2)" "t2 = Some t" "rq' = rq2"
    | path query rq2 uri request where "check_proxy ?rq1 path query = Some (None, rq2)"
      "rq' = rq_put ''REQUEST_QUERY'' (RqStr query) (rq_put ''REQUEST_DATA'' (RqDict (decode_url_request (Some query) request))
         (rq_put ''REQUEST_URI'' (RqStr uri) rq2))"
      "rp_handle t = Some DecodeRequest" "rp_callback t = None"
    using assms(2) unfolding finish_header_def Let_def
    by (auto split: Option.bind_splits if_splits option.splits prod.splits)
  then show ?thesis
  proof cases
    case 1
    then show ?thesis by (simp add: next_ready_task)
  next
    case 2
    with check_proxy_types [OF 2(1) 1] show ?thesis by simp
  next
    case 3
    let ?kvs = "[(''REQUEST_QUERY'', RqStr query), (''REQUEST_DATA'', RqDict (decode_url_request (Some query) request)), (''REQUEST_URI'', RqStr uri)]"
    have rq2: "rq2 = ?rq1" using check_proxy_types [OF 3(1) 1] by simp
    have "\<forall>(k, v) \<in> set ?kvs. typed_entry k v \<and> k \<noteq> ''PROXY_HANDLE''" by (simp add: typed_entry_def)
    note ch = put_chain [OF 1(1) this]
    have rq': "rq' = foldr (\<lambda>(k, v). rq_put k v) ?kvs ?rq1" using 3(2) rq2 by simp
    have "ready_for DecodeRequest rq'" using ch(1,3) 1(2) by (simp add: ready_for_def rq' del: foldr.simps)
    with 3(3,4) ch(1) show ?thesis by (auto simp: next_ready_def rq' del: foldr.simps)
  qed
qed

lemma decode_header_types [handler_types]:
  assumes "decode_request_header rgx cfg rq = Some (t, rq')" "ready_for DecodeRequestHeader rq"
  shows "next_ready t rq'"
proof -
  let ?rq = "set_state ANTD_CLIENT_HEADER_DECODE rq"
  have ok: "request_ok rq" "rq_str rq ''METHOD'' \<noteq> None" "rq_str rq ''REQUEST_QUERY'' \<noteq> None"
    using assms(2) by (auto simp: ready_for_def)
  have put: "request_ok (rq_put ''REQUEST_HEADER'' (RqDict d) (?rq\<lparr>rq_client := c\<rparr>))" for d c
    using ok(1) by (simp add: typed_entry_def)
  have str: "rq_str (rq_put ''REQUEST_HEADER'' (RqDict d) (?rq\<lparr>rq_client := c\<rparr>)) key = rq_str rq key"
    if "key \<noteq> ''REQUEST_HEADER''" for d c key
    using ok(1) that by simp
  from assms(1) consider d c where "rq' = rq_error 413 ''Payload Too Large'' (rq_put ''REQUEST_HEADER'' (RqDict d) (?rq\<lparr>rq_client := c\<rparr>))"
      "t = create_task None rq'"
    | d c where "rq' = rq_put ''REQUEST_HEADER'' (RqDict d) (?rq\<lparr>rq_client := c\<rparr>)" "rp_handle t = Some DecodeRequestHeader" "rp_callback t = None"
    | pc url h d c where "finish_header rgx cfg pc url h (rq_put ''REQUEST_HEADER'' (RqDict d) (?rq\<lparr>rq_client := c\<rparr>)) = Some (t, rq')"
    unfolding decode_request_header_def Let_def
    by (auto split: Option.bind_splits if_splits option.splits prod.splits)
  then show ?thesis
  proof cases
    case (1 d c)
    with put [of d c] show ?thesis by (intro next_ready_task) simp_all
  next
    case (2 d c)
    with put [of d c] str ok show ?thesis by (auto simp: next_ready_def ready_for_def)
  next
    case (3 pc url h d c)
    from finish_header_types [OF 3 put] str ok(2) show ?thesis by simp
  qed
qed

lemma execute_types:
  assumes "execute_plugin rgx dl cfg rq n p = Some (t, rq', p')" "request_ok rq" "rq_str rq ''METHOD'' \<noteq> None"
  shows "next_ready t rq'"
  using assms
  by (auto simp: execute_plugin_def Let_def ready_for_def next_ready_def split: Option.bind_splits if_splits option.splits prod.splits)

lemma send_resource_types:
  assumes "send_resource rgx dl w cfg task path rq p = Some (t, rq', p')" "request_ok rq" "rq_str rq ''METHOD'' \<noteq> None"
    "rp_handle task = None" "rp_callback task = None"
  shows "next_ready t rq'"
proof -
  have "next_ready t rq'" if "execute_plugin rgx dl cfg rqx n p = Some (t, rq', p')" "request_ok rqx" "rq_str rqx ''METHOD'' \<noteq> None" for rqx n
    using that by (rule execute_types)
  with assms show ?thesis
    by (auto simp: send_resource_def Let_def ready_for_def next_ready_def typed_entry_def
        split: Option.bind_splits if_splits option.splits prod.splits)
qed

lemma resolve_types [handler_types]:
  assumes "resolve_request rgx dl w cfg rq p = Some (t, rq', p')" "ready_for ResolveRequest rq"
  shows "next_ready t rq'"
proof -
  have ok: "request_ok rq" "rq_str rq ''METHOD'' \<noteq> None" using assms(2) by (auto simp: ready_for_def)
  note ex = execute_types [where rgx = rgx and dl = dl and cfg = cfg and p = p and t = t and rq' = rq' and p' = p']
  note se = send_resource_types [where rgx = rgx and dl = dl and w = w and cfg = cfg and p = p and t = t and rq' = rq' and p' = p']
  from assms(1) ok show ?thesis
    by (auto simp: resolve_request_def Let_def typed_entry_def next_ready_def dest!: ex [unfolded next_ready_def] se [unfolded next_ready_def]
        split: Option.bind_splits if_splits option.splits prod.splits)
qed

lemma serve_types [handler_types]:
  assumes "serve_file w rq = Some (t, rq')" "ready_for ServeFile rq"
  shows "next_ready t rq'"
  using assms
  by (auto simp: serve_file_def Let_def ready_for_def next_ready_def split: Option.bind_splits if_splits option.splits)

lemma proxify_types [handler_types]:
  assumes "proxify host connect rq = Some (t, rq')" "ready_for Proxify rq"
  shows "next_ready t rq'"
proof -
  let ?rq = "set_state ANTD_CLIENT_RESOLVE_REQUEST rq"
  have ok: "request_ok rq" using assms(2) by (simp add: ready_for_def)
  have put: "request_ok (rq_put ''PROXY_HANDLE'' (RqClient c) ?rq)" "rq_peer (rq_put ''PROXY_HANDLE'' (RqClient c) ?rq) = Some c" for c
    using ok by (simp_all add: typed_entry_def)
  from assms(1) consider "t = create_task None ?rq" "rq_dict rq' = rq_dict rq"
    | c where "t = create_task None ?rq" "rq' = rq_error 500 [] (rq_put ''PROXY_HANDLE'' (RqClient c) ?rq)"
    | c where "rp_handle t = Some ProxyMonitor" "rp_callback t = None" "rq' = rq_put ''PROXY_HANDLE'' (RqClient c) ?rq"
    unfolding proxify_def Let_def by (auto split: Option.bind_splits if_splits option.splits prod.splits)
  then show ?thesis
  proof cases
    case 1
    with ok same_dict(1) [OF 1(2)] show ?thesis by (intro next_ready_task) simp_all
  next
    case (2 c)
    with put(1) [of c] show ?thesis by (intro next_ready_task) simp_all
  next
    case (3 c)
    with put [of c] show ?thesis by (simp add: next_ready_def ready_for_def)
  qed
qed

lemma monitor_types [handler_types]:
  assumes "proxy_monitor polls rq = Some (t, rq')" "ready_for ProxyMonitor rq"
  shows "next_ready t rq'"
proof -
  have ok: "request_ok rq" using assms(2) by (simp add: ready_for_def)
  obtain p where p: "rq_peer rq = Some p" using assms(2) by (auto simp: ready_for_def)
  obtain e polls' c' q where m: "monitor_loop polls (rq_client (set_state ANTD_CLIENT_PROXY_MONITOR rq)) p = (e, polls', c', q)"
    by (metis surj_pair)
  with p obtain p' task rq2 where r: "proxy_monitor polls rq = Some (task, rq2)"
      "rq2 = rq_put ''PROXY_HANDLE'' (RqClient p') ((set_state ANTD_CLIENT_PROXY_MONITOR rq)\<lparr>rq_client := c'\<rparr>)"
      "rp_callback task = None" "rp_handle task = None \<or> rp_handle task = Some ProxyMonitor"
    by (cases e) (auto simp: proxy_monitor_def Let_def)
  have "request_ok rq2" "rq_peer rq2 = Some p'"
    using ok by (simp_all add: r(2) typed_entry_def)
  with r assms(1) show ?thesis by (intro next_ready_task) (auto simp: ready_for_def)
qed

lemma multi_part_types:
  assumes "decode_multi_part_request rq headers ctype = Some (t, rq')" "request_ok rq"
  shows "next_ready t rq'"
proof -
  have put: "request_ok (rq_put ''REQUEST_HEADER'' (RqDict d) rq)"
    "request_ok (rq_put ''MULTI_PART_BOUNDARY'' (RqStr b) ((rq_put ''REQUEST_HEADER'' (RqDict d) rq)\<lparr>rq_client := c\<rparr>))" for d b c
    using assms(2) by (simp_all add: typed_entry_def)
  from assms(1) consider "rp_handle t = None" "rp_callback t = None" "rq' = rq"
    | d where "rp_handle t = None" "rp_callback t = None" "rq' = rq_put ''REQUEST_HEADER'' (RqDict d) rq"
    | d b c where "rp_handle t = None \<or> rp_handle t = Some DecodeMultiPartData" "rp_callback t = None"
      "rq' = rq_put ''MULTI_PART_BOUNDARY'' (RqStr b) ((rq_put ''REQUEST_HEADER'' (RqDict d) rq)\<lparr>rq_client := c\<rparr>)"
    unfolding decode_multi_part_request_def Let_def by (auto split: if_splits option.splits prod.splits)
  then show ?thesis
  proof cases
    case 1
    with assms(2) show ?thesis by (intro next_ready_task) simp_all
  next
    case (2 d)
    with put(1) [of d] show ?thesis by (intro next_ready_task) simp_all
  next
    case (3 d b c)
    have "rq_str rq' ''MULTI_PART_BOUNDARY'' = Some b"
      using put(1) [of d] by (simp add: 3(3) request_ok_def)
    with 3 put(2) [where d = d and b = b and c = c] show ?thesis by (intro next_ready_task) (auto simp: ready_for_def)
  qed
qed

lemma post_types [handler_types]:
  assumes "decode_post_request rq = Some (t, rq')" "ready_for DecodePostRequest rq"
  shows "next_ready t rq'"
proof -
  let ?rq = "set_state ANTD_CLIENT_RQ_DATA_DECODE rq"
  have ok: "request_ok rq" using assms(2) by (simp add: ready_for_def)
  have put: "request_ok (rq_put ''REQUEST_DATA'' (RqDict d) ?rq)" "request_ok (rq_put ''REQUEST_DATA'' (RqDict d) (?rq\<lparr>rq_client := c\<rparr>))" for d c
    using ok by (simp_all add: typed_entry_def)
  obtain request headers where h: "rq_sub ?rq ''REQUEST_DATA'' = Some request" "rq_sub ?rq ''REQUEST_HEADER'' = Some headers"
    using ok by (auto simp: request_ok_def)
  define known where "known \<longleftrightarrow> rq_str rq ''METHOD'' \<in> {Some ''POST'', Some ''PUT'', Some ''PATCH''}"
  note body = assms(1) [unfolded decode_post_request_def Let_def views_untouched h [unfolded views_untouched] bind.bind_lunit
      known_def [symmetric]]
  consider "rp_handle t = None" "rp_callback t = None" "rq_dict rq' = rq_dict rq"
    | d where "rp_handle t = None" "rp_callback t = None" "rq' = rq_put ''REQUEST_DATA'' (RqDict d) ?rq"
    | d c where "rp_handle t = None" "rp_callback t = None" "rq' = rq_put ''REQUEST_DATA'' (RqDict d) (?rq\<lparr>rq_client := c\<rparr>)"
    | headers ctype where "decode_multi_part_request ?rq headers ctype = Some (t, rq')"
  proof (cases "known \<and> (\<exists>ctype. dvalue headers ''Content-Type'' = Some ctype)")
    case False
    with body show thesis by (intro that(1)) (auto split: if_splits option.splits)
  next
    case True
    then obtain ctype where k: "known" "dvalue headers ''Content-Type'' = Some ctype" by blast
    from body k that show thesis by (auto split: if_splits prod.splits option.splits)
  qed
  then show ?thesis
  proof cases
    case 1
    with ok same_dict(1) [OF 1(3)] show ?thesis by (intro next_ready_task) simp_all
  next
    case (2 d)
    with put(1) [of d] show ?thesis by (intro next_ready_task) simp_all
  next
    case (3 d c)
    with put(2) [where d = d and c = c] show ?thesis by (intro next_ready_task) simp_all
  next
    case (4 headers ctype)
    from multi_part_types [OF 4] ok show ?thesis by simp
  qed
qed

lemma part_types [handler_types]:
  assumes "decode_multi_part_request_data op cfg rq = Some (t, rq', files)" "ready_for DecodeMultiPartData rq"
  shows "next_ready t rq'"
proof -
  have ok: "request_ok rq" "rq_str rq ''MULTI_PART_BOUNDARY'' \<noteq> None" using assms(2) by (simp_all add: ready_for_def)
  have put: "ready_for DecodeMultiPartData (rq_put ''REQUEST_DATA'' (RqDict d) (rq\<lparr>rq_client := c\<rparr>))" for d c
    using ok by (simp add: typed_entry_def ready_for_def)
  from assms(1) consider "rp_handle t = None" "rp_callback t = None" "rq_dict rq' = rq_dict rq"
    | d c where "rp_handle t = None \<or> rp_handle t = Some DecodeMultiPartData" "rp_callback t = None"
      "rq' = rq_put ''REQUEST_DATA'' (RqDict d) (rq\<lparr>rq_client := c\<rparr>)"
    unfolding decode_multi_part_request_data_def Let_def
    by (auto split: Option.bind_splits if_splits option.splits prod.splits)
  then show ?thesis
  proof cases
    case 1
    with ok same_dict(1) [OF 1(3)] show ?thesis by (intro next_ready_task) simp_all
  next
    case (2 d c)
    with put [where d = d and c = c] show ?thesis by (intro next_ready_task) (auto simp: ready_for_def)
  qed
qed

section \<open>Handlers that cannot go wrong\<close>

lemma serve_total: "ready_for ServeFile rq \<Longrightarrow> serve_file w rq \<noteq> None"
  by (auto simp: ready_for_def request_ok_def serve_file_def Let_def split: option.splits)

lemma proxify_total: "ready_for Proxify rq \<Longrightarrow> proxify host connect rq \<noteq> None"
  by (auto simp: ready_for_def request_ok_def proxify_def Let_def split: option.splits prod.splits)

lemma monitor_total:
  assumes "ready_for ProxyMonitor rq"
  shows "proxy_monitor polls rq \<noteq> None"
proof -
  obtain p where p: "rq_peer rq = Some p" using assms by (auto simp: ready_for_def)
  obtain e polls' c' q where "monitor_loop polls (rq_client (set_state ANTD_CLIENT_PROXY_MONITOR rq)) p = (e, polls', c', q)"
    by (metis surj_pair)
  with p show ?thesis by (cases e) (auto simp: proxy_monitor_def Let_def)
qed

lemma multi_part_total: "decode_multi_part_request rq headers ctype \<noteq> None"
  by (auto simp: decode_multi_part_request_def Let_def split: prod.splits option.splits)

lemma post_total:
  assumes "ready_for DecodePostRequest rq"
  shows "decode_post_request rq \<noteq> None"
proof -
  let ?rq = "set_state ANTD_CLIENT_RQ_DATA_DECODE rq"
  obtain request headers where h: "rq_sub rq ''REQUEST_DATA'' = Some request" "rq_sub rq ''REQUEST_HEADER'' = Some headers"
    using assms by (auto simp: ready_for_def request_ok_def)
  show ?thesis
    unfolding decode_post_request_def Let_def views_untouched h bind.bind_lunit
    using multi_part_total by (simp split: option.splits prod.splits)
qed

section \<open>The chain keeps the types\<close>

text \<open>What the server relies on: the handler of a plugin leaves a request as typed as it got it.\<close>

definition plugin_typed :: "step_env \<Rightarrow> bool" where
  "plugin_typed e \<longleftrightarrow> (\<forall>n rq. request_ok rq \<longrightarrow> next_ready (fst (en_plugin e n rq)) (snd (en_plugin e n rq)))"

lemma handlers_typed:
  assumes "ready_for h (ss_request s)" "plugin_typed e" "run_handler S e h s = Some (r, s')"
  shows "request_ok (ss_request s') \<and> (\<forall>t. r = Some t \<longrightarrow> next_ready t (ss_request s'))"
proof (cases "h = FinishRequest")
  case True
  with assms show ?thesis by (auto simp: run_handler_def ready_for_def)
next
  case False
  have "\<exists>t. r = Some t \<and> next_ready t (ss_request s')"
  proof (cases h)
    case AcceptRequest
    with assms show ?thesis
      using accept_types [of "en_poll e" "en_accept e" "ss_request s"] by (cases "accept_request (en_poll e) (en_accept e) (ss_request s)")
        (auto simp: run_handler_def Let_def)
  next
    case (PluginHandle n)
    with assms show ?thesis
      unfolding plugin_typed_def by (auto simp: run_handler_def ready_for_def Let_def split_beta)
  qed (use assms False in \<open>auto simp: run_handler_def Let_def intro: handler_types\<close>)
  then show ?thesis by (auto simp: next_ready_def)
qed

lemma run_request_typed:
  "run_request S es h s = Some (h', s') \<Longrightarrow> ready_for h (ss_request s) \<Longrightarrow> \<forall>e \<in> set es. plugin_typed e \<Longrightarrow>
    request_ok (ss_request s') \<and> (\<forall>h''. h' = Some h'' \<longrightarrow> ready_for h'' (ss_request s'))"
proof (induction S es h s rule: run_request.induct)
  case (1 S h s)
  then show ?case by (auto simp: ready_for_def)
next
  case (2 S e es h s)
  from 2(2) obtain t s1 where run: "run_handler S e h s = Some (t, s1)" by (auto split: option.splits)
  note ty = handlers_typed [OF 2(3) _ run]
  show ?case
  proof (cases "Option.bind t rp_handle")
    case None
    with 2(2,4) run ty show ?thesis by auto
  next
    case (Some h1)
    then obtain t1 where t1: "t = Some t1" "rp_handle t1 = Some h1" by (cases t) auto
    have "ready_for h1 (ss_request s1)" using ty t1 2(4) by (auto simp: next_ready_def)
    with 2(1) [OF run refl Some] 2(2,4) run Some show ?thesis by simp
  qed
qed

lemma new_request_ready:
  assumes "new_request pcnf remote c = Some rq"
  shows "ready_for AcceptRequest rq" "rq_client rq = c" "rq_str rq ''SERVER_PORT'' = Some (dec_int (pc_port pcnf))"
    "rq_str rq ''SERVER_WWW_ROOT'' = pc_htdocs pcnf" "rq_sub rq ''REQUEST_HEADER'' = Some dict" "rq_sub rq ''REQUEST_DATA'' = Some dict"
proof -
  obtain root where root: "pc_htdocs pcnf = Some root" using assms by (auto simp: new_request_def split: option.splits)
  let ?rq0 = "\<lparr>rq_client = c, rq_dict = dput (dput (dput (dput dict ''REQUEST_HEADER'' (Some (RqDict dict)))
    ''REQUEST_DATA'' (Some (RqDict dict))) ''SERVER_PORT'' (Some (RqStr (dec_int (pc_port pcnf))))) ''SERVER_WWW_ROOT'' (Some (RqStr root))\<rparr>"
  have d: "dvalue (rq_dict ?rq0) k = Some v \<Longrightarrow> typed_entry k v" for k v
    by (cases "k = ''SERVER_WWW_ROOT''"; cases "k = ''SERVER_PORT''"; cases "k = ''REQUEST_DATA''"; cases "k = ''REQUEST_HEADER''")
      (auto simp: typed_entry_def dict_laws)
  have ok: "request_ok ?rq0" using d by (auto simp: request_ok_def rq_sub_def rq_str_def dict_laws)
  have v: "rq_str ?rq0 ''SERVER_PORT'' = Some (dec_int (pc_port pcnf))" "rq_str ?rq0 ''SERVER_WWW_ROOT'' = Some root"
    "rq_sub ?rq0 ''REQUEST_HEADER'' = Some dict" "rq_sub ?rq0 ''REQUEST_DATA'' = Some dict"
    by (simp_all add: rq_sub_def rq_str_def dict_laws)
  have "rq = (case remote of None \<Rightarrow> ?rq0 | Some ip \<Rightarrow> rq_put ''REMOTE_ADDR'' (RqStr ip) ?rq0)"
    using assms root by (auto simp: new_request_def rq_put_def Let_def split: option.splits)
  with ok v root show "ready_for AcceptRequest rq" "rq_client rq = c" "rq_str rq ''SERVER_PORT'' = Some (dec_int (pc_port pcnf))"
    "rq_str rq ''SERVER_WWW_ROOT'' = pc_htdocs pcnf" "rq_sub rq ''REQUEST_HEADER'' = Some dict" "rq_sub rq ''REQUEST_DATA'' = Some dict"
    by (auto simp: ready_for_def typed_entry_def split: option.splits)
qed

end
