(* ===== verification/Serving.thy ===== *)
theory Serving
  imports Dispatch
begin

text \<open>
  A request from its first byte to its answer: the request line (\<open>accept_request\<close>), the header
  (\<open>decode_request_header\<close>), the method (\<open>decode_request\<close>), the resource (\<open>resolve_request\<close>) and
  the file (\<open>serve_file\<close>), run one after the other by \<open>run_request\<close>.
\<close>

section \<open>The request line\<close>

definition request_line :: "cstring \<Rightarrow> cstring \<Rightarrow> cstring \<Rightarrow> cstring" where
  "request_line m t v = m @ SP # t @ SP # v @ CRLF"

definition line_word :: "cstring \<Rightarrow> bool" where
  "line_word w \<longleftrightarrow> w \<noteq> [] \<and> set w \<inter> {NUL, LF, CR, SP} = {}"

lemma line_word_ends: "line_word w \<Longrightarrow> hd w \<notin> {NUL, LF, CR, SP} \<and> last w \<notin> {NUL, LF, CR, SP}"
  by (metis disjoint_iff hd_in_set last_in_set line_word_def)

lemma read_request_line_good:
  assumes "rx_ready (rq_client rq) pre post" "rx_stream pre = map byte_of (request_line m t v) @ rest"
    "line_word m" "line_word t" "line_word v" "length (request_line m t v) < BUFFLEN"
  shows "\<exists>c' pre'. read_request_line task rq = (task\<lparr>rp_handle := Some DecodeRequestHeader\<rparr>,
      foldr (\<lambda>(k, v). rq_put k v)
        [(''REQUEST_PATH'', RqStr (cstr (url_decode_buf (fst (strsep ''?'' t))))), (''REQUEST_QUERY'', RqStr t), (''PROTOCOL'', RqStr v), (''METHOD'', RqStr m)]
        (rq\<lparr>rq_client := c'\<rparr>)) \<and>
    rx_ready c' pre' post \<and> rx_stream pre' = rest \<and> rx_frame (rq_client rq) c' \<and> last_io c' = clock c'"
proof -
  let ?l = "m @ SP # t @ SP # v @ [CR]"
  have line: "request_line m t v = ?l @ [LF]" by (simp add: request_line_def)
  have "LF \<notin> set ?l" using assms(3-5) by (auto simp: line_word_def)
  moreover have "length ?l + 1 \<le> BUFFLEN - 1" using assms(6) by (simp add: line)
  ultimately obtain c' pre' where rd: "read_buf (rq_client rq) BUFFLEN = (int (length ?l) + 1, ?l @ [LF], c')"
      "rx_ready c' pre' post" "rx_stream pre' = rest"
    using read_buf_line [OF assms(1) _ _ , of ?l rest BUFFLEN] assms(2) unfolding line by blast
  have fr: "rx_frame (rq_client rq) c'" "last_io c' = clock c'" using read_buf_frame [OF rd(1)] by auto
  have "cstr (?l @ [LF]) = ?l @ [LF]" using assms(3-5) by (intro cstr_id) (auto simp: is_cstr_def line_word_def)
  moreover have "strsep '' '' (?l @ [LF]) = (m, Some (t @ SP # v @ CRLF))"
    using assms(3) strsep_here [of SP m "t @ SP # v @ CRLF"] by (simp add: line_word_def)
  moreover have "trim (t @ SP # v @ CRLF) SP = t @ SP # v @ CRLF"
    using line_word_ends [OF assms(4)] assms(4) by (intro trim_idle) (auto simp: line_word_def)
  moreover have "strsep '' '' (t @ SP # v @ CRLF) = (t, Some (v @ CRLF))"
    using assms(4) strsep_here [of SP t "v @ CRLF"] by (simp add: line_word_def)
  moreover have "trim (v @ CRLF) SP = v @ CRLF"
    using line_word_ends [OF assms(5)] assms(5) by (intro trim_idle) (auto simp: line_word_def)
  moreover have "trim (trim (v @ CRLF) LF) CR = v"
    using line_word_ends [OF assms(5)] assms(5) by (intro trim_line_end) (auto simp: line_word_def)
  moreover have "trim m SP = m" "trim t SP = t"
    using line_word_ends [OF assms(3)] line_word_ends [OF assms(4)] by (simp_all add: trim_idle)
  ultimately have "read_request_line task rq = (task\<lparr>rp_handle := Some DecodeRequestHeader\<rparr>,
      foldr (\<lambda>(k, v). rq_put k v)
        [(''REQUEST_PATH'', RqStr (cstr (url_decode_buf (fst (strsep ''?'' t))))), (''REQUEST_QUERY'', RqStr t),
         (''PROTOCOL'', RqStr v), (''METHOD'', RqStr m)]
        (rq\<lparr>rq_client := c'\<rparr>))"
    using rd(1) by (simp add: read_request_line_def Let_def url_decode_def)
  with rd(2,3) fr show ?thesis by blast
qed

section \<open>One handler after the other\<close>

text \<open>A connection whose next bytes are those of \<open>stream\<close>, arriving and taken without a pause longer than the
  server waits.\<close>

definition conn_ready :: "client \<Rightarrow> u8 list \<Rightarrow> bool" where
  "conn_ready c stream \<longleftrightarrow> (\<exists>pre post. rx_ready c pre post \<and> rx_stream pre = stream) \<and> tx_prompt (ssl c) 0 (tx c)"

lemma put_strings_sub:
  assumes "request_ok rq" "\<forall>(k, v) \<in> set kvs. typed_entry k v \<and> k \<noteq> ''PROXY_HANDLE'' \<and> (\<exists>s. v = RqStr s)"
  shows "rq_sub (foldr (\<lambda>(k, v). rq_put k v) kvs rq) = rq_sub rq"
  using assms(2)
proof (induction kvs)
  case (Cons kv kvs)
  let ?rq = "foldr (\<lambda>(k, v). rq_put k v) kvs rq"
  obtain k s where kv: "kv = (k, RqStr s)" "typed_entry k (RqStr s)" using Cons.prems by (cases kv) auto
  have ok: "request_ok ?rq" by (rule put_chain(1) [OF assms(1)]) (use Cons.prems in auto)
  then have ty: "typed_entry k v" if "dvalue (rq_dict ?rq) k = Some v" for v
    using that unfolding request_ok_def by blast
  have "rq_sub ?rq k = None"
  proof (cases "dvalue (rq_dict ?rq) k")
    case (Some v)
    with ty [OF Some] kv(2) show ?thesis by (cases v) (simp_all add: typed_entry_def rq_sub_def)
  qed (simp add: rq_sub_def)
  with ok have "rq_sub (rq_put k (RqStr s) ?rq) = rq_sub ?rq" by (simp add: fun_eq_iff)
  with Cons kv(1) show ?case by simp
qed simp

lemma accept_line:
  assumes "conn_ready (rq_client rq) (map byte_of (request_line m t v) @ rest)" "request_ok rq"
    "line_word m" "line_word t" "line_word v" "length (request_line m t v) < BUFFLEN"
    "\<not> ssl (rq_client rq) \<or> state (rq_client rq) \<noteq> ANTD_CLIENT_ACCEPT"
  shows "\<exists>task rq'. accept_request (1, {POLLIN}) acc rq = (task, rq') \<and> rp_handle task = Some DecodeRequestHeader \<and>
    conn_ready (rq_client rq') rest \<and> sent (rq_client rq') = sent (rq_client rq) \<and> request_ok rq' \<and>
    rq_str rq' ''METHOD'' = Some m \<and> rq_str rq' ''REQUEST_QUERY'' = Some t \<and> rq_str rq' ''PROTOCOL'' = Some v \<and>
    rq_str rq' ''REQUEST_PATH'' = Some (cstr (url_decode_buf (fst (strsep ''?'' t)))) \<and>
    rq_str rq' ''SERVER_PORT'' = rq_str rq ''SERVER_PORT'' \<and> rq_str rq' ''SERVER_WWW_ROOT'' = rq_str rq ''SERVER_WWW_ROOT'' \<and>
    rq_sub rq' = rq_sub rq"
proof -
  let ?rq = "set_state ANTD_CLIENT_PROTO_CHECK rq"
  let ?kvs = "[(''REQUEST_PATH'', RqStr (cstr (url_decode_buf (fst (strsep ''?'' t))))), (''REQUEST_QUERY'', RqStr t),
     (''PROTOCOL'', RqStr v), (''METHOD'', RqStr m)]"
  let ?task = "bind_event rq (ON_WRITABLE + ON_READABLE) (create_task None rq)"
  obtain pre post where io: "rx_ready (rq_client ?rq) pre post" "rx_stream pre = map byte_of (request_line m t v) @ rest"
      "tx_prompt (ssl (rq_client rq)) 0 (tx (rq_client rq))"
    using assms(1) by (auto simp: conn_ready_def set_state_def rx_ready_def)
  obtain c' pre' where rd: "read_request_line ?task ?rq = (?task\<lparr>rp_handle := Some DecodeRequestHeader\<rparr>,
      foldr (\<lambda>(k, v). rq_put k v) ?kvs (?rq\<lparr>rq_client := c'\<rparr>))"
      "rx_ready c' pre' post" "rx_stream pre' = rest" "rx_frame (rq_client ?rq) c'" "last_io c' = clock c'"
    using read_request_line_good [OF io(1,2) assms(3-6), of ?task] by blast
  have ok: "request_ok (?rq\<lparr>rq_client := c'\<rparr>)" "\<forall>(k, v) \<in> set ?kvs. typed_entry k v \<and> k \<noteq> ''PROXY_HANDLE''"
    using assms(2) by (simp_all add: typed_entry_def)
  note ch = put_chain [OF ok]
  define rq' where "rq' = foldr (\<lambda>(k, v). rq_put k v) ?kvs (?rq\<lparr>rq_client := c'\<rparr>)"
  have sub: "rq_sub rq' = rq_sub rq"
    using put_strings_sub [OF ok(1), of ?kvs] unfolding rq'_def by (simp add: typed_entry_def del: foldr.simps)
  have "accept_request (1, {POLLIN}) acc rq = (?task\<lparr>rp_handle := Some DecodeRequestHeader\<rparr>, rq')"
    using assms(7) rd(1) unfolding rq'_def
    by (cases "ssl (rq_client rq)") (simp_all add: accept_request_def Let_def del: foldr.simps)
  moreover have "rq_client rq' = c'" by (simp add: rq'_def rq_put_def)
  moreover have "conn_ready c' rest" "sent c' = sent (rq_client rq)"
    using rd(2-4) io(3) by (auto simp: conn_ready_def rx_frame_def set_state_def)
  moreover have "request_ok rq'" using ch(1) by (simp only: rq'_def)
  moreover note sub
  ultimately show ?thesis
    using ch(3) by (intro exI [of _ "?task\<lparr>rp_handle := Some DecodeRequestHeader\<rparr>"] exI [of _ rq']) (simp add: rq'_def del: foldr.simps)
qed

text \<open>A file the server can send, and a request for it: no body, no condition, no upgrade.\<close>

definition file_at :: "server_env \<Rightarrow> cstring \<Rightarrow> st \<Rightarrow> cstring \<Rightarrow> u8 list \<Rightarrow> bool" where
  "file_at S path f mtype content \<longleftrightarrow>
     w_stat (se_world S) path = Some f \<and> \<not> st_dir f \<and> w_read (se_world S) path = Some content \<and>
     st_size f = int (length content) \<and> length content < 2 ^ 31 \<and>
     mime (w_mime (se_world S)) (Some (cf_mimes (se_cfg S))) (Some path) = Some mtype \<and> mtype \<noteq> octet_stream \<and>
     length path < PATH_SIZE"

definition plain_get :: "field list \<Rightarrow> bool" where
  "plain_get hs \<longleftrightarrow> (\<forall>kv \<in> set hs. good_field kv) \<and> sum_list (map (\<lambda>kv. length (field_line kv)) hs) \<le> HEADER_MAX_SIZE \<and>
     (\<forall>key \<in> {''Content-Length'', ''If-Modified-Since'', ''Sec-WebSocket-Key''}. map_of (rev (canonical_fields hs)) key = None)"

lemma header_keys:
  "simple_hash ''Last-Modified'' mod 16 = 0" "simple_hash ''Cache-Control'' mod 16 = 2"
  by (simp_all add: simple_hash_def char_int_def byte_of_def code_of_def)

lemma file_headers_items:
  "dict_items (dput (file_headers w f mtype) ''Server'' (Some SERVER_NAME)) =
    [(''Last-Modified'', Some (w_date w (st_ctime f))), (''Cache-Control'', Some ''no-cache''), (''Server'', Some SERVER_NAME),
     (''Content-Length'', Some (dec_int (sint (word_of_int (st_size f) :: u32)))), (''Content-Type'', Some mtype)]"
  by (simp add: file_headers_def dput_def put_el_with_key_def dlookup_def bucket_def hash_def Let_def dict_def
      dict_n_def dict_items_def simple_hash_keys header_keys replicate_16)

lemma f_send_ready:
  assumes "tx_ready c"
  shows "sent (snd (snd (f_send c (Some content)))) = sent c @ content"
proof -
  have "sent (snd (snd (f_loop c content))) = sent c @ content" if "tx_ready c" for c content
    using that
  proof (induction c content rule: f_loop.induct)
    case (1 c data)
    show ?case
    proof (cases "data = []")
      case False
      obtain c1 where c1: "antd_send c (take BUFFLEN data) = (int (length (take BUFFLEN data)), c1)" "tx_ready c1"
          "sent c1 = sent c @ take BUFFLEN data"
        using antd_send_ready [OF 1(2)] by blast
      have "int (length (take BUFFLEN data)) \<noteq> -1" by simp
      from 1(1) [OF False c1(1) [symmetric] refl this c1(2)] False c1 show ?thesis by (simp add: f_loop.simps [of c data])
    qed (simp add: f_loop.simps)
  qed
  with assms show ?thesis by (simp add: f_send_def)
qed

text \<open>The answer: the header in the order of the hash table, and the file.\<close>

definition file_answer :: "server_env \<Rightarrow> st \<Rightarrow> cstring \<Rightarrow> u8 list \<Rightarrow> u8 list" where
  "file_answer S f mtype content =
     map byte_of (concat (map (\<lambda>l. l @ CRLF)
       [status_line 200, ''Last-Modified: '' @ w_date (se_world S) (st_ctime f), ''Cache-Control: no-cache'', ''Server: Antd'',
        ''Content-Length: '' @ dec_nat (length content), ''Content-Type: '' @ mtype]) @ CRLF) @ content"

lemma serve_file_sends:
  assumes "rq_str rq ''RESOURCE_PATH'' = Some path" "rq_str rq ''RESOURCE_MIME'' = Some mtype"
    "rq_sub rq ''REQUEST_HEADER'' = Some hdrs" "dvalue hdrs ''If-Modified-Since'' = None" "file_at S path f mtype content"
    "tx_ready (rq_client rq)"
  shows "\<exists>rq'. serve_file (se_world S) rq = Some (create_task None rq, rq') \<and>
    sent (rq_client rq') = sent (rq_client rq) @ file_answer S f mtype content"
proof -
  let ?c = "rq_client (set_state ANTD_CLIENT_SERVE_FILE rq)"
  let ?res = "\<lparr>rh_header = Some (file_headers (se_world S) f mtype), rh_cookie = [], rh_status = 200\<rparr>"
  have tx: "tx_ready ?c" using assms(6) by (simp add: set_state_def tx_ready_def)
  have size: "sint (word_of_int (st_size f) :: u32) = int (length content)"
  proof -
    have n: "st_size f = int (length content)" "length content < 2 ^ 31" using assms(5) by (simp_all add: file_at_def)
    have "sint (word_of_int (st_size f) :: u32) = signed_take_bit 31 (st_size f)" by (simp add: sint_sbintrunc')
    also have "\<dots> = st_size f" by (rule signed_take_bit_int_eq_self) (use n in simp_all)
    finally show ?thesis using n(1) by simp
  qed
  have "dec_int (int n) = dec_nat n" for n by (simp add: dec_int_def)
  then have "header_text ?res = [status_line 200, ''Last-Modified: '' @ w_date (se_world S) (st_ctime f), ''Cache-Control: no-cache'',
      ''Server: Antd'', ''Content-Length: '' @ dec_nat (length content), ''Content-Type: '' @ mtype]"
    by (simp add: header_text_def file_headers_items [unfolded SERVER_NAME_def] size header_entry_def fmt_s_def SERVER_NAME_def map_filter_simps)
  with antd_send_header_ready [OF tx, of ?res] f_send_ready [of "fst (antd_send_header ?c ?res)" content]
  have "sent (snd (snd (f_send (fst (antd_send_header ?c ?res)) (Some content)))) = sent ?c @ file_answer S f mtype content"
    by (simp add: file_answer_def)
  moreover have "sent ?c = sent (rq_client rq)" by (simp add: set_state_def)
  moreover have "serve_file (se_world S) rq = Some (create_task None rq,
      on_client (\<lambda>c. snd (snd (f_send (fst (antd_send_header c ?res)) (Some content)))) (set_state ANTD_CLIENT_SERVE_FILE rq))"
    using assms(1-5) by (simp add: serve_file_def file_at_def Let_def)
  ultimately show ?thesis by (simp add: on_client_def)
qed

lemma resolve_file:
  assumes "request_ok rq" "rq_str rq ''REQUEST_URI'' = Some uri" "rq_str rq ''SERVER_WWW_ROOT'' = Some root"
    "rq_sub rq ''REQUEST_HEADER'' = Some hdrs" "dvalue hdrs ''Content-Length'' = None" "file_at S (root @ ''/'' @ uri) f mtype content"
  shows "\<exists>task rq'. resolve_request (se_rgx S) (se_dl S) (se_world S) (se_cfg S) rq p = Some (task, rq', p) \<and>
    rp_handle task = Some ServeFile \<and> rq_str rq' ''RESOURCE_PATH'' = Some (root @ ''/'' @ uri) \<and>
    rq_str rq' ''RESOURCE_MIME'' = Some mtype \<and> rq_sub rq' ''REQUEST_HEADER'' = Some hdrs \<and>
    rq_client rq' = (rq_client rq)\<lparr>state := ANTD_CLIENT_RESOLVE_REQUEST\<rparr>"
proof -
  let ?path = "root @ ''/'' @ uri"
  let ?rq = "set_state ANTD_CLIENT_RESOLVE_REQUEST rq"
  let ?rq1 = "rq_put ''RESOURCE_MIME'' (RqStr mtype) (rq_put ''RESOURCE_PATH'' (RqStr ?path) ?rq)"
  have cut: "cut_path ?path = ?path" unfolding cut_path_def by (rule take_all) (use assms(6) in \<open>simp add: file_at_def PATH_SIZE_def BUFFLEN_def\<close>)
  have ok: "request_ok (rq_put ''RESOURCE_PATH'' (RqStr ?path) ?rq)" "request_ok ?rq" using assms(1) by (simp_all add: typed_entry_def)
  have sub: "rq_sub ?rq1 ''REQUEST_HEADER'' = Some hdrs" using ok assms(4) by simp
  then have discard: "discard_body ?rq1 = ?rq1" by (simp add: discard_body_def assms(5))
  have "resolve_request (se_rgx S) (se_dl S) (se_world S) (se_cfg S) rq p =
      send_resource (se_rgx S) (se_dl S) (se_world S) (se_cfg S) (create_task None rq) ?path ?rq p"
    using assms(2,3,6) cut by (simp add: resolve_request_def file_at_def Let_def)
  also have "\<dots> = Some ((bind_event ?rq1 ON_WRITABLE (create_task None rq))\<lparr>rp_handle := Some ServeFile\<rparr>, ?rq1, p)"
    using assms(6) discard by (simp add: send_resource_def file_at_def Let_def)
  finally have r: "resolve_request (se_rgx S) (se_dl S) (se_world S) (se_cfg S) rq p = \<dots>" .
  have "rq_client ?rq1 = (rq_client rq)\<lparr>state := ANTD_CLIENT_RESOLVE_REQUEST\<rparr>" by (simp add: set_state_def)
  with r ok sub show ?thesis
    by (intro exI [of _ "(bind_event ?rq1 ON_WRITABLE (create_task None rq))\<lparr>rp_handle := Some ServeFile\<rparr>"] exI [of _ ?rq1]) simp
qed

text \<open>The first two handlers: the request of a \<open>GET\<close> line and a plain header.\<close>

lemma get_decoded:
  assumes "conn_ready (rq_client rq) (map byte_of (request_line ''GET'' t v) @ header_bytes hs @ rest)" "request_ok rq"
    "\<not> ssl (rq_client rq) \<or> state (rq_client rq) \<noteq> ANTD_CLIENT_ACCEPT"
    "line_word t" "line_word v" "length (request_line ''GET'' t v) < BUFFLEN" "plain_get hs"
    "rq_str rq ''SERVER_PORT'' = Some port" "rq_sub rq ''REQUEST_HEADER'' = Some dict"
    "dvalue (cf_ports cfg) port = Some pc" "\<forall>host. apply_rules rgx (pc_rules pc) host t = Some (path, query)" "proxy_match path = None"
  shows "\<exists>t1 rq1 t2 rq2 hdrs. accept_request (1, {POLLIN}) acc rq = (t1, rq1) \<and> rp_handle t1 = Some DecodeRequestHeader \<and>
    decode_request_header rgx cfg rq1 = Some (t2, rq2) \<and> rp_handle t2 = Some DecodeRequest \<and> request_ok rq2 \<and>
    rq_str rq2 ''METHOD'' = Some ''GET'' \<and> rq_str rq2 ''SERVER_WWW_ROOT'' = rq_str rq ''SERVER_WWW_ROOT'' \<and>
    rq_str rq2 ''REQUEST_URI'' = Some (cstr (url_decode_buf path)) \<and> rq_sub rq2 ''REQUEST_HEADER'' = Some hdrs \<and>
    (\<forall>key \<in> {''Content-Length'', ''If-Modified-Since'', ''Sec-WebSocket-Key''}. dvalue hdrs key = None) \<and>
    tx_ready (rq_client rq2) \<and> sent (rq_client rq2) = sent (rq_client rq)"
proof -
  have "line_word ''GET''" by (simp add: line_word_def)
  from accept_line [OF assms(1,2) this assms(4-6,3), of acc] obtain t1 rq1 where
    1: "accept_request (1, {POLLIN}) acc rq = (t1, rq1)" "rp_handle t1 = Some DecodeRequestHeader"
      "conn_ready (rq_client rq1) (header_bytes hs @ rest)" "sent (rq_client rq1) = sent (rq_client rq)" "request_ok rq1"
      "rq_str rq1 ''METHOD'' = Some ''GET''" "rq_str rq1 ''REQUEST_QUERY'' = Some t" "rq_str rq1 ''SERVER_PORT'' = Some port"
      "rq_str rq1 ''SERVER_WWW_ROOT'' = rq_str rq ''SERVER_WWW_ROOT''" "rq_sub rq1 = rq_sub rq"
    using assms(8) by auto
  obtain data where data: "rq_sub rq1 ''REQUEST_DATA'' = Some data" using 1(5) by (auto simp: request_ok_def)
  obtain pre post where io: "rx_ready (rq_client rq1) pre post" "rx_stream pre = header_bytes hs @ rest"
      "tx_prompt (ssl (rq_client rq1)) 0 (tx (rq_client rq1))"
    using 1(3) by (auto simp: conn_ready_def)
  have hs: "\<forall>kv \<in> set hs. good_field kv" "sum_list (map (\<lambda>kv. length (field_line kv)) hs) \<le> HEADER_MAX_SIZE"
      "\<forall>key \<in> {''Content-Length'', ''If-Modified-Since'', ''Sec-WebSocket-Key''}. map_of (rev (canonical_fields hs)) key = None"
    using assms(7) by (simp_all add: plain_get_def)
  have "length t < URI_SIZE" using assms(6) by (simp add: request_line_def URI_SIZE_def)
  moreover have "dict_ok (rq_dict rq1)" using 1(5) by (simp add: request_ok_def)
  moreover have "rq_sub rq1 ''REQUEST_HEADER'' = Some dict" using 1(10) assms(9) by simp
  ultimately obtain rq2 hdrs where
    2: "decode_request_header rgx cfg rq1 = Some (bind_event rq2 (ON_WRITABLE + ON_READABLE) (create_task (Some DecodeRequest) rq2), rq2)"
      "rq_str rq2 ''REQUEST_URI'' = Some (cstr (url_decode_buf path))" "rq_sub rq2 ''REQUEST_HEADER'' = Some hdrs"
      "\<forall>key. dvalue hdrs key = (case map_of (rev (canonical_fields hs)) key of Some v \<Rightarrow> Some v | None \<Rightarrow> dvalue dict key)"
      "rx_frame ((rq_client rq1)\<lparr>state := ANTD_CLIENT_HEADER_DECODE\<rparr>) (rq_client rq2)" "last_io (rq_client rq2) = clock (rq_client rq2)"
      "rq_str rq2 ''METHOD'' = rq_str rq1 ''METHOD''" "rq_str rq2 ''SERVER_WWW_ROOT'' = rq_str rq1 ''SERVER_WWW_ROOT''"
    using header_decoded [OF io(1,2) hs(1,2) 1(7) _ data 1(8) _ dict_ok_dict assms(10-12)] hs(3) by (auto simp: url_decode_def)
  have "ready_for DecodeRequestHeader rq1" using 1(5-7) by (simp add: ready_for_def)
  from decode_header_types [OF 2(1) this] have "request_ok rq2" by (simp add: next_ready_def)
  moreover have "tx_ready (rq_client rq2)" "sent (rq_client rq2) = sent (rq_client rq)"
    using 1(4) 2(5,6) io(3) by (simp_all add: tx_ready_def rx_frame_def)
  moreover have "\<forall>key \<in> {''Content-Length'', ''If-Modified-Since'', ''Sec-WebSocket-Key''}. dvalue hdrs key = None"
    using 2(4) hs(3) by simp
  ultimately show ?thesis using 1(1,2,6,9) 2(1-3,7,8)
    by (intro exI [of _ t1] exI [of _ rq1] exI [of _ "bind_event rq2 (ON_WRITABLE + ON_READABLE) (create_task (Some DecodeRequest) rq2)"]
        exI [of _ rq2] exI [of _ hdrs]) simp
qed

section \<open>Properties\<close>


text \<open>C4. A file is served from the first byte of the request to the last byte of the answer: when a client
  of a new connection sends a \<open>GET\<close> request for a target which the rules of the port turn into the path
  of a file under the document root, then the five handlers run one after the other and the
  connection carries exactly one header, whose \<open>Content-Length\<close> is the size of the file, and the contents
  of the file.  The path is the decoded target as it is: the server does not look for \<open>..\<close> in it.\<close>

theorem get_file_served:
  assumes "new_request pcnf remote c = Some rq" "pc_htdocs pcnf = Some root"
    "conn_ready c (map byte_of (request_line ''GET'' t v) @ header_bytes hs @ rest)" "\<not> ssl c \<or> state c \<noteq> ANTD_CLIENT_ACCEPT"
    "line_word t" "line_word v" "length (request_line ''GET'' t v) < BUFFLEN" "plain_get hs"
    "dvalue (cf_ports (se_cfg S)) (dec_int (pc_port pcnf)) = Some pcnf"
    "\<forall>host. apply_rules (se_rgx S) (pc_rules pcnf) host t = Some (path, query)" "proxy_match path = None"
    "file_at S (root @ ''/'' @ cstr (url_decode_buf path)) f mtype content"
    "length es = 5" "en_poll (hd es) = (1, {POLLIN})"
  shows "\<exists>s. run_request S es AcceptRequest \<lparr>ss_request = rq, ss_plugins = p, ss_files = []\<rparr> = Some (None, s) \<and>
    sent (rq_client (ss_request s)) = sent c @ file_answer S f mtype content \<and> ss_plugins s = p \<and> ss_files s = []"
proof -
  obtain e1 e2 e3 e4 e5 where es: "es = [e1, e2, e3, e4, e5]"
    using assms(13) by (auto simp: eval_nat_numeral length_Suc_conv)
  note new = new_request_ready [OF assms(1)]
  have ok: "request_ok rq" using new(1) by (simp add: ready_for_def)
  obtain t1 rq1 t2 rq2 hdrs where
    12: "accept_request (1, {POLLIN}) (en_accept e1) rq = (t1, rq1)" "rp_handle t1 = Some DecodeRequestHeader"
      "decode_request_header (se_rgx S) (se_cfg S) rq1 = Some (t2, rq2)" "rp_handle t2 = Some DecodeRequest" "request_ok rq2"
      "rq_str rq2 ''METHOD'' = Some ''GET''" "rq_str rq2 ''SERVER_WWW_ROOT'' = Some root"
      "rq_str rq2 ''REQUEST_URI'' = Some (cstr (url_decode_buf path))" "rq_sub rq2 ''REQUEST_HEADER'' = Some hdrs"
      "\<forall>key \<in> {''Content-Length'', ''If-Modified-Since'', ''Sec-WebSocket-Key''}. dvalue hdrs key = None"
      "tx_ready (rq_client rq2)" "sent (rq_client rq2) = sent c"
    using get_decoded [of rq, unfolded new(2), OF assms(3) ok assms(4-8) new(3,5) assms(9-11), of "en_accept e1"]
    unfolding new(4) assms(2) by blast
  have none: "dvalue hdrs ''Content-Length'' = None" "dvalue hdrs ''If-Modified-Since'' = None" "dvalue hdrs ''Sec-WebSocket-Key'' = None"
    using 12(10) by simp_all
  have 3: "decode_request rq2 = Some ((create_task None rq2)\<lparr>rp_handle := Some ResolveRequest\<rparr>, rq2)"
    using 12(6,9) none(3) by (simp add: decode_request_def Let_def)
  obtain t4 rq4 where 4: "resolve_request (se_rgx S) (se_dl S) (se_world S) (se_cfg S) rq2 p = Some (t4, rq4, p)"
      "rp_handle t4 = Some ServeFile" "rq_str rq4 ''RESOURCE_PATH'' = Some (root @ ''/'' @ cstr (url_decode_buf path))"
      "rq_str rq4 ''RESOURCE_MIME'' = Some mtype" "rq_sub rq4 ''REQUEST_HEADER'' = Some hdrs"
      "rq_client rq4 = (rq_client rq2)\<lparr>state := ANTD_CLIENT_RESOLVE_REQUEST\<rparr>"
    using resolve_file [OF 12(5,8,7,9) none(1) assms(12), of p] by blast
  have "tx_ready (rq_client rq4)" using 12(11) by (simp add: 4(6) tx_ready_def)
  then obtain rq5 where 5: "serve_file (se_world S) rq4 = Some (create_task None rq4, rq5)"
      "sent (rq_client rq5) = sent (rq_client rq4) @ file_answer S f mtype content"
    using serve_file_sends [OF 4(3-5) none(2) assms(12)] by blast
  have "sent (rq_client rq4) = sent c" using 12(12) by (simp add: 4(6))
  with 5 show ?thesis
    using 12(1-4) 3 4(1,2) assms(14) by (simp add: es run_handler_def)
qed

definition demo_site :: server_env where
  "demo_site = \<lparr>se_rgx = (\<lambda>k s. None), se_dl = \<lparr>dl_open = \<lambda>p. False, dl_sym = \<lambda>p s. False, dl_create = \<lambda>p c. c\<rparr>,
     se_world = \<lparr>w_stat = \<lambda>p. if p = ''/www//a.txt'' then Some \<lparr>st_dir = False, st_size = 2, st_ctime = 0\<rparr> else None,
       w_read = \<lambda>p. if p = ''/www//a.txt'' then Some [72, 105] else None, w_mime = \<lambda>pat e. True,
       w_date = \<lambda>t. ''Thu'', w_parse = \<lambda>s. 0\<rparr>,
     se_cfg = demo_config\<lparr>cf_mimes := dput dict ''text/plain'' (Some ''txt'')\<rparr>\<rparr>"

definition demo_step :: step_env where
  "demo_step = \<lparr>en_poll = (1, {POLLIN}), en_accept = (1, TLS_NONE), en_monitor = [], en_host = (\<lambda>h. None), en_connect = (\<lambda>h p. None),
     en_open = (\<lambda>p. False), en_plugin = (\<lambda>n rq. (create_task None rq, rq))\<rparr>"

definition demo_conn :: "u8 list \<Rightarrow> client" where
  "demo_conn bytes = demo_client\<lparr>rx := [(0, RxData (hd bytes) (tl bytes))], tx := []\<rparr>"

lemma demo_conn_ready: "bytes \<noteq> [] \<Longrightarrow> conn_ready (demo_conn bytes) bytes"
  unfolding conn_ready_def
  by (intro conjI exI [of _ "[(0, RxData (hd bytes) (tl bytes))]"] exI [of _ "[]"]) (simp_all add: demo_conn_def rx_ready_def)

lemma demo_file: "file_at demo_site ''/www//a.txt'' \<lparr>st_dir = False, st_size = 2, st_ctime = 0\<rparr> ''text/plain'' [72, 105]"
proof -
  have "strsep_all ''.'' ''/www//a.txt'' = [''/www//a'', ''txt'']"
    using strsep_all_join [of "''/www//a''" "[''txt'']" "CHR ''.''"] by simp
  moreover have "strstr ''/www//a.txt'' ''.''" by code_simp
  ultimately have "ext (Some ''/www//a.txt'') = Some ''txt''" by (simp add: ext_def)
  moreover have "dict_items (dput dict ''text/plain'' (Some ''txt'')) = [(''text/plain'', Some ''txt'')]" by code_simp
  ultimately show ?thesis
    by (simp add: file_at_def demo_site_def mime_def mime_from_ext_def octet_stream_def PATH_SIZE_def BUFFLEN_def)
qed

theorem get_file_served_witness:
  "\<exists>rq s. new_request (demo_port dict) None (demo_conn (map byte_of (request_line ''GET'' ''/a.txt'' ''HTTP/1.1'') @ header_bytes [(''host'', ''a.b'')])) = Some rq \<and>
    run_request demo_site (replicate 5 demo_step) AcceptRequest \<lparr>ss_request = rq, ss_plugins = no_plugins, ss_files = []\<rparr> = Some (None, s) \<and>
    sent (rq_client (ss_request s)) = file_answer demo_site \<lparr>st_dir = False, st_size = 2, st_ctime = 0\<rparr> ''text/plain'' [72, 105]"
proof -
  let ?in = "map byte_of (request_line ''GET'' ''/a.txt'' ''HTTP/1.1'') @ header_bytes [(''host'', ''a.b'')]"
  obtain rq where rq: "new_request (demo_port dict) None (demo_conn ?in) = Some rq" by (simp add: new_request_def demo_port_def)
  have "atoi ''80'' = 80" "dec_int 80 = ''80''" by code_simp+
  then have port: "dec_int (pc_port (demo_port dict)) = ''80''" by (simp add: demo_port_def new_port_def)
  have "?in \<noteq> []" by (simp add: request_line_def)
  then have "conn_ready (demo_conn ?in) (map byte_of (request_line ''GET'' ''/a.txt'' ''HTTP/1.1'') @ header_bytes [(''host'', ''a.b'')] @ [])"
    using demo_conn_ready [of ?in] by simp
  moreover have "\<not> ssl (demo_conn ?in) \<or> state (demo_conn ?in) \<noteq> ANTD_CLIENT_ACCEPT" by (simp add: demo_conn_def)
  moreover have "line_word ''/a.txt''" "line_word ''HTTP/1.1''" by (simp_all add: line_word_def)
  moreover have "length (request_line ''GET'' ''/a.txt'' ''HTTP/1.1'') < BUFFLEN" by (simp add: request_line_def BUFFLEN_def)
  moreover have "plain_get [(''host'', ''a.b'')]"
  proof -
    have "verify_header ''host'' = ''Host''" by code_simp
    then show ?thesis
      by (simp add: plain_get_def canonical_fields_def good_field_def field_line_def URI_SIZE_def BUFFLEN_def HEADER_MAX_SIZE_def)
  qed
  moreover have "dvalue (cf_ports (se_cfg demo_site)) (dec_int (pc_port (demo_port dict))) = Some (demo_port dict)"
    by (simp add: port demo_site_def demo_config_def)
  moreover have "\<forall>host. apply_rules (se_rgx demo_site) (pc_rules (demo_port dict)) host ''/a.txt'' = Some (''/a.txt'', [])"
    by (simp add: demo_port_def apply_rules_def dict_def split_query_def)
  moreover have "proxy_match ''/a.txt'' = None" by (simp add: proxy_match_def strcasecmp_eq_def)
  moreover have "file_at demo_site (''/www'' @ ''/'' @ cstr (url_decode_buf ''/a.txt'')) \<lparr>st_dir = False, st_size = 2, st_ctime = 0\<rparr> ''text/plain'' [72, 105]"
    using demo_file by (simp add: cstr_def)
  moreover have "pc_htdocs (demo_port dict) = Some ''/www''" by (simp add: demo_port_def)
  moreover have "en_poll (hd (replicate 5 demo_step)) = (1, {POLLIN})" by (simp add: demo_step_def eval_nat_numeral)
  ultimately obtain s where "run_request demo_site (replicate 5 demo_step) AcceptRequest \<lparr>ss_request = rq, ss_plugins = no_plugins, ss_files = []\<rparr> = Some (None, s)"
      "sent (rq_client (ss_request s)) = sent (demo_conn ?in) @ file_answer demo_site \<lparr>st_dir = False, st_size = 2, st_ctime = 0\<rparr> ''text/plain'' [72, 105]"
    using get_file_served [OF rq, where S = demo_site and es = "replicate 5 demo_step" and p = no_plugins] by (metis length_replicate)
  with rq show ?thesis by (auto simp: demo_conn_def)
qed


end
