(* ===== verification/Lifetime.thy ===== *)
theory Lifetime
  imports Scheduler Serving "HOL-Library.Multiset"
begin

text \<open>
  The life of a request from \<open>antd_monitor\<close> to \<open>finish_request\<close>: the scheduler's rule for the task that
  follows (\<open>next_task\<close>, which \<open>antd_execute_task\<close> implements) applied to the handlers of the server, with
  the callbacks the tasks carry; and the end of it, \<open>destroy_request\<close>, \<open>antd_close\<close> and
  \<open>antd_scheduler_destroy_data\<close>.
\<close>

section \<open>Releasing a request\<close>

text \<open>What is given back: a string, the memory of a dictionary, a client or a request, a TLS session, a
  socket.\<close>

datatype freed = FreedStr cstring | FreedDict | FreedClient | FreedRequest | FreedSsl | ClosedSock int

text \<open>\<open>antd_close\<close> without zlib.\<close>

definition antd_close :: "client \<Rightarrow> freed list" where
  "antd_close source = (if ssl source then [FreedSsl] else []) @ [ClosedSock (sock source), FreedClient]"

text \<open>\<open>freedict\<close> of a dictionary of strings, and what it does to a value of the request: the pointer is
  freed, whatever it points to.\<close>

definition freed_table :: "cstring dictionary \<Rightarrow> freed list" where
  "freed_table d = map FreedStr (freedict d) @ [FreedDict]"

definition freed_value :: "rqval \<Rightarrow> freed" where
  "freed_value v = (case v of RqStr s \<Rightarrow> FreedStr s | RqDict d \<Rightarrow> FreedDict | RqClient c \<Rightarrow> FreedClient)"

text \<open>\<open>tmp = dvalue(rq->request, key); if (tmp) freedict(tmp);\<close>: \<open>None\<close> when \<open>tmp\<close> is no dictionary.\<close>

definition drop_table :: "request \<Rightarrow> cstring \<Rightarrow> freed list option" where
  "drop_table rq key =
     (case dvalue (rq_dict rq) key of
        None \<Rightarrow> Some []
      | Some (RqDict d) \<Rightarrow> Some (freed_table d)
      | Some _ \<Rightarrow> None)"

definition destroy_request :: "request \<Rightarrow> freed list option" where
  "destroy_request rq =
     do {
       f1 \<leftarrow> drop_table rq ''COOKIE'';
       f2 \<leftarrow> drop_table rq ''REQUEST_HEADER'';
       f3 \<leftarrow> drop_table rq ''REQUEST_DATA'';
       let d = dput (dput (dput (rq_dict rq) ''REQUEST_HEADER'' None) ''REQUEST_DATA'' None) ''COOKIE'' None;
       Some (f1 @ f2 @ f3 @ map freed_value (freedict d) @ [FreedDict] @ antd_close (rq_client rq) @ [FreedRequest])
     }"

text \<open>\<open>antd_scheduler_destroy_data\<close> of \<open>httpd.c\<close>, for a task that is dropped: it also closes the socket
  of the other server.\<close>

definition antd_scheduler_destroy_data :: "request \<Rightarrow> config \<Rightarrow> (freed list \<times> config) option" where
  "antd_scheduler_destroy_data rq cfg =
     do {
       fs \<leftarrow> destroy_request rq;
       Some ((case rq_peer rq of None \<Rightarrow> [] | Some p \<Rightarrow> [ClosedSock (sock p)]) @ fs, finish_request cfg)
     }"

section \<open>The chain of tasks\<close>

text \<open>The task a handler returns; its id, which \<open>antd_create_task\<close> asks the scheduler for, does not
  matter here.\<close>

definition reply_task :: "reply \<Rightarrow> server_state \<Rightarrow> (handler, server_state) task" where
  "reply_task r s =
     \<lparr>t_id = sock (rq_client (ss_request s)), t_stamp = clock (rq_client (ss_request s)), t_access = rp_access r,
      t_handle = rp_handle r, t_callback = callback_of (rp_callback r),
      t_events = map (\<lambda>(fd, timeout, flags). \<lparr>ev_flags = word_of_nat flags, ev_fd = fd, ev_stamp = 0, ev_timeout = timeout, ev_task = 0\<rparr>) (rp_events r),
      t_data = s\<rparr>"

text \<open>The chain of tasks of a request, one environment per call, with the handlers that ran.\<close>

fun serve :: "server_env \<Rightarrow> step_env list \<Rightarrow> (handler, server_state) task \<Rightarrow> handler list
    \<Rightarrow> ((handler, server_state) task option \<times> handler list) option" where
  "serve S [] t hs = Some (Some t, hs)"
| "serve S (e # es) t hs =
     (case t_handle t of
        None \<Rightarrow> None
      | Some h \<Rightarrow>
          (case run_handler S e h (t_data t) of
             None \<Rightarrow> None
           | Some (r, s') \<Rightarrow>
               (case next_task (\<lambda>_ _. map_option (\<lambda>r. reply_task r s') r) t of
                  None \<Rightarrow> Some (None, hs @ [h])
                | Some t' \<Rightarrow> serve S es t' (hs @ [h]))))"

section \<open>What the handlers ask to be called\<close>

text \<open>A handler never asks for \<open>finish_request\<close>, and only for plugins as callbacks.\<close>

definition tame :: "reply \<Rightarrow> bool" where
  "tame t \<longleftrightarrow> rp_handle t \<noteq> Some FinishRequest \<and> (\<forall>h. rp_callback t = Some h \<longrightarrow> (\<exists>n. h = PluginHandle n))"

definition plugin_tame :: "step_env \<Rightarrow> bool" where
  "plugin_tame e \<longleftrightarrow> (\<forall>n rq. tame (fst (en_plugin e n rq)))"

named_theorems tame_handlers \<open>the replies of the handlers\<close>

lemma accept_tame [tame_handlers]: "accept_request polled acc rq = (t, rq') \<Longrightarrow> tame t"
proof -
  assume acc: "accept_request polled acc rq = (t, rq')"
  have "tame t'" if "read_request_line task rqx = (t', rq'')" "rp_handle task = None" "rp_callback task = None" for task rqx t' rq''
    using that by (auto simp: tame_def read_request_line_def Let_def split: prod.splits option.splits)
  from this [of "bind_event rq (ON_WRITABLE + ON_READABLE) (create_task None rq)"] acc show ?thesis
    by (auto simp: tame_def accept_request_def Let_def split: prod.splits if_splits tls_err.splits)
qed

lemma decode_request_tame [tame_handlers]: "decode_request rq = Some (t, rq') \<Longrightarrow> tame t"
  using decode_request_shapes [of rq t rq'] by (auto simp: tame_def)

lemma check_proxy_tame: "check_proxy rq path query = Some (Some t, rq') \<Longrightarrow> tame t"
  by (auto simp: check_proxy_def tame_def Let_def split: option.splits prod.splits if_splits)

lemma decode_header_tame [tame_handlers]: "decode_request_header rgx cfg rq = Some (t, rq') \<Longrightarrow> tame t"
proof -
  assume d: "decode_request_header rgx cfg rq = Some (t, rq')"
  have "tame t" if "finish_header rgx cfg pc url h rqx = Some (t, rq')" for pc url h rqx
    using that check_proxy_tame unfolding finish_header_def Let_def
    by (auto simp: tame_def split: Option.bind_splits if_splits option.splits prod.splits)
  with d show ?thesis
    unfolding decode_request_header_def Let_def by (auto simp: tame_def split: Option.bind_splits if_splits option.splits prod.splits)
qed

lemma execute_tame: "execute_plugin rgx dl cfg rq n p = Some (t, rq', p') \<Longrightarrow> tame t"
  by (auto simp: execute_plugin_def Let_def tame_def split: Option.bind_splits if_splits option.splits prod.splits)

lemma resolve_tame [tame_handlers]: "resolve_request rgx dl w cfg rq p = Some (t, rq', p') \<Longrightarrow> tame t"
proof -
  assume r: "resolve_request rgx dl w cfg rq p = Some (t, rq', p')"
  have se: "tame t'" if "send_resource rgx dl w cfg task path rqx p = Some (t', rq'', p'')" "rp_handle task = None" "rp_callback task = None"
    for task path rqx t' rq'' p''
    using that execute_tame
    by (auto simp: send_resource_def Let_def tame_def split: Option.bind_splits if_splits option.splits prod.splits)
  from r show ?thesis
    using execute_tame se unfolding resolve_request_def Let_def
    by (auto simp: tame_def split: Option.bind_splits if_splits option.splits prod.splits)
qed

lemma serve_tame [tame_handlers]: "serve_file w rq = Some (t, rq') \<Longrightarrow> tame t"
  by (auto simp: serve_file_def Let_def tame_def split: Option.bind_splits if_splits option.splits)

lemma proxify_tame [tame_handlers]: "proxify host connect rq = Some (t, rq') \<Longrightarrow> tame t"
  unfolding proxify_def Let_def by (auto simp: tame_def split: Option.bind_splits if_splits option.splits prod.splits)

lemma monitor_tame [tame_handlers]: "proxy_monitor polls rq = Some (t, rq') \<Longrightarrow> tame t"
  unfolding proxy_monitor_def Let_def by (auto simp: tame_def split: Option.bind_splits if_splits option.splits prod.splits monitor_end.splits)

lemma multi_part_tame: "decode_multi_part_request rq headers ctype = Some (t, rq') \<Longrightarrow> tame t"
  unfolding decode_multi_part_request_def Let_def by (auto simp: tame_def split: if_splits option.splits prod.splits)

lemma post_tame [tame_handlers]: "decode_post_request rq = Some (t, rq') \<Longrightarrow> tame t"
  using multi_part_tame unfolding decode_post_request_def Let_def
  by (auto simp: tame_def split: Option.bind_splits if_splits option.splits prod.splits)

lemma part_tame [tame_handlers]: "decode_multi_part_request_data op cfg rq = Some (t, rq', files) \<Longrightarrow> tame t"
  unfolding decode_multi_part_request_data_def Let_def
  by (auto simp: tame_def split: Option.bind_splits if_splits option.splits prod.splits)

lemma handler_replies:
  assumes "run_handler S e h s = Some (r, s')" "h \<noteq> FinishRequest" "plugin_tame e"
  shows "\<exists>t. r = Some t \<and> tame t"
proof (cases h)
  case AcceptRequest
  with assms show ?thesis
    using accept_tame [of "en_poll e" "en_accept e" "ss_request s"] by (cases "accept_request (en_poll e) (en_accept e) (ss_request s)")
      (auto simp: run_handler_def Let_def)
next
  case (PluginHandle n)
  with assms show ?thesis by (auto simp: run_handler_def Let_def plugin_tame_def split_beta)
qed (use assms in \<open>auto simp: run_handler_def Let_def intro: tame_handlers\<close>)

section \<open>The chain of a request\<close>

text \<open>A task of the chain: a handler that is ready and has plugins and then \<open>finish_request\<close> behind it,
  or \<open>finish_request\<close> itself with nothing behind it.\<close>

definition alive :: "(handler, server_state) task \<Rightarrow> bool" where
  "alive t \<longleftrightarrow> (\<exists>h ns. t_handle t = Some h \<and> h \<noteq> FinishRequest \<and> ready_for h (ss_request (t_data t)) \<and>
     t_callback t = map PluginHandle ns @ [FinishRequest])"

definition ending :: "(handler, server_state) task \<Rightarrow> bool" where
  "ending t \<longleftrightarrow> t_handle t = Some FinishRequest \<and> t_callback t = [] \<and> request_ok (ss_request (t_data t))"

lemma chain_step:
  assumes "alive t" "t_handle t = Some h" "run_handler S e h (t_data t) = Some (r, s')" "plugin_typed e" "plugin_tame e"
  shows "\<exists>t'. next_task (\<lambda>_ _. map_option (\<lambda>r. reply_task r s') r) t = Some t' \<and> (alive t' \<or> ending t')"
proof -
  from assms(1,2) obtain ns where h: "h \<noteq> FinishRequest" "ready_for h (ss_request (t_data t))"
      "t_callback t = map PluginHandle ns @ [FinishRequest]"
    by (auto simp: alive_def)
  obtain rp where r: "r = Some rp" "tame rp" using handler_replies [OF assms(3) h(1) assms(5)] by blast
  from handlers_typed [OF h(2) assms(4,3)] r have ty: "next_ready rp (ss_request s')" by simp
  obtain ms where cb: "callback_of (rp_callback rp) = map PluginHandle ms"
  proof (cases "rp_callback rp")
    case None
    then show thesis using that [of "[]"] by (simp add: callback_of_def)
  next
    case (Some c)
    with r(2) obtain n where "c = PluginHandle n" by (auto simp: tame_def)
    with Some show thesis using that [of "[n]"] by (simp add: callback_of_def)
  qed
  define nt where "nt = (reply_task rp s')\<lparr>t_callback := map PluginHandle (ms @ ns) @ [FinishRequest]\<rparr>"
  have nx: "next_task (\<lambda>_ _. map_option (\<lambda>r. reply_task r s') r) t = (if rp_handle rp = None then start_chain nt else Some nt)"
    using assms(2) r(1) h(3) cb by (simp add: next_task_def nt_def reply_task_def Let_def)
  have ok: "request_ok (ss_request s')" using ty by (simp add: next_ready_def)
  show ?thesis
  proof (cases "rp_handle rp")
    case (Some h')
    with ty r(2) have "alive nt"
      unfolding alive_def by (intro exI [of _ h'] exI [of _ "ms @ ns"]) (auto simp: nt_def reply_task_def next_ready_def tame_def)
    with nx Some show ?thesis by simp
  next
    case None
    have "alive (nt\<lparr>t_handle := Some (PluginHandle n), t_callback := map PluginHandle ns' @ [FinishRequest]\<rparr>)" for n ns'
      using ok by (auto simp: alive_def nt_def reply_task_def ready_for_def)
    moreover have "ending (nt\<lparr>t_handle := Some FinishRequest, t_callback := []\<rparr>)"
      using ok by (simp add: ending_def nt_def reply_task_def)
    moreover have "\<exists>t'. start_chain nt = Some t' \<and> (t' = nt\<lparr>t_handle := Some FinishRequest, t_callback := []\<rparr> \<or>
        (\<exists>n ns'. t' = nt\<lparr>t_handle := Some (PluginHandle n), t_callback := map PluginHandle ns' @ [FinishRequest]\<rparr>))"
      by (cases "ms @ ns") (auto simp: start_chain_def nt_def)
    ultimately show ?thesis using nx None by auto
  qed
qed

lemma serve_chain:
  "serve S es t hs = Some (res, hs') \<Longrightarrow> alive t \<or> ending t \<Longrightarrow> FinishRequest \<notin> set hs \<Longrightarrow>
     \<forall>e \<in> set es. plugin_typed e \<and> plugin_tame e \<Longrightarrow>
     (case res of
        None \<Rightarrow> \<exists>xs. hs' = xs @ [FinishRequest] \<and> FinishRequest \<notin> set xs
      | Some t' \<Rightarrow> FinishRequest \<notin> set hs' \<and> (alive t' \<or> ending t'))"
proof (induction S es t hs rule: serve.induct)
  case (1 S t hs)
  then show ?case by auto
next
  case (2 S e es t hs)
  obtain h where h: "t_handle t = Some h" using 2(3) by (auto simp: alive_def ending_def)
  obtain r s' where run: "run_handler S e h (t_data t) = Some (r, s')" using 2(2) h by (auto split: option.splits)
  show ?case
  proof (cases "ending t")
    case True
    with h have "h = FinishRequest" "t_callback t = []" by (auto simp: ending_def)
    with run have "r = None" by (simp add: run_handler_def Let_def)
    with 2(2,4) h run \<open>t_callback t = []\<close> \<open>h = FinishRequest\<close> show ?thesis
      by (auto simp: next_task_def start_chain_def)
  next
    case False
    with 2(3) have al: "alive t" by blast
    with h have "h \<noteq> FinishRequest" by (auto simp: alive_def)
    obtain t' where t': "next_task (\<lambda>_ _. map_option (\<lambda>r. reply_task r s') r) t = Some t'" "alive t' \<or> ending t'"
      using chain_step [OF al h run] 2(5) by auto
    from 2(1) [OF h run refl t'(1)] 2(2,4,5) h run t' \<open>h \<noteq> FinishRequest\<close> show ?thesis by simp
  qed
qed

section \<open>What \<open>destroy_request\<close> frees\<close>

lemma freedict_values: "dict_ok d \<Longrightarrow> v \<in> set (freedict d) \<longleftrightarrow> (\<exists>k. dvalue d k = Some v)"
proof -
  assume d: "dict_ok d"
  have "v \<in> set (free_association ch) \<longleftrightarrow> (\<exists>k. (k, Some v) \<in> set ch)" for ch :: "'a chain"
    by (induction ch) (auto split: option.splits)
  then show ?thesis using dict_items_abs [OF d] by (auto simp: freedict_items dvalue_abs bind_eq_Some_conv)
qed

text \<open>Everything a value of the request holds.\<close>

definition held :: "rqval \<Rightarrow> freed list" where
  "held v = (case v of RqStr s \<Rightarrow> [FreedStr s] | RqDict d \<Rightarrow> freed_table d | RqClient c \<Rightarrow> [FreedClient])"

definition all_held :: "rqval dictionary \<Rightarrow> freed multiset" where
  "all_held d = (\<Sum>v \<in># mset (freedict d). mset (held v))"

lemma all_held_dput_None:
  "dict_ok d \<Longrightarrow> all_held d = all_held (dput d k None) + (case dvalue d k of None \<Rightarrow> {#} | Some v \<Rightarrow> mset (held v))"
  using arg_cong [OF freedict_dput [of d k None], of "\<lambda>M. \<Sum>v \<in># M. mset (held v)"]
  by (auto simp: all_held_def split: option.splits)

lemma drop_table_ok:
  assumes "request_ok rq" "key \<in> {''REQUEST_HEADER'', ''REQUEST_DATA'', ''COOKIE''}"
  shows "\<exists>fs. drop_table rq key = Some fs \<and> mset fs = (case dvalue (rq_dict rq) key of None \<Rightarrow> {#} | Some v \<Rightarrow> mset (held v))"
proof (cases "dvalue (rq_dict rq) key")
  case (Some v)
  with assms have "typed_entry key v" by (simp add: request_ok_def)
  with assms(2) obtain d where "v = RqDict d" by (auto simp: typed_entry_def split: rqval.splits)
  with Some show ?thesis by (simp add: drop_table_def held_def)
qed (simp add: drop_table_def)

lemma sum_singletons: "(\<And>x. x \<in> set xs \<Longrightarrow> f x = [g x]) \<Longrightarrow> (\<Sum>x \<in># mset xs. mset (f x)) = mset (map g xs)"
  by (induction xs) auto

lemma destroy_request_exact:
  assumes "request_ok rq"
  shows "\<exists>fs. destroy_request rq = Some fs \<and>
    mset fs = all_held (rq_dict rq) + {#FreedDict, FreedRequest#} + mset (antd_close (rq_client rq))"
proof -
  let ?d = "rq_dict rq"
  let ?d1 = "dput ?d ''REQUEST_HEADER'' None"
  let ?d2 = "dput ?d1 ''REQUEST_DATA'' None"
  let ?d3 = "dput ?d2 ''COOKIE'' None"
  let ?old = "\<lambda>key. case dvalue ?d key of None \<Rightarrow> {#} | Some v \<Rightarrow> mset (held v)"
  have ok: "dict_ok ?d" "dict_ok ?d1" "dict_ok ?d2" "dict_ok ?d3" using assms by (simp_all add: request_ok_def dict_ok_dput)
  have keys: "''COOKIE'' \<in> {''REQUEST_HEADER'', ''REQUEST_DATA'', ''COOKIE''}" "''REQUEST_HEADER'' \<in> {''REQUEST_HEADER'', ''REQUEST_DATA'', ''COOKIE''}"
    "''REQUEST_DATA'' \<in> {''REQUEST_HEADER'', ''REQUEST_DATA'', ''COOKIE''}"
    by simp_all
  obtain f1 where f1: "drop_table rq ''COOKIE'' = Some f1" "mset f1 = ?old ''COOKIE''" using drop_table_ok [OF assms keys(1)] by blast
  obtain f2 where f2: "drop_table rq ''REQUEST_HEADER'' = Some f2" "mset f2 = ?old ''REQUEST_HEADER''" using drop_table_ok [OF assms keys(2)] by blast
  obtain f3 where f3: "drop_table rq ''REQUEST_DATA'' = Some f3" "mset f3 = ?old ''REQUEST_DATA''" using drop_table_ok [OF assms keys(3)] by blast
  have held: "all_held ?d = all_held ?d3 + ?old ''COOKIE'' + ?old ''REQUEST_DATA'' + ?old ''REQUEST_HEADER''"
    using all_held_dput_None [OF ok(1), of "''REQUEST_HEADER''"] all_held_dput_None [OF ok(2), of "''REQUEST_DATA''"]
      all_held_dput_None [OF ok(3), of "''COOKIE''"] ok by simp
  have "held v = [freed_value v]" if "v \<in> set (freedict ?d3)" for v
  proof -
    from that obtain k where k: "dvalue ?d3 k = Some v" using freedict_values [OF ok(4)] by blast
    then have n: "k \<notin> {''REQUEST_HEADER'', ''REQUEST_DATA'', ''COOKIE''}" using ok by auto
    with k ok have "dvalue ?d k = Some v" by simp
    with assms have "typed_entry k v" unfolding request_ok_def by blast
    with n show ?thesis by (cases v) (auto simp: typed_entry_def held_def freed_value_def)
  qed
  then have "all_held ?d3 = mset (map freed_value (freedict ?d3))"
    unfolding all_held_def by (rule sum_singletons)
  with f1(2) f2(2) f3(2) held show ?thesis
    unfolding destroy_request_def Let_def f1(1) f2(1) f3(1) by (simp add: ac_simps)
qed

section \<open>Properties\<close>

text \<open>C3. A connection is finished exactly once: from the task \<open>antd_monitor\<close> makes, the handlers run one after
  the other, each on a request it can read, and \<open>finish_request\<close> runs once and last, whatever the
  client sends, the system answers and well-typed plugins do; so a chain that ends leaves the
  connection counter as it was.  A chain that has not ended has not finished the request, and if the
  scheduler drops its task, \<open>antd_scheduler_destroy_data\<close> finishes it.\<close>

theorem request_finished_once:
  assumes "antd_monitor junk cfg pcnf remote c = Some (t, rq, cfg1)" "\<forall>e \<in> set es. plugin_typed e \<and> plugin_tame e"
    "serve S es (reply_task t \<lparr>ss_request = rq, ss_plugins = p, ss_files = []\<rparr>) [] = Some (res, hs)"
  shows "case res of
      None \<Rightarrow> (\<exists>xs. hs = xs @ [FinishRequest] \<and> FinishRequest \<notin> set xs) \<and>
        cf_connection (fold (\<lambda>h. if h = FinishRequest then finish_request else id) hs cfg1) = cf_connection cfg
    | Some t' \<Rightarrow> FinishRequest \<notin> set hs \<and> (\<exists>h. t_handle t' = Some h \<and> ready_for h (ss_request (t_data t'))) \<and>
        (\<exists>fs cfg2. antd_scheduler_destroy_data (ss_request (t_data t')) cfg1 = Some (fs, cfg2) \<and> cf_connection cfg2 = cf_connection cfg)"
proof -
  let ?t = "reply_task t \<lparr>ss_request = rq, ss_plugins = p, ss_files = []\<rparr>"
  let ?fin = "\<lambda>h. if h = FinishRequest then finish_request else id"
  obtain c1 where m: "new_request pcnf remote c1 = Some rq" "rp_handle t = Some AcceptRequest" "rp_callback t = Some FinishRequest"
      "cfg1 = cfg\<lparr>cf_connection := cf_connection cfg + 1\<rparr>"
    using assms(1) by (auto simp: antd_monitor_def Let_def split: option.splits)
  have "alive ?t"
    unfolding alive_def using new_request_ready(1) [OF m(1)] m(2,3)
    by (intro exI [of _ AcceptRequest] exI [of _ "[]"]) (simp add: reply_task_def callback_of_def)
  from serve_chain [OF assms(3) _ _ assms(2)] this
  have ch: "case res of None \<Rightarrow> \<exists>xs. hs = xs @ [FinishRequest] \<and> FinishRequest \<notin> set xs
      | Some t' \<Rightarrow> FinishRequest \<notin> set hs \<and> (alive t' \<or> ending t')" by simp
  show ?thesis
  proof (cases res)
    case None
    with ch obtain xs where xs: "hs = xs @ [FinishRequest]" "FinishRequest \<notin> set xs" by auto
    have "fold ?fin xs d = d" for d using xs(2) by (induction xs arbitrary: d) auto
    with None xs m(4) show ?thesis by (simp add: finish_request_def)
  next
    case (Some t')
    with ch have t': "FinishRequest \<notin> set hs" "alive t' \<or> ending t'" by auto
    then obtain h where h: "t_handle t' = Some h" "ready_for h (ss_request (t_data t'))"
      by (auto simp: alive_def ending_def ready_for_def)
    then have "request_ok (ss_request (t_data t'))" by (simp add: ready_for_def)
    with destroy_request_exact obtain fs where "destroy_request (ss_request (t_data t')) = Some fs" by blast
    with Some t'(1) h m(4) show ?thesis by (auto simp: antd_scheduler_destroy_data_def finish_request_def)
  qed
qed

text \<open>C14. \<open>destroy_request\<close> frees everything a well-typed request holds exactly once: every string and every
  dictionary with its strings, the memory of the request, of the client and of the client of a
  proxied server, and the TLS session, and it closes the socket of the client.  The socket of the other server is closed only by
  \<open>antd_scheduler_destroy_data\<close>.\<close>

theorem request_freed_exactly:
  assumes "request_ok rq"
  shows "\<exists>fs. destroy_request rq = Some fs \<and>
    mset fs = all_held (rq_dict rq) + {#FreedDict, FreedRequest, ClosedSock (sock (rq_client rq)), FreedClient#} +
      (if ssl (rq_client rq) then {#FreedSsl#} else {#}) \<and>
    antd_scheduler_destroy_data rq cfg =
      Some ((case rq_peer rq of None \<Rightarrow> [] | Some p \<Rightarrow> [ClosedSock (sock p)]) @ fs, finish_request cfg)"
  using destroy_request_exact [OF assms] by (auto simp: antd_scheduler_destroy_data_def antd_close_def)

theorem request_finished_once_witness:
  "\<exists>t rq cfg1. antd_monitor 0 demo_config (demo_port dict) None (demo_conn [71]) = Some (t, rq, cfg1) \<and>
    serve demo_site (replicate 2 (demo_step\<lparr>en_poll := (-1, {})\<rparr>)) (reply_task t \<lparr>ss_request = rq, ss_plugins = no_plugins, ss_files = []\<rparr>) [] =
      Some (None, [AcceptRequest, FinishRequest]) \<and>
    cf_connection (fold (\<lambda>h. if h = FinishRequest then finish_request else id) [AcceptRequest, FinishRequest] cfg1) = cf_connection demo_config"
proof -
  let ?e = "demo_step\<lparr>en_poll := (-1, {})\<rparr>"
  obtain t rq cfg1 where m: "antd_monitor 0 demo_config (demo_port dict) None (demo_conn [71]) = Some (t, rq, cfg1)"
    "rp_handle t = Some AcceptRequest" "rp_callback t = Some FinishRequest"
    by (simp add: antd_monitor_def new_request_def demo_port_def Let_def)
  have run: "serve demo_site (replicate 2 ?e) (reply_task t \<lparr>ss_request = rq, ss_plugins = no_plugins, ss_files = []\<rparr>) [] =
      Some (None, [AcceptRequest, FinishRequest])"
    using m(2,3)
    by (simp add: eval_nat_numeral reply_task_def demo_step_def run_handler_def accept_request_def next_task_def start_chain_def callback_of_def)
  have "\<forall>e \<in> set (replicate 2 ?e). plugin_typed e \<and> plugin_tame e"
    by (simp add: plugin_typed_def plugin_tame_def demo_step_def next_ready_def tame_def)
  from request_finished_once [OF m(1) this run] m(1) run show ?thesis by auto
qed

theorem request_freed_exactly_witness:
  "\<exists>rq fs. new_request (demo_port dict) None (demo_conn [71]) = Some rq \<and> destroy_request rq = Some fs \<and>
    mset fs = all_held (rq_dict rq) + {#FreedDict, FreedRequest, ClosedSock (sock (rq_client rq)), FreedClient#} +
      (if ssl (rq_client rq) then {#FreedSsl#} else {#})"
proof -
  obtain rq where rq: "new_request (demo_port dict) None (demo_conn [71]) = Some rq" by (simp add: new_request_def demo_port_def)
  then have "request_ok rq" using new_request_ready(1) by (simp add: ready_for_def)
  from request_freed_exactly [OF this] rq show ?thesis by blast
qed

end
