(* ===== verification/Control.thy ===== *)
theory Control
  imports Lifetime
begin

text \<open>
  The statistics of the scheduler (\<open>statistic\<close>, \<open>antd_task_dump\<close> and, in \<open>httpd.c\<close>,
  \<open>antd_scheduler_ext_statistic\<close>) and its end (\<open>stop\<close>, \<open>antd_scheduler_destroy\<close>).  What is written to the
  FIFO is a list of texts; \<open>None\<close> is a freed task, or a value printed as a string that is not one.
\<close>

section \<open>Statistics of a request\<close>

text \<open>\<open>SEND_STAT\<close>: \<open>snprintf\<close> to a buffer of \<open>BUFFLEN\<close> bytes.\<close>

definition send_stat :: "cstring \<Rightarrow> cstring" where
  "send_stat s = take (BUFFLEN - 1) s"

definition z_level_code :: "compress \<Rightarrow> int" where
  "z_level_code z = (case z of ANTD_CGZ \<Rightarrow> 0 | ANTD_CDEFL \<Rightarrow> 1 | ANTD_CNONE \<Rightarrow> 2)"

definition stat_entry :: "cstring \<times> cstring option \<Rightarrow> cstring" where
  "stat_entry = (\<lambda>(k, v). send_stat (k @ '': '' @ fmt_s v @ [LF]))"

text \<open>One entry of the request dictionary.\<close>

definition stat_value :: "cstring \<times> rqval option \<Rightarrow> cstring list option" where
  "stat_value = (\<lambda>(k, v).
     if k = ''REQUEST_HEADER'' \<or> k = ''REQUEST_DATA'' \<or> k = ''COOKIE'' then
       (case v of
          None \<Rightarrow> Some []
        | Some (RqDict d) \<Rightarrow> Some (map stat_entry (dict_items d))
        | Some _ \<Rightarrow> None)
     else
       (case v of
          None \<Rightarrow> Some [stat_entry (k, None)]
        | Some (RqStr s) \<Rightarrow> Some [stat_entry (k, Some s)]
        | Some _ \<Rightarrow> None))"

definition antd_scheduler_ext_statistic :: "request option \<Rightarrow> cstring list option" where
  "antd_scheduler_ext_statistic request =
     (case request of
        None \<Rightarrow> Some [send_stat (''Data is null'' @ [LF])]
      | Some rq \<Rightarrow>
          let c = rq_client rq;
              general = [''Client id: '' @ dec_int (sock c) @ [LF], ''Last IO: '' @ dec_int (last_io c) @ [LF],
                         ''Current state: '' @ dec_int (int (state c)) @ [LF], ''z_level: '' @ dec_int (z_level_code (z_level c)) @ [LF]]
                @ (if ssl c then [''SSL is enabled'' @ [LF]] else [])
          in do {
            details \<leftarrow> those (map stat_value (dict_items (rq_dict rq)));
            Some (map send_stat general @ concat details)
          })"

section \<open>Statistics of the scheduler\<close>

definition MAX_NAME_SZ :: nat where "MAX_NAME_SZ = 255"

definition stat_line :: "cstring \<Rightarrow> cstring" where
  "stat_line s = take (MAX_NAME_SZ - 1) s"

text \<open>\<open>antd_task_dump\<close>; \<open>ext\<close> is \<open>antd_scheduler_ext_statistic\<close>.\<close>

definition antd_task_dump :: "('d \<Rightarrow> cstring list option) \<Rightarrow> int \<Rightarrow> ptr option \<Rightarrow> ('h, 'd) sched \<Rightarrow> cstring list option" where
  "antd_task_dump ext_stat fd task s =
     (case task of
        None \<Rightarrow> Some []
      | Some p \<Rightarrow>
          if fd < 0 then Some []
          else do {
            t \<leftarrow> s_heap s p;
            details \<leftarrow> ext_stat (t_data t);
            Some (map stat_line
              ([''---- Task '' @ dec_int (t_id t) @ '' created at: '' @ dec_int (t_stamp t) @ '' ----'' @ [LF],
                ''Access time: '' @ dec_int (t_access t) @ [LF] @ ''n'',
                ''Current time: '' @ dec_int (s_time s) @ [LF]]
               @ (if t_handle t \<noteq> None then [''Has handle: yes'' @ [LF]] else [])
               @ (if t_callback t \<noteq> [] then [''Has callback: yes'' @ [LF]] else []))
              @ details)
          })"

definition print_static_info :: "('d \<Rightarrow> cstring list option) \<Rightarrow> int \<Rightarrow> ('h, 'd) sched \<Rightarrow> int \<Rightarrow> ptr option \<Rightarrow> cstring list option \<Rightarrow> cstring list option" where
  "print_static_info ext_stat fd s key data out =
     do { o1 \<leftarrow> out; o2 \<leftarrow> antd_task_dump ext_stat fd data s; Some (o1 @ o2) }"

text \<open>The part of \<open>statistic\<close> that writes, for the tasks the workers hold.\<close>

definition write_workers :: "('d \<Rightarrow> cstring list option) \<Rightarrow> int \<Rightarrow> ('h, 'd) sched \<Rightarrow> ptr option list \<Rightarrow> cstring list option" where
  "write_workers ext_stat fd s current =
     map_option concat
       (those (map (\<lambda>(i, task).
          map_option (\<lambda>d. stat_line (''Worker: '' @ dec_int (int i) @ ''. Detail:'' @ [LF]) # d) (antd_task_dump ext_stat fd task s))
        (enumerate 0 current)))"

definition write_statistic :: "('d \<Rightarrow> cstring list option) \<Rightarrow> int \<Rightarrow> ('h, 'd) sched \<Rightarrow> ptr option list \<Rightarrow> cstring list option" where
  "write_statistic ext_stat fd s current =
     do {
       tasks \<leftarrow> bst_for_each (task_queue s) (print_static_info ext_stat fd s) (Some []);
       workers \<leftarrow> write_workers ext_stat fd s current;
       Some (stat_line (''Pending task: '' @ dec_int (pending_task s) @ ''. Detail:'' @ [LF]) # tasks @ workers)
     }"

text \<open>A turn of the loop of \<open>statistic\<close>: what \<open>open\<close>, \<open>poll\<close> and the write of a dot answer; the texts
  written, the descriptor afterwards and whether the thread goes on.\<close>

record stat_env =
  sa_open :: int
  sa_poll :: int
  sa_pollout :: bool
  sa_dot :: bool

definition statistic_turn :: "('d \<Rightarrow> cstring list option) \<Rightarrow> stat_env \<Rightarrow> int \<Rightarrow> ('h, 'd) sched \<Rightarrow> ptr option list \<Rightarrow> (cstring list \<times> int \<times> bool) option" where
  "statistic_turn ext_stat os stat_fd s current =
     (let fd = (if stat_fd = -1 then sa_open os else stat_fd) in
      if fd = -1 then Some ([], -1, False)
      else if sa_poll os = -1 then Some ([], fd, False)
      else if sa_poll os = 0 then Some ([], fd, True)
      else if sa_pollout os then
        (if pending_task s > 0 then
           map_option (\<lambda>out. (out, -1, True)) (write_statistic ext_stat fd s current)
         else if sa_dot os then Some ([''.'', [CHR 0x08]], fd, True)
         else Some ([], -1, True))
      else Some ([], -1, True))"

section \<open>The end of the scheduler\<close>

text \<open>\<open>stop\<close>: every idle worker and the scheduler thread are woken, the workers joined.\<close>

definition stop :: "('h, 'd) sched \<Rightarrow> ('h, 'd) sched" where
  "stop s = s\<lparr>s_status := False, worker_sem := worker_sem s + nat (n_workers s), scheduler_sem := scheduler_sem s + 1\<rparr>"

text \<open>\<open>destroy_queue\<close> of a queue of tasks; the events of a task, which \<open>destroy_task\<close> also frees
  with it, are part of it here.\<close>

fun destroy_queue :: "ptr list \<Rightarrow> ('h, 'd) sched \<Rightarrow> ('h, 'd) sched option" where
  "destroy_queue [] s = Some s"
| "destroy_queue (it # q) s = do { s1 \<leftarrow> destroy_task it s; destroy_queue q s1 }"

definition antd_scheduler_destroy :: "('h, 'd) sched option \<Rightarrow> ('h, 'd) sched option option" where
  "antd_scheduler_destroy scheduler =
     (case scheduler of
        None \<Rightarrow> Some None
      | Some s \<Rightarrow>
          let s1 = stop s in
          do {
            s2 \<leftarrow> bst_free_cb (task_queue s1) (Some (\<lambda>p st. do { s \<leftarrow> st; destroy_task p s })) (Some s1);
            s3 \<leftarrow> destroy_queue (workers_queue s2) (s2\<lparr>task_queue := BNull\<rparr>);
            Some (Some s3)
          })"

section \<open>Lemmas\<close>

lemma destroy_queue_exact:
  "distinct q \<Longrightarrow> \<forall>p \<in> set q. s_heap s p \<noteq> None \<Longrightarrow>
     destroy_queue q s = Some (s\<lparr>s_heap := (\<lambda>p. if p \<in> set q then None else s_heap s p)\<rparr>)"
proof (induction q arbitrary: s)
  case (Cons p q)
  let ?s = "s\<lparr>s_heap := (s_heap s)(p := None)\<rparr>"
  have "destroy_task p s = Some ?s" using Cons.prems(2) by (auto simp: destroy_task_def)
  moreover have "destroy_queue q ?s = Some (?s\<lparr>s_heap := (\<lambda>x. if x \<in> set q then None else s_heap ?s x)\<rparr>)"
    using Cons.prems by (intro Cons.IH) auto
  moreover have "(\<lambda>x. if x \<in> set q then None else s_heap ?s x) = (\<lambda>x. if x \<in> set (p # q) then None else s_heap s x)"
    using Cons.prems(1) by (auto simp: fun_eq_iff)
  ultimately show ?case by simp
qed simp

lemma free_none: "bst_free_cb t None st = st"
  by (induction t arbitrary: st) (auto split: option.splits)

text \<open>The tasks of the pending tree, and the one at its root.\<close>

definition pending_tasks :: "('h, 'd) sched \<Rightarrow> ptr set" where
  "pending_tasks s = {p. \<exists>k. bst_abs (task_queue s) k = Some (Some p)}"

definition root_task :: "('h, 'd) sched \<Rightarrow> ptr set" where
  "root_task s = (case task_queue s of BNode k (Some p) l r \<Rightarrow> {p} | _ \<Rightarrow> {})"

lemma root_pending:
  assumes "queue_inv s" "task_queue s = BNode k d l r"
  obtains p t where "d = Some p" "s_heap s p = Some t" "t_id t = k" "bst_abs (task_queue s) k = Some (Some p)"
proof -
  have "bst_abs (task_queue s) k = Some d" using assms(2) by simp
  with queue_invD [OF assms(1) this] that show thesis by metis
qed

lemma scheduler_destroyed:
  assumes "sched_inv s [] X"
  shows "\<exists>s'. antd_scheduler_destroy (Some s) = Some (Some s') \<and>
    s_heap s' = (\<lambda>p. if p \<in> pending_tasks s - root_task s then s_heap s p else None) \<and> \<not> s_status s'"
proof -
  have q: "queue_inv s" and h: "heap_inv s (workers_queue s) X" using assms by (simp_all add: sched_inv_def)
  have W: "distinct (workers_queue s)" using h by (simp add: heap_inv_def)
  let ?H = "\<lambda>p. if p \<in> root_task s then None else s_heap s p"
  have live: "s_heap s p \<noteq> None \<and> p \<notin> pending_tasks s" if "p \<in> set (workers_queue s)" for p
  proof -
    from heap_inv_detached [OF h that] obtain t where t: "s_heap s p = Some t" "bst_abs (task_queue s) (t_id t) = None" by blast
    have "\<nexists>k. bst_abs (task_queue s) k = Some (Some p)"
    proof
      assume "\<exists>k. bst_abs (task_queue s) k = Some (Some p)"
      then obtain k where k: "bst_abs (task_queue s) k = Some (Some p)" by blast
      obtain p' t' where "Some p = Some p'" "s_heap s p' = Some t'" "t_id t' = k" by (rule queue_invD [OF q k])
      with t(1) have "t_id t = k" by simp
      with k t(2) show False by simp
    qed
    with t show ?thesis by (simp add: pending_tasks_def)
  qed
  have sub: "root_task s \<subseteq> pending_tasks s"
  proof (cases "task_queue s")
    case (BNode k d l r)
    obtain p t where "d = Some p" "bst_abs (task_queue s) k = Some (Some p)" by (rule root_pending [OF q BNode])
    then show ?thesis by (auto simp: root_task_def pending_tasks_def BNode)
  qed (simp add: root_task_def)
  have free: "bst_free_cb (task_queue (stop s)) (Some (\<lambda>p st. do { s \<leftarrow> st; destroy_task p s })) (Some (stop s)) = Some ((stop s)\<lparr>s_heap := ?H\<rparr>)"
  proof (cases "task_queue s")
    case BNull
    then show ?thesis by (simp add: root_task_def stop_def)
  next
    case (BNode k d l r)
    obtain p t where p: "d = Some p" "s_heap s p = Some t" by (rule root_pending [OF q BNode])
    then have "?H = (s_heap s)(p := None)" by (auto simp: root_task_def BNode)
    with p BNode show ?thesis by (simp add: free_none destroy_task_def stop_def)
  qed
  have queue: "destroy_queue (workers_queue s) ((stop s)\<lparr>s_heap := ?H, task_queue := BNull\<rparr>) =
      Some ((stop s)\<lparr>task_queue := BNull, s_heap := \<lambda>p. if p \<in> set (workers_queue s) then None else ?H p\<rparr>)"
  proof (subst destroy_queue_exact [OF W])
    show "\<forall>p \<in> set (workers_queue s). s_heap ((stop s)\<lparr>s_heap := ?H, task_queue := BNull\<rparr>) p \<noteq> None"
      using live sub by auto
  qed (simp add: stop_def cong: if_cong)
  have "(\<lambda>p. if p \<in> set (workers_queue s) then None else ?H p) = (\<lambda>p. if p \<in> pending_tasks s - root_task s then s_heap s p else None)"
  proof
    fix p
    have "s_heap s p = None \<or> p \<in> set (workers_queue s) \<or> p \<in> pending_tasks s"
      using heap_invD(2) [OF h] by (cases "s_heap s p") (auto simp: pending_tasks_def)
    then show "(if p \<in> set (workers_queue s) then None else ?H p) = (if p \<in> pending_tasks s - root_task s then s_heap s p else None)"
      using live [of p] by auto
  qed
  with free queue show ?thesis by (simp add: antd_scheduler_destroy_def Let_def stop_def)
qed

section \<open>Properties\<close>

lemma those_None: "those xs = None \<longleftrightarrow> None \<in> set xs"
  by (induction xs) (auto split: option.splits)

text \<open>C37. At the end of the scheduler nothing is freed twice and no freed task is touched, but of the pending
  tasks only the one at the root of the tree is destroyed: all others are left, whatever state the
  scheduler was in.\<close>

theorem scheduler_destroy_leaks:
  assumes "sched_reach (s, [], pc)"
  shows "\<exists>s'. antd_scheduler_destroy (Some s) = Some (Some s') \<and>
    (\<forall>p. s_heap s' p = (if p \<in> pending_tasks s - root_task s then s_heap s p else None)) \<and> \<not> s_status s'"
proof -
  obtain X where "sched_inv s [] X" using reach_inv [OF assms] by (cases pc) (auto simp: conf_inv_def)
  from scheduler_destroyed [OF this] show ?thesis by auto
qed

text \<open>C38. The statistics of a request can be written exactly when it has no connection to another server: every
  value of a well-typed request is then a string or one of the three dictionaries; with
  \<open>PROXY_HANDLE\<close> set, the code prints a client structure as a string.\<close>

theorem request_statistics:
  assumes "request_ok rq"
  shows "antd_scheduler_ext_statistic (Some rq) \<noteq> None \<longleftrightarrow> rq_peer rq = None"
proof -
  have d: "dict_ok (rq_dict rq)" using assms by (simp add: request_ok_def)
  have val: "stat_value (k, v) = None \<longleftrightarrow> k = ''PROXY_HANDLE'' \<and> v \<noteq> None" if "(k, v) \<in> set (dict_items (rq_dict rq))" for k v
  proof (cases v)
    case (Some x)
    then have "dvalue (rq_dict rq) k = Some x" using that dict_items_abs [OF d] by (simp add: dvalue_abs)
    with assms have "typed_entry k x" unfolding request_ok_def by blast
    with Some show ?thesis by (cases x) (auto simp: stat_value_def typed_entry_def)
  qed (simp add: stat_value_def)
  have none: "None \<in> set (map stat_value kvs) \<longleftrightarrow> (\<exists>kv \<in> set kvs. stat_value kv = None)" for kvs
    by force
  have "antd_scheduler_ext_statistic (Some rq) = None \<longleftrightarrow> (\<exists>kv \<in> set (dict_items (rq_dict rq)). stat_value kv = None)"
    by (simp add: antd_scheduler_ext_statistic_def Let_def bind_eq_None_conv those_None none del: set_map)
  also have "\<dots> \<longleftrightarrow> (\<exists>x. (''PROXY_HANDLE'', Some x) \<in> set (dict_items (rq_dict rq)))"
  proof
    assume "\<exists>kv \<in> set (dict_items (rq_dict rq)). stat_value kv = None"
    then obtain k v where kv: "(k, v) \<in> set (dict_items (rq_dict rq))" "stat_value (k, v) = None" by force
    with val [OF kv(1)] show "\<exists>x. (''PROXY_HANDLE'', Some x) \<in> set (dict_items (rq_dict rq))" by auto
  next
    assume "\<exists>x. (''PROXY_HANDLE'', Some x) \<in> set (dict_items (rq_dict rq))"
    then obtain x where x: "(''PROXY_HANDLE'', Some x) \<in> set (dict_items (rq_dict rq))" by blast
    with val [OF x] show "\<exists>kv \<in> set (dict_items (rq_dict rq)). stat_value kv = None" by blast
  qed
  also have "\<dots> \<longleftrightarrow> dvalue (rq_dict rq) ''PROXY_HANDLE'' \<noteq> None"
    by (cases "dict_abs (rq_dict rq) ''PROXY_HANDLE''") (auto simp: dict_items_abs [OF d] dvalue_abs)
  also have "\<dots> \<longleftrightarrow> rq_peer rq \<noteq> None"
  proof (cases "dvalue (rq_dict rq) ''PROXY_HANDLE''")
    case (Some x)
    with assms have "typed_entry ''PROXY_HANDLE'' x" unfolding request_ok_def by blast
    with Some show ?thesis by (cases x) (auto simp: rq_peer_def typed_entry_def)
  qed (simp add: rq_peer_def)
  finally show ?thesis by argo
qed

theorem scheduler_destroy_leaks_witness:
  "\<exists>s'. antd_scheduler_destroy (Some demo_sched) = Some (Some s') \<and> \<not> s_status s' \<and>
    (\<forall>p. s_heap s' p = (if p \<in> pending_tasks demo_sched - root_task demo_sched then s_heap demo_sched p else None))"
  using scheduler_destroy_leaks [OF demo_reach] by blast

theorem request_statistics_witness:
  "\<exists>rq. new_request (demo_port dict) None (demo_conn [71]) = Some rq \<and>
    (antd_scheduler_ext_statistic (Some rq) \<noteq> None \<longleftrightarrow> rq_peer rq = None)"
proof -
  obtain rq where rq: "new_request (demo_port dict) None (demo_conn [71]) = Some rq" by (simp add: new_request_def demo_port_def)
  then have "request_ok rq" using new_request_ready(1) by (simp add: ready_for_def)
  with rq request_statistics [OF this] show ?thesis by (intro exI [of _ rq] conjI)
qed

end
