(* ===== verification/Httpd.thy ===== *)
theory Httpd
  imports Lifetime SystemCalls
begin

text \<open>
  The main program, \<open>httpd.c\<close>: the TLS context, the listening sockets, the loop that accepts connections
  and its limit on them.  What the system and the TLS library answer are arguments.
\<close>

section \<open>TLS\<close>

text \<open>The answers of the OpenSSL calls; a context that was made is a pointer that is not NULL.\<close>

record tls =
  tls_ctx :: bool
  tls_cipher :: "cstring \<Rightarrow> int"
  tls_chain :: "cstring \<Rightarrow> int"
  tls_key :: "cstring \<Rightarrow> int"
  tls_check :: bool

definition CIPHER_SUIT :: cstring where "CIPHER_SUIT = ''HIGH''"

definition create_context :: "tls \<Rightarrow> bool" where
  "create_context os = tls_ctx os"

text \<open>\<open>configure_context\<close>: \<open>False\<close> is \<open>exit(EXIT_FAILURE)\<close>.\<close>

definition configure_context :: "tls \<Rightarrow> config \<Rightarrow> bool" where
  "configure_context os cfg =
     (let suit = (case cf_ssl_cipher cfg of Some s \<Rightarrow> s | None \<Rightarrow> CIPHER_SUIT) in
      if tls_cipher os suit \<noteq> 1 then False
      else if tls_chain os (cf_sslcert cfg) \<le> 0 then False
      else if tls_key os (cf_sslkey cfg) \<le> 0 then False
      else if \<not> tls_check os then False
      else True)"

definition antd_protocols :: "u8 list" where
  "antd_protocols = [8, byte_of (CHR ''h''), byte_of (CHR ''t''), byte_of (CHR ''t''), byte_of (CHR ''p''), byte_of (CHR ''/''),
     byte_of (CHR ''1''), byte_of (CHR ''.''), byte_of (CHR ''1'')]"

text \<open>The protocol negotiation: \<open>SSL_select_next_proto\<close> chooses from both lists, or fails.\<close>

definition alpn_advertise_protos_cb :: "u8 list \<times> nat" where
  "alpn_advertise_protos_cb = (antd_protocols, length antd_protocols)"

definition alpn_select_cb :: "(u8 list \<Rightarrow> u8 list \<Rightarrow> u8 list option) \<Rightarrow> u8 list \<Rightarrow> u8 list option" where
  "alpn_select_cb select_next_proto client_list = select_next_proto antd_protocols client_list"

section \<open>Listening\<close>

record listening =
  ls_ports :: "(cstring \<times> port_config option) list"
  ls_set :: "int list"
  ls_maxfd :: int
  ls_n :: nat

text \<open>One port of the configuration: \<open>net\<close> is what the system answers for it.\<close>

definition open_port :: "net \<Rightarrow> port_config \<Rightarrow> port_config" where
  "open_port os pcnf = (let (fd, port) = antd_listen os (pc_port pcnf) in pcnf\<lparr>pc_sock := fd, pc_port := port\<rparr>)"

fun open_ports :: "(cstring \<Rightarrow> net) \<Rightarrow> (cstring \<times> port_config option) list \<Rightarrow> listening \<Rightarrow> listening" where
  "open_ports os [] l = l"
| "open_ports os ((key, None) # it) l = open_ports os it (l\<lparr>ls_ports := ls_ports l @ [(key, None)]\<rparr>)"
| "open_ports os ((key, Some pcnf) # it) l =
     (let p = open_port (os key) pcnf; l1 = l\<lparr>ls_ports := ls_ports l @ [(key, Some p)]\<rparr> in
      open_ports os it
        (if pc_sock p > 0 then
           l1\<lparr>ls_set := ls_set l1 @ [pc_sock p], ls_maxfd := (if pc_sock p > ls_maxfd l1 then pc_sock p else ls_maxfd l1), ls_n := ls_n l1 + 1\<rparr>
         else l1))"

section \<open>\<open>main\<close> up to its loop\<close>

datatype start = ExitFailure | StopServe int | Listening listening

definition main_start :: "tls \<Rightarrow> bool \<Rightarrow> bool \<Rightarrow> (cstring \<Rightarrow> net) \<Rightarrow> config \<Rightarrow> start" where
  "main_start ssys sched_ok thread_ok os cfg =
     (if cf_enable_ssl cfg = 1 \<and> \<not> (create_context ssys \<and> configure_context ssys cfg) then ExitFailure
      else if \<not> sched_ok then StopServe 1
      else
        let l = open_ports os (dict_items (cf_ports cfg)) \<lparr>ls_ports = [], ls_set = [], ls_maxfd = 0, ls_n = 0\<rparr> in
        if ls_n l = 0 then StopServe 1
        else if \<not> thread_ok then StopServe 1
        else Listening l)"

section \<open>Accepting\<close>

text \<open>What \<open>accept\<close>, \<open>inet_ntop\<close> and \<open>SSL_new\<close> give for a port, and the memory of an unset \<open>usessl\<close>.\<close>

record accepted =
  ac_sock :: int
  ac_remote :: "cstring option"
  ac_client :: client
  ac_ssl :: bool
  ac_junk :: int

definition uses_tls :: "accepted \<Rightarrow> port_config \<Rightarrow> bool" where
  "uses_tls a pcnf \<longleftrightarrow> (case pc_usessl pcnf of None \<Rightarrow> ac_junk a | Some n \<Rightarrow> n) = 1"

text \<open>The whole of \<open>antd_monitor\<close>: the new task, if there is one, and the configuration with its
  counter.  When \<open>SSL_new\<close> fails, \<open>finish_request\<close> comes before the counter is incremented.\<close>

definition monitor_port :: "config \<Rightarrow> port_config \<Rightarrow> accepted \<Rightarrow> ((reply \<times> request) list \<times> config) option" where
  "monitor_port cfg pcnf a =
     (if pc_sock pcnf > 0 \<and> ac_sock a > 0 then
        (case antd_monitor (ac_junk a) cfg pcnf (ac_remote a) (ac_client a) of
           None \<Rightarrow> None
         | Some (t, rq, cfg1) \<Rightarrow>
             if uses_tls a pcnf \<and> \<not> ac_ssl a then Some ([], finish_request cfg)
             else Some ([(t, rq)], cfg1))
      else Some ([], cfg))"

fun accept_ports :: "int set \<Rightarrow> (cstring \<Rightarrow> accepted) \<Rightarrow> (cstring \<times> port_config option) list \<Rightarrow> config \<Rightarrow> ((reply \<times> request) list \<times> config) option" where
  "accept_ports working_set acc [] cfg = Some ([], cfg)"
| "accept_ports working_set acc ((key, pcnf) # it) cfg =
     (case pcnf of
        None \<Rightarrow> accept_ports working_set acc it cfg
      | Some p \<Rightarrow>
          if pc_sock p > 0 \<and> pc_sock p \<in> working_set then
            do {
              (ts, cfg1) \<leftarrow> monitor_port cfg p (acc key);
              (ts', cfg2) \<leftarrow> accept_ports working_set acc it cfg1;
              Some (ts @ ts', cfg2)
            }
          else accept_ports working_set acc it cfg)"

text \<open>A turn of the loop, for the answer of \<open>select\<close>: a pause, the end of the loop, nothing, or the new
  tasks with the configuration.\<close>

datatype turn = Pause | Break | Continue | Accepted "(reply \<times> request) list" config

definition main_turn :: "int \<times> int set \<Rightarrow> (cstring \<Rightarrow> accepted) \<Rightarrow> (cstring \<times> port_config option) list \<Rightarrow> config \<Rightarrow> turn option" where
  "main_turn sel acc ports cfg =
     (if cf_connection cfg > cf_maxcon cfg then Some Pause
      else
        let (status, working_set) = sel in
        if status < 0 then Some Break
        else if status = 0 then Some Continue
        else map_option (\<lambda>(ts, cfg1). Accepted ts cfg1) (accept_ports working_set acc ports cfg))"

section \<open>The counter of connections\<close>

text \<open>The main loop and the workers: a turn may accept connections, a worker may finish one.  \<open>live\<close> is
  the number of requests that exist.\<close>

inductive connections :: "(cstring \<times> port_config option) list \<Rightarrow> (cstring \<Rightarrow> accepted \<Rightarrow> bool) \<Rightarrow> config \<times> nat \<Rightarrow> config \<times> nat \<Rightarrow> bool"
  for ports allowed where
  start: "connections ports allowed (cfg, n) (cfg, n)"
| turn: "connections ports allowed c (cfg, n) \<Longrightarrow> main_turn sel acc ports cfg = Some (Accepted ts cfg1) \<Longrightarrow>
    \<forall>key. allowed key (acc key) \<Longrightarrow> connections ports allowed c (cfg1, n + length ts)"
| worker: "connections ports allowed c (cfg, Suc n) \<Longrightarrow> connections ports allowed c (finish_request cfg, n)"

lemma antd_monitor_count:
  assumes "antd_monitor junk cfg pcnf remote c = Some (t, rq, cfg1)"
  shows "cfg1 = cfg\<lparr>cf_connection := cf_connection cfg + 1\<rparr>" "rp_handle t = Some AcceptRequest" "rp_callback t = Some FinishRequest"
    "ready_for AcceptRequest rq"
proof -
  obtain c1 where "new_request pcnf remote c1 = Some rq" using assms by (auto simp: antd_monitor_def Let_def split: option.splits)
  then show "ready_for AcceptRequest rq" by (rule new_request_ready(1))
  show "cfg1 = cfg\<lparr>cf_connection := cf_connection cfg + 1\<rparr>" "rp_handle t = Some AcceptRequest" "rp_callback t = Some FinishRequest"
    using assms by (auto simp: antd_monitor_def Let_def split: option.splits)
qed

text \<open>The listening ports of the list.\<close>

definition listeners :: "(cstring \<times> port_config option) list \<Rightarrow> nat" where
  "listeners ports = length (filter (\<lambda>(key, p). case p of None \<Rightarrow> False | Some pc \<Rightarrow> pc_sock pc > 0) ports)"

lemma listeners_simps [simp]:
  "listeners [] = 0" "listeners ((key, None) # it) = listeners it"
  "listeners ((key, Some p) # it) = (if pc_sock p > 0 then Suc (listeners it) else listeners it)"
  by (simp_all add: listeners_def)

definition tls_works :: "(cstring \<times> port_config option) list \<Rightarrow> cstring \<Rightarrow> accepted \<Rightarrow> bool" where
  "tls_works ports key a \<longleftrightarrow> (\<forall>p. (key, Some p) \<in> set ports \<longrightarrow> uses_tls a p \<longrightarrow> ac_ssl a)"

definition fresh_task :: "reply \<times> request \<Rightarrow> bool" where
  "fresh_task = (\<lambda>(t, rq). rp_handle t = Some AcceptRequest \<and> rp_callback t = Some FinishRequest \<and> ready_for AcceptRequest rq)"

lemma accept_ports_count:
  "accept_ports ws acc it cfg = Some (ts, cfg1) \<Longrightarrow> \<forall>key. tls_works it key (acc key) \<Longrightarrow>
     cfg1 = cfg\<lparr>cf_connection := cf_connection cfg + int (length ts)\<rparr> \<and> length ts \<le> listeners it \<and> (\<forall>t \<in> set ts. fresh_task t)"
proof (induction ws acc it cfg arbitrary: ts cfg1 rule: accept_ports.induct)
  case (1 ws acc cfg)
  then show ?case by simp
next
  case (2 ws acc key pcnf it cfg)
  have works: "\<forall>key. tls_works it key (acc key)" using 2(5) by (auto simp: tls_works_def)
  show ?case
  proof (cases pcnf)
    case None
    with 2(1,4) works show ?thesis by simp
  next
    case (Some p)
    show ?thesis
    proof (cases "pc_sock p > 0 \<and> pc_sock p \<in> ws")
      case False
      with 2(3) [OF Some False] 2(4) works Some show ?thesis by (fastforce split: if_splits)
    next
      case True
      obtain ts1 cfgx ts2 where m: "monitor_port cfg p (acc key) = Some (ts1, cfgx)" "accept_ports ws acc it cfgx = Some (ts2, cfg1)" "ts = ts1 @ ts2"
        using 2(4) Some True by (auto split: Option.bind_splits prod.splits)
      have "uses_tls (acc key) p \<longrightarrow> ac_ssl (acc key)" using 2(5) Some by (auto simp: tls_works_def)
      with m(1) have "ts1 = [] \<and> cfgx = cfg \<or> (\<exists>t rq. ts1 = [(t, rq)] \<and> antd_monitor (ac_junk (acc key)) cfg p (ac_remote (acc key)) (ac_client (acc key)) = Some (t, rq, cfgx))"
        by (auto simp: monitor_port_def split: if_splits option.splits)
      then have "cfgx = cfg\<lparr>cf_connection := cf_connection cfg + int (length ts1)\<rparr> \<and> length ts1 \<le> 1 \<and> (\<forall>t \<in> set ts1. fresh_task t)"
        by (auto simp: fresh_task_def dest: antd_monitor_count)
      with 2(2) [OF Some True m(1) refl m(2) works] m(3) True Some show ?thesis by auto
    qed
  qed
qed

lemma main_turn_count:
  assumes "main_turn sel acc ports cfg = Some (Accepted ts cfg1)" "\<forall>key. tls_works ports key (acc key)"
  shows "cf_connection cfg \<le> cf_maxcon cfg" "cfg1 = cfg\<lparr>cf_connection := cf_connection cfg + int (length ts)\<rparr>"
    "length ts \<le> listeners ports" "\<forall>t \<in> set ts. fresh_task t"
  using assms accept_ports_count [of "snd sel" acc ports cfg ts cfg1]
  by (auto simp: main_turn_def Let_def split: if_splits prod.splits)

section \<open>Properties\<close>


definition demo_accepted :: accepted where
  "demo_accepted = \<lparr>ac_sock = 7, ac_remote = None, ac_client = demo_conn [71], ac_ssl = True, ac_junk = 0\<rparr>"


end
